(* ===== verification/OK_Prelude.thy ===== *)
theory OK_Prelude
  imports Main "HOL-Library.Word"
begin

text \<open>
  Shared vocabulary of the development: the machine integer types and the error codes of
  \<^verbatim>\<open>include/ok/core/types.hpp\<close>, the first-match and counting loops over fixed arrays that
  most components use, the two word operations behind every bitmap, and the two interfaces
  that several components implement: a bit array, and a table of generation-checked handles.
\<close>

unbundle bit_operations_syntax

section \<open>Machine integers and error codes\<close>

text \<open>
  The development fixes the 64-bit profiles: \<open>usize\<close> and \<open>uptr\<close> are 64 bits wide. Counters
  that index an array of fixed capacity are modelled as \<^typ>\<open>nat\<close>.
\<close>

type_synonym u8 = "8 word"
type_synonym u16 = "16 word"
type_synonym u32 = "32 word"
type_synonym u64 = "64 word"
type_synonym usize = "64 word"
type_synonym uptr = "64 word"

datatype status_code =
    S_ok
  | S_invalid_argument
  | S_no_memory
  | S_not_found
  | S_already_exists
  | S_busy
  | S_denied
  | S_unsupported
  | S_overflow
  | S_would_block
  | S_interrupted
  | S_fault
  | S_not_initialized
  | S_broken_pipe
  | S_bad_descriptor
  | S_not_seekable
  | S_io_error
  | S_cross_device
  | S_not_directory
  | S_is_directory
  | S_not_empty
  | S_link_limit
  | S_no_space
  | S_permission
  | S_too_many_symlinks
  | S_process_file_limit
  | S_system_file_limit
  | S_name_too_long
  | S_message_size
  | S_no_process
  | S_not_terminal
  | S_exec_format
  | S_argument_list_too_long

text \<open>
  A \<open>Status\<close> is its code; the diagnostic message is not modelled. A \<open>Result<T>\<close> is a sum,
  \<^const>\<open>Inl\<close> for a failure status and \<^const>\<open>Inr\<close> for a value. An operation that changes state
  returns its status or result together with the new state.
\<close>

type_synonym 'a result = "status_code + 'a"

definition status_ok :: "status_code \<Rightarrow> bool" where
  "status_ok s \<longleftrightarrow> s = S_ok"

definition result_ok :: "'a result \<Rightarrow> bool" where
  "result_ok r = (case r of Inl _ \<Rightarrow> False | Inr _ \<Rightarrow> True)"

lemma result_ok_simps [simp]: "\<not> result_ok (Inl e)" "result_ok (Inr v)"
  by (simp_all add: result_ok_def)

section \<open>Loops over arrays\<close>

text \<open>The index a loop \<open>for (i = 0; i < n; ++i) if (P(a[i])) ...\<close> stops at.\<close>

primrec first_index :: "('a \<Rightarrow> bool) \<Rightarrow> 'a list \<Rightarrow> nat option" where
  "first_index P [] = None"
| "first_index P (x # xs) = (if P x then Some 0 else map_option Suc (first_index P xs))"

lemma first_index_None [simp]: "first_index P xs = None \<longleftrightarrow> (\<forall>x\<in>set xs. \<not> P x)"
  by (induction xs) auto

lemma first_index_Some_iff:
  "first_index P xs = Some i \<longleftrightarrow> i < length xs \<and> P (xs ! i) \<and> (\<forall>j<i. \<not> P (xs ! j))"
proof (induction xs arbitrary: i)
  case Nil
  then show ?case by simp
next
  case (Cons x xs)
  show ?case
  proof (cases i)
    case 0
    then show ?thesis by auto
  next
    case (Suc k)
    then show ?thesis using Cons.IH [of k] by (auto simp: less_Suc_eq_0_disj)
  qed
qed

lemma first_indexD:
  assumes "first_index P xs = Some i"
  shows "i < length xs" and "P (xs ! i)" and "\<And>j. j < i \<Longrightarrow> \<not> P (xs ! j)"
  using assms by (auto simp: first_index_Some_iff)

lemma first_index_ex:
  assumes "i < length xs" and "P (xs ! i)"
  obtains k where "first_index P xs = Some k" and "k \<le> i"
proof (cases "first_index P xs")
  case None
  with assms show ?thesis by (auto dest: nth_mem)
next
  case (Some k)
  with assms that show ?thesis by (metis first_indexD(3) not_le_imp_less)
qed

lemma find_SomeD: "find P xs = Some x \<Longrightarrow> x \<in> set xs \<and> P x"
  by (induction xs) (auto split: if_splits)

text \<open>How many elements of an array satisfy a predicate.\<close>

definition count_if :: "('a \<Rightarrow> bool) \<Rightarrow> 'a list \<Rightarrow> nat" where
  "count_if P xs = length (filter P xs)"

lemma count_if_Nil [simp]: "count_if P [] = 0"
  and count_if_Cons [simp]: "count_if P (x # xs) = (if P x then Suc (count_if P xs) else count_if P xs)"
  and count_if_append [simp]: "count_if P (xs @ ys) = count_if P xs + count_if P ys"
  by (simp_all add: count_if_def)

lemma count_if_le: "count_if P xs \<le> length xs"
  by (simp add: count_if_def)

lemma count_if_replicate [simp]: "count_if P (replicate n x) = (if P x then n else 0)"
  by (induction n) auto

lemma count_if_zero_iff: "count_if P xs = 0 \<longleftrightarrow> (\<forall>x\<in>set xs. \<not> P x)"
  by (simp add: count_if_def filter_empty_conv)

lemma count_if_full_iff: "count_if P xs = length xs \<longleftrightarrow> (\<forall>x\<in>set xs. P x)"
proof (induction xs)
  case (Cons x xs)
  then show ?case using count_if_le [of P xs] by auto
qed simp

lemma count_if_split: "i < length xs \<Longrightarrow>
  count_if P xs = count_if P (take i xs) + (if P (xs ! i) then 1 else 0) + count_if P (drop (Suc i) xs)"
  by (subst id_take_nth_drop [of i xs]) auto

lemma count_if_update:
  assumes "i < length xs"
  shows "count_if P (xs[i := y]) + (if P (xs ! i) then 1 else 0)
    = count_if P xs + (if P y then 1 else 0)"
  using count_if_split [of i "xs[i := y]" P] count_if_split [OF assms, of P] assms by simp

lemma count_if_update_on:
  assumes "i < length xs" and "\<not> P (xs ! i)" and "P y"
  shows "count_if P (xs[i := y]) = Suc (count_if P xs)"
  using count_if_update [OF assms(1), of P y] assms by simp

lemma count_if_update_off:
  assumes "i < length xs" and "P (xs ! i)" and "\<not> P y"
  shows "count_if P (xs[i := y]) = count_if P xs - 1"
  using count_if_update [OF assms(1), of P y] assms by simp

lemma count_if_update_same:
  assumes "i < length xs" and "P (xs ! i) = P y"
  shows "count_if P (xs[i := y]) = count_if P xs"
  using count_if_update [OF assms(1), of P y] assms by (simp split: if_splits)

lemma count_if_card: "count_if P xs = card {i. i < length xs \<and> P (xs ! i)}"
  by (simp add: count_if_def length_filter_conv_card)

lemma count_if_ex_not:
  assumes "count_if P xs < length xs"
  obtains i where "i < length xs" and "\<not> P (xs ! i)"
  using assms by (metis count_if_full_iff in_set_conv_nth less_irrefl)

lemma nth_list_update_if: "i < length xs \<Longrightarrow> xs[i := v] ! j = (if j = i then v else xs ! j)"
  by simp

section \<open>Words without wrap-around\<close>

text \<open>
  The code guards an addition \<open>a + b\<close> by \<open>b > ~0 - a\<close>. When the guard does not fire the
  addition is the addition of natural numbers.
\<close>

named_theorems word_nat

lemma unat_of_nat_small [word_nat]: "n < 2 ^ LENGTH('a) \<Longrightarrow> unat (of_nat n :: 'a::len word) = n"
  by (simp add: unat_of_nat)

lemma len64: "LENGTH(64) = 64"
  by simp

lemma unat64_less [simp]: "unat (w :: 64 word) < 18446744073709551616"
  using unsigned_less [of w] by simp

lemma word_of_unat: "of_nat (unat w) = (w :: 'a::len word)"
  by simp

lemma unat_eqD: "unat (w :: 'a::len word) = n \<Longrightarrow> w = of_nat n"
  by (drule sym) simp

lemma unat_max: "unat (- 1 :: 'a::len word) = 2 ^ LENGTH('a) - 1"
  by (simp add: unsigned_minus_1_eq_mask mask_eq_exp_minus_1)

lemma unat_max_minus [word_nat]: "unat (- 1 - (a :: 'a::len word)) = 2 ^ LENGTH('a) - 1 - unat a"
  by (subst unat_sub) (simp_all add: unat_max)

lemma headroom_iff [word_nat]:
  "(b :: 'a::len word) \<le> - 1 - a \<longleftrightarrow> unat a + unat b < 2 ^ LENGTH('a)"
proof -
  have "unat a < 2 ^ LENGTH('a)" by (fact unsigned_less)
  then have "unat b \<le> 2 ^ LENGTH('a) - 1 - unat a \<longleftrightarrow> unat a + unat b < 2 ^ LENGTH('a)" by linarith
  then show ?thesis by (simp only: word_le_nat_alt unat_max_minus)
qed

lemma headroom_exceeded_iff [word_nat]:
  "(b :: 'a::len word) > - 1 - a \<longleftrightarrow> unat a + unat b \<ge> 2 ^ LENGTH('a)"
  by (simp add: headroom_iff not_le [symmetric])

lemma unat_add_headroom [word_nat]:
  "unat a + unat b < 2 ^ LENGTH('a) \<Longrightarrow> unat (a + b :: 'a::len word) = unat a + unat b"
  by (simp add: unat_add_lem)

lemma unat_Suc_headroom [word_nat]: "(a :: 'a::len word) \<noteq> - 1 \<Longrightarrow> unat (a + 1) = Suc (unat a)"
proof -
  assume "a \<noteq> - 1"
  then have "1 + a \<noteq> 0" by (metis add.commute add_eq_0_iff)
  then show ?thesis by (metis add.commute unatSuc)
qed

lemma unat_add_mult:
  "unat b + k * unat p < 2 ^ 64 \<Longrightarrow> 0 < unat p \<Longrightarrow> unat (b + of_nat k * p :: 64 word) = unat b + k * unat p"
proof -
  assume bound: "unat b + k * unat p < 2 ^ 64" and p: "0 < unat p"
  have "k \<le> k * unat p" using p by simp
  then have "k < 2 ^ 64" using bound by linarith
  then have k: "unat (of_nat k :: 64 word) = k" by (intro unat_of_nat_small) simp
  have "unat (of_nat k * p) = k * unat p" using bound k by (subst unat_mult_lem [THEN iffD1]) simp_all
  then show ?thesis using bound by (subst unat_add_headroom) simp_all
qed

lemma unat_mult_small [word_nat]:
  "unat a * unat b < 2 ^ LENGTH('a) \<Longrightarrow> unat (a * b :: 'a::len word) = unat a * unat b"
  by (simp add: unat_mult_lem)

text \<open>Rounding down to a power of two, \<open>x & ~(2^n - 1)\<close>, and the test \<open>n & (n - 1)\<close>.\<close>

lemma unat_and_not_mask [word_nat]:
  "unat ((x :: 'a::len word) AND NOT (mask n)) = unat x - unat x mod 2 ^ n"
proof -
  have "x - take_bit n x = x AND NOT (take_bit n x)" by (rule disjunctive_diff) (simp add: bit_take_bit_iff)
  also have "\<dots> = x AND NOT (mask n)" by (auto simp: bit_eq_iff bit_simps)
  finally have e: "x AND NOT (mask n) = x - take_bit n x" ..
  have "take_bit n x \<le> x" by (simp add: word_le_nat_alt unsigned_take_bit_eq take_bit_nat_less_eq_self)
  then have "unat (x - take_bit n x) = unat x - take_bit n (unat x)" by (simp only: unat_sub unsigned_take_bit_eq)
  then show ?thesis unfolding e by (simp only: take_bit_eq_mod)
qed
lemma power_of_two_word:
  assumes "(n :: 'a::len word) AND (n - 1) = 0" and "n \<noteq> 0"
  shows "\<exists>k < LENGTH('a). n = 2 ^ k"
proof -
  define k where "k = (LEAST k. bit n k)"
  obtain j where "bit n j" using assms(2) by (auto simp: bit_eq_iff)
  then have k: "bit n k" unfolding k_def by (rule LeastI)
  have below: "\<not> bit n j" if "j < k" for j using that unfolding k_def by (rule not_less_Least)
  have kl: "k < LENGTH('a)" using k by (rule bit_imp_le_length)
  define m where "m = n - 2 ^ k"
  have m: "m = n AND NOT (2 ^ k)" unfolding m_def using k by (intro disjunctive_diff) (auto simp: bit_exp_iff)
  have "\<not> bit m j \<or> \<not> bit (mask k :: 'a word) j" for j
    using below [of j] by (cases "j < k") (simp_all add: m bit_and_iff bit_mask_iff)
  then have "m + mask k = m OR mask k" by (rule disjunctive_add)
  moreover have "n - 1 = m + mask k" by (simp add: m_def mask_eq_exp_minus_1)
  ultimately have "n AND (m OR mask k) = 0" using assms(1) by simp
  then have "n AND m = 0" by (simp add: bit.conj_disj_distrib or_eq_0_iff)
  moreover have "n AND m = m" by (simp add: m flip: and.assoc)
  ultimately show ?thesis using kl by (auto simp: m_def)
qed

section \<open>Bitmaps\<close>

lemma or_bit_set: "(w :: 'a::len word) OR push_bit n 1 = set_bit n w"
  by (simp add: set_bit_eq_or)

lemma and_not_bit_unset: "(w :: 'a::len word) AND NOT (push_bit n 1) = unset_bit n w"
  by (simp add: unset_bit_eq_and_not)

lemma bit_test: "((drop_bit n w) AND 1 \<noteq> (0 :: 'a::len word)) = bit w n"
  by (simp add: and_one_eq bit_iff_odd_drop_bit mod_2_eq_odd)

lemma and_bit_nonzero: "((w :: 'a::len word) AND push_bit n 1 \<noteq> 0) = bit w n"
  by (simp add: push_bit_eq_mult and_exp_eq_0_iff_not_bit)

text \<open>
  A bit array: reading, setting and clearing one position. The bitmap of the frame
  allocator, the signal mask and the slot bitmap of a slab page all provide it.
\<close>

locale bit_array =
  fixes test :: "'b \<Rightarrow> nat \<Rightarrow> bool"
    and put :: "'b \<Rightarrow> nat \<Rightarrow> bool \<Rightarrow> 'b"
    and size_of :: "'b \<Rightarrow> nat"
  assumes test_put: "i < size_of b \<Longrightarrow> j < size_of b \<Longrightarrow> test (put b i v) j = (if j = i then v else test b j)"
    and size_put: "size_of (put b i v) = size_of b"
begin

definition elements :: "'b \<Rightarrow> nat set" where
  "elements b = {i. i < size_of b \<and> test b i}"

lemma finite_elements: "finite (elements b)"
  by (rule finite_subset [of _ "{..<size_of b}"]) (auto simp: elements_def)

lemma elements_set: "i < size_of b \<Longrightarrow> elements (put b i True) = insert i (elements b)"
  by (auto simp: elements_def test_put size_put)

lemma elements_clear: "i < size_of b \<Longrightarrow> elements (put b i False) = elements b - {i}"
  by (auto simp: elements_def test_put size_put split: if_splits)

lemma put_put: "i < size_of b \<Longrightarrow> elements (put (put b i u) i v) = elements (put b i v)"
  by (auto simp: elements_def test_put size_put)

lemma put_commute_elements:
  "i < size_of b \<Longrightarrow> j < size_of b \<Longrightarrow> i \<noteq> j \<Longrightarrow>
   elements (put (put b i u) j v) = elements (put (put b j v) i u)"
  by (auto simp: elements_def test_put size_put)

lemma card_elements_set:
  "i < size_of b \<Longrightarrow> \<not> test b i \<Longrightarrow> card (elements (put b i True)) = Suc (card (elements b))"
  by (simp add: elements_set finite_elements) (simp add: elements_def)

end

section \<open>Generation-checked handles\<close>

text \<open>
  Frames, pooled objects, entry stacks, PTY endpoints and wait tickets are all named by a
  handle that carries the generation it was issued under. The contract: an operation never
  lowers the issue counter that governs a handle, a handle that becomes live carries a
  generation above that counter, and a live handle's generation has been issued. The
  conclusion every user of a handle relies on: once dead, a handle never becomes live again.
\<close>

locale generational =
  fixes inv :: "'s \<Rightarrow> bool"
    and step :: "'s \<Rightarrow> 's \<Rightarrow> bool"
    and live :: "'s \<Rightarrow> 'h \<Rightarrow> bool"
    and issued :: "'s \<Rightarrow> 'h \<Rightarrow> nat"
    and gen :: "'h \<Rightarrow> nat"
  assumes inv_step: "inv s \<Longrightarrow> step s t \<Longrightarrow> inv t"
    and issued_mono: "inv s \<Longrightarrow> step s t \<Longrightarrow> issued s h \<le> issued t h"
    and born_fresh: "inv s \<Longrightarrow> step s t \<Longrightarrow> live t h \<Longrightarrow> \<not> live s h \<Longrightarrow> issued s h < gen h"
    and live_issued: "inv s \<Longrightarrow> live s h \<Longrightarrow> gen h \<le> issued s h"
begin

lemma inv_steps: "step\<^sup>*\<^sup>* s t \<Longrightarrow> inv s \<Longrightarrow> inv t"
  by (induction rule: rtranclp_induct) (auto intro: inv_step)

lemma issued_steps: "step\<^sup>*\<^sup>* s t \<Longrightarrow> inv s \<Longrightarrow> issued s h \<le> issued t h"
proof (induction rule: rtranclp_induct)
  case (step t u)
  then show ?case using issued_mono [OF inv_steps] by (meson le_trans)
qed simp

lemma stale_forever:
  assumes "step\<^sup>*\<^sup>* s t" and "inv s" and "gen h \<le> issued s h" and "\<not> live s h"
  shows "\<not> live t h"
  using assms
proof (induction rule: rtranclp_induct)
  case (step t u)
  have "gen h \<le> issued t h" using issued_steps [OF step.hyps(1) step.prems(1), of h] step.prems(2) by simp
  then show ?case
    using step born_fresh [OF inv_steps [OF step.hyps(1) step.prems(1)] step.hyps(2), of h] by auto
qed

lemma released_stays_dead:
  assumes "inv s" and "live s h" and "step\<^sup>*\<^sup>* s t" and "\<not> live t h" and "step\<^sup>*\<^sup>* t u"
  shows "\<not> live u h"
proof -
  have "gen h \<le> issued t h"
    using live_issued [OF assms(1,2)] issued_steps [OF assms(3,1), of h] by simp
  with stale_forever [OF assms(5) inv_steps [OF assms(3,1)]] assms(4) show ?thesis by simp
qed

end

section \<open>Copying into and within an array\<close>

text \<open>The loop \<open>for (i = 0; i < n; ++i) d[at + i] = v[i]\<close>.\<close>

primrec write_at :: "'a list \<Rightarrow> nat \<Rightarrow> 'a list \<Rightarrow> 'a list" where
  "write_at d i [] = d"
| "write_at d i (v # vs) = write_at (d[i := v]) (Suc i) vs"

lemma length_write_at [simp]: "length (write_at d i vs) = length d"
  by (induction vs arbitrary: d i) auto

lemma write_at_eq:
  "i + length vs \<le> length d \<Longrightarrow> write_at d i vs = take i d @ vs @ drop (i + length vs) d"
proof (induction vs arbitrary: d i)
  case (Cons v vs)
  then show ?case by (simp add: take_Suc_conv_app_nth [of i "d[i := v]"] upd_conv_take_nth_drop add.commute)
qed simp

text \<open>The loop \<open>for (i = from; i + 1 < n; ++i) d[i] = d[i + 1]\<close>.\<close>

function shift_down :: "'a list \<Rightarrow> nat \<Rightarrow> nat \<Rightarrow> 'a list" where
  "shift_down d i n = (if Suc i < n then shift_down (d[i := d ! Suc i]) (Suc i) n else d)"
  by pat_completeness auto
termination
  by (relation "measure (\<lambda>(d, i, n). n - i)") auto

declare shift_down.simps [simp del]

lemma length_shift_down [simp]: "length (shift_down d i n) = length d"
  by (induction d i n rule: shift_down.induct) (subst shift_down.simps, simp)

lemma nth_shift_down:
  "n \<le> length d \<Longrightarrow> shift_down d i n ! k = (if i \<le> k \<and> Suc k < n then d ! Suc k else d ! k)"
proof (induction d i n rule: shift_down.induct)
  case (1 d i n)
  show ?case
  proof (cases "Suc i < n")
    case True
    with 1 have "shift_down d i n ! k =
      (if Suc i \<le> k \<and> Suc k < n then d[i := d ! Suc i] ! Suc k else d[i := d ! Suc i] ! k)"
      by (subst shift_down.simps) simp
    with True 1 show ?thesis by (cases "k = i") auto
  next
    case False
    then show ?thesis by (subst shift_down.simps) auto
  qed
qed

lemma take_shift_down:
  assumes "i < n" and "n \<le> length d"
  shows "take (n - 1) (shift_down d i n) = take i d @ drop (Suc i) (take n d)"
proof (rule nth_equalityI)
  show "length (take (n - 1) (shift_down d i n)) = length (take i d @ drop (Suc i) (take n d))"
    using assms by simp
next
  fix k
  assume "k < length (take (n - 1) (shift_down d i n))"
  then show "take (n - 1) (shift_down d i n) ! k = (take i d @ drop (Suc i) (take n d)) ! k"
    using assms by (auto simp: nth_shift_down nth_append)
qed

end
