(* ===== verification/OK_Fixed.thy ===== *)
theory OK_Fixed
  imports OK_Prelude
begin

text \<open>
  The fixed-capacity containers of \<^verbatim>\<open>include/ok/core/fixed.hpp\<close>: \<open>FixedString\<close>,
  \<open>StaticVector\<close>, \<open>StaticQueue\<close> and \<open>copy_span\<close>. Each container is its backing array and its
  cursors; its contents are an abstraction function, and every operation is shown to act on
  the contents as the corresponding list operation. The ring buffer is an instance of the
  interface \<open>bounded_fifo\<close>, in which a run of pushes and pops is compared with a bounded list.
\<close>

section \<open>FixedString\<close>

text \<open>The backing array has \<open>Capacity\<close> characters; one of them is the terminator.\<close>

record fixed_string =
  fs_data :: "char list"
  fs_size :: nat

definition nul :: char where
  "nul = CHR 0x00"

definition fs_init :: "nat \<Rightarrow> fixed_string" where
  "fs_init capacity = \<lparr>fs_data = replicate capacity nul, fs_size = 0\<rparr>"

definition fs_assign :: "fixed_string \<Rightarrow> string \<Rightarrow> status_code \<times> fixed_string" where
  "fs_assign s v =
     (if length v \<ge> length (fs_data s) then (S_overflow, s)
      else (S_ok, s\<lparr>fs_data := (write_at (fs_data s) 0 v)[length v := nul], fs_size := length v\<rparr>))"

definition fs_clear :: "fixed_string \<Rightarrow> fixed_string" where
  "fs_clear s = s\<lparr>fs_size := 0, fs_data := (fs_data s)[0 := nul]\<rparr>"

definition fs_append_char :: "fixed_string \<Rightarrow> char \<Rightarrow> status_code \<times> fixed_string" where
  "fs_append_char s c =
     (if fs_size s + 1 \<ge> length (fs_data s) then (S_overflow, s)
      else (S_ok, s\<lparr>fs_data := (fs_data s)[fs_size s := c, Suc (fs_size s) := nul],
                    fs_size := Suc (fs_size s)\<rparr>))"

definition fs_append :: "fixed_string \<Rightarrow> string \<Rightarrow> status_code \<times> fixed_string" where
  "fs_append s v =
     (if fs_size s + length v \<ge> length (fs_data s) then (S_overflow, s)
      else (S_ok, s\<lparr>fs_data := (write_at (fs_data s) (fs_size s) v)[fs_size s + length v := nul],
                    fs_size := fs_size s + length v\<rparr>))"

definition fs_pop_back :: "fixed_string \<Rightarrow> fixed_string" where
  "fs_pop_back s =
     (if fs_size s = 0 then s
      else s\<lparr>fs_size := fs_size s - 1, fs_data := (fs_data s)[fs_size s - 1 := nul]\<rparr>)"

definition fs_view :: "fixed_string \<Rightarrow> string" where
  "fs_view s = take (fs_size s) (fs_data s)"

text \<open>What a C reader of \<open>c_str()\<close> sees: the characters before the first terminator.\<close>

definition c_string :: "char list \<Rightarrow> string" where
  "c_string cs = takeWhile (\<lambda>c. c \<noteq> nul) cs"

definition fs_wf :: "fixed_string \<Rightarrow> bool" where
  "fs_wf s \<longleftrightarrow> fs_size s < length (fs_data s) \<and> fs_data s ! fs_size s = nul"

lemma fs_wf_init: "0 < capacity \<Longrightarrow> fs_wf (fs_init capacity)"
  by (simp add: fs_wf_def fs_init_def)

lemma fs_wf_assign: "fs_wf s \<Longrightarrow> fs_wf (snd (fs_assign s v))"
  by (auto simp: fs_wf_def fs_assign_def)

lemma fs_wf_append_char: "fs_wf s \<Longrightarrow> fs_wf (snd (fs_append_char s c))"
  by (auto simp: fs_wf_def fs_append_char_def)

lemma fs_wf_append: "fs_wf s \<Longrightarrow> fs_wf (snd (fs_append s v))"
  by (auto simp: fs_wf_def fs_append_def)

lemma fs_wf_pop_back: "fs_wf s \<Longrightarrow> fs_wf (fs_pop_back s)"
  by (auto simp: fs_wf_def fs_pop_back_def)

lemma fs_wf_clear: "fs_wf s \<Longrightarrow> fs_wf (fs_clear s)"
  by (cases "fs_data s") (auto simp: fs_wf_def fs_clear_def)

lemmas fs_wf_ops = fs_wf_init fs_wf_assign fs_wf_append_char fs_wf_append fs_wf_pop_back fs_wf_clear

lemma fs_view_assign:
  "length v < length (fs_data s) \<Longrightarrow> fs_view (snd (fs_assign s v)) = v"
  by (simp add: fs_view_def fs_assign_def write_at_eq)

lemma fs_view_append:
  "fs_wf s \<Longrightarrow> fs_size s + length v < length (fs_data s) \<Longrightarrow>
   fs_view (snd (fs_append s v)) = fs_view s @ v"
  by (simp add: fs_view_def fs_append_def write_at_eq fs_wf_def)

lemma fs_view_append_char:
  "fs_wf s \<Longrightarrow> fs_size s + 1 < length (fs_data s) \<Longrightarrow>
   fs_view (snd (fs_append_char s c)) = fs_view s @ [c]"
  by (simp add: fs_view_def fs_append_char_def fs_wf_def take_Suc_conv_app_nth)

lemma fs_view_pop_back: "fs_wf s \<Longrightarrow> fs_view (fs_pop_back s) = butlast (fs_view s)"
  by (auto simp: fs_view_def fs_pop_back_def fs_wf_def butlast_take)

lemma fs_view_clear [simp]: "fs_view (fs_clear s) = []"
  by (simp add: fs_view_def fs_clear_def)

lemma c_string_view:
  assumes "fs_wf s" and "nul \<notin> set (fs_view s)"
  shows "c_string (fs_data s) = fs_view s"
proof -
  have split: "fs_data s = fs_view s @ nul # drop (Suc (fs_size s)) (fs_data s)"
    using assms(1) id_take_nth_drop [of "fs_size s" "fs_data s"] by (simp add: fs_view_def fs_wf_def)
  have "takeWhile (\<lambda>c. c \<noteq> nul) (fs_view s @ nul # drop (Suc (fs_size s)) (fs_data s)) = fs_view s"
    using assms(2) by (subst takeWhile_append2) auto
  with split show ?thesis by (simp add: c_string_def)
qed

section \<open>StaticVector\<close>

record 'a static_vector =
  sv_values :: "'a list"
  sv_size :: nat

definition sv_init :: "nat \<Rightarrow> 'a \<Rightarrow> 'a static_vector" where
  "sv_init capacity dflt = \<lparr>sv_values = replicate capacity dflt, sv_size = 0\<rparr>"

definition sv_capacity :: "'a static_vector \<Rightarrow> nat" where
  "sv_capacity v = length (sv_values v)"

definition sv_full :: "'a static_vector \<Rightarrow> bool" where
  "sv_full v \<longleftrightarrow> sv_size v = sv_capacity v"

definition sv_clear :: "'a static_vector \<Rightarrow> 'a static_vector" where
  "sv_clear v = v\<lparr>sv_size := 0\<rparr>"

definition sv_pop_back :: "'a \<Rightarrow> 'a static_vector \<Rightarrow> status_code \<times> 'a static_vector" where
  "sv_pop_back dflt v =
     (if sv_size v = 0 then (S_invalid_argument, v)
      else (S_ok, v\<lparr>sv_size := sv_size v - 1, sv_values := (sv_values v)[sv_size v - 1 := dflt]\<rparr>))"

text \<open>The reserved slot is returned as its index.\<close>

definition sv_push_back_slot :: "'a static_vector \<Rightarrow> nat result \<times> 'a static_vector" where
  "sv_push_back_slot v =
     (if sv_full v then (Inl S_overflow, v) else (Inr (sv_size v), v\<lparr>sv_size := Suc (sv_size v)\<rparr>))"

definition sv_push_back :: "'a static_vector \<Rightarrow> 'a \<Rightarrow> status_code \<times> 'a static_vector" where
  "sv_push_back v x =
     (if sv_full v then (S_overflow, v)
      else (S_ok, v\<lparr>sv_values := (sv_values v)[sv_size v := x], sv_size := Suc (sv_size v)\<rparr>))"

definition sv_erase_at :: "'a static_vector \<Rightarrow> nat \<Rightarrow> status_code \<times> 'a static_vector" where
  "sv_erase_at v index =
     (if index \<ge> sv_size v then (S_invalid_argument, v)
      else (S_ok, v\<lparr>sv_values := shift_down (sv_values v) index (sv_size v), sv_size := sv_size v - 1\<rparr>))"

text \<open>The range \<open>[begin(), end())\<close>.\<close>

definition sv_list :: "'a static_vector \<Rightarrow> 'a list" where
  "sv_list v = take (sv_size v) (sv_values v)"

definition sv_wf :: "'a static_vector \<Rightarrow> bool" where
  "sv_wf v \<longleftrightarrow> sv_size v \<le> length (sv_values v)"

lemma sv_wf_init [simp]: "sv_wf (sv_init n d)" and sv_list_init [simp]: "sv_list (sv_init n d) = []"
  and sv_capacity_init [simp]: "sv_capacity (sv_init n d) = n"
  by (simp_all add: sv_wf_def sv_init_def sv_list_def sv_capacity_def)

lemma length_sv_list: "sv_wf v \<Longrightarrow> length (sv_list v) = sv_size v"
  by (simp add: sv_wf_def sv_list_def)

lemma sv_push_back_ok:
  assumes "sv_wf v" and "sv_size v < sv_capacity v"
  shows "fst (sv_push_back v x) = S_ok" and "sv_list (snd (sv_push_back v x)) = sv_list v @ [x]"
    and "sv_wf (snd (sv_push_back v x))" and "sv_capacity (snd (sv_push_back v x)) = sv_capacity v"
  using assms
  by (simp_all add: sv_push_back_def sv_full_def sv_capacity_def sv_list_def sv_wf_def take_Suc_conv_app_nth)

lemma sv_push_back_full: "sv_size v = sv_capacity v \<Longrightarrow> sv_push_back v x = (S_overflow, v)"
  by (simp add: sv_push_back_def sv_full_def)

lemma sv_pop_back_ok:
  assumes "sv_wf v" and "sv_size v \<noteq> 0"
  shows "fst (sv_pop_back d v) = S_ok" and "sv_list (snd (sv_pop_back d v)) = butlast (sv_list v)"
    and "sv_wf (snd (sv_pop_back d v))"
  using assms by (simp_all add: sv_pop_back_def sv_list_def sv_wf_def butlast_take)

lemma sv_erase_at_ok:
  assumes "sv_wf v" and "index < sv_size v"
  shows "fst (sv_erase_at v index) = S_ok"
    and "sv_list (snd (sv_erase_at v index)) = take index (sv_list v) @ drop (Suc index) (sv_list v)"
    and "sv_wf (snd (sv_erase_at v index))"
  using assms take_shift_down [OF assms(2), of "sv_values v"]
  by (simp_all add: sv_erase_at_def sv_list_def sv_wf_def)

section \<open>StaticQueue\<close>

record 'a static_queue =
  sq_values :: "'a list"
  sq_head :: nat
  sq_tail :: nat
  sq_size :: nat

definition sq_init :: "nat \<Rightarrow> 'a \<Rightarrow> 'a static_queue" where
  "sq_init capacity dflt = \<lparr>sq_values = replicate capacity dflt, sq_head = 0, sq_tail = 0, sq_size = 0\<rparr>"

definition sq_capacity :: "'a static_queue \<Rightarrow> nat" where
  "sq_capacity q = length (sq_values q)"

definition sq_push :: "'a static_queue \<Rightarrow> 'a \<Rightarrow> status_code \<times> 'a static_queue" where
  "sq_push q x =
     (if sq_size q = sq_capacity q then (S_would_block, q)
      else (S_ok, q\<lparr>sq_values := (sq_values q)[sq_tail q := x],
                    sq_tail := (sq_tail q + 1) mod sq_capacity q, sq_size := Suc (sq_size q)\<rparr>))"

definition sq_pop :: "'a static_queue \<Rightarrow> 'a result \<times> 'a static_queue" where
  "sq_pop q =
     (if sq_size q = 0 then (Inl S_would_block, q)
      else (Inr (sq_values q ! sq_head q),
            q\<lparr>sq_head := (sq_head q + 1) mod sq_capacity q, sq_size := sq_size q - 1\<rparr>))"

definition sq_list :: "'a static_queue \<Rightarrow> 'a list" where
  "sq_list q = map (\<lambda>k. sq_values q ! ((sq_head q + k) mod sq_capacity q)) [0..<sq_size q]"

definition sq_wf :: "'a static_queue \<Rightarrow> bool" where
  "sq_wf q \<longleftrightarrow> 0 < sq_capacity q \<and> sq_head q < sq_capacity q \<and> sq_size q \<le> sq_capacity q
     \<and> sq_tail q = (sq_head q + sq_size q) mod sq_capacity q"

lemma length_sq_list [simp]: "length (sq_list q) = sq_size q"
  by (simp add: sq_list_def)

lemma sq_wf_init [simp]: "0 < n \<Longrightarrow> sq_wf (sq_init n d)"
  and sq_list_init [simp]: "sq_list (sq_init n d) = []"
  and sq_capacity_init [simp]: "sq_capacity (sq_init n d) = n"
  by (simp_all add: sq_wf_def sq_init_def sq_list_def sq_capacity_def)

lemma ring_slot_distinct:
  assumes "k < n" and "n < (c::nat)"
  shows "(h + k) mod c \<noteq> (h + n) mod c"
proof
  assume "(h + k) mod c = (h + n) mod c"
  then have "c dvd (h + n) - (h + k)"
    using assms by (intro mod_eq_dvd_iff_nat [THEN iffD1]) auto
  then have "c dvd n - k" by simp
  with assms show False by (auto dest: dvd_imp_le)
qed

lemma sq_push_room:
  assumes wf: "sq_wf q" and room: "sq_size q < sq_capacity q"
  shows "fst (sq_push q x) = S_ok" and "sq_list (snd (sq_push q x)) = sq_list q @ [x]"
    and "sq_wf (snd (sq_push q x))" and "sq_capacity (snd (sq_push q x)) = sq_capacity q"
proof -
  let ?c = "sq_capacity q"
  have tail: "sq_tail q = (sq_head q + sq_size q) mod ?c" and c: "0 < ?c" and tl: "sq_tail q < ?c"
    using wf by (auto simp: sq_wf_def)
  have old: "(sq_values q)[sq_tail q := x] ! ((sq_head q + k) mod ?c) = sq_values q ! ((sq_head q + k) mod ?c)"
    if "k < sq_size q" for k
    using ring_slot_distinct [OF that room, of "sq_head q"] tail by simp
  show "fst (sq_push q x) = S_ok" using room by (simp add: sq_push_def)
  show "sq_list (snd (sq_push q x)) = sq_list q @ [x]"
    using room old tail tl by (simp add: sq_push_def sq_list_def sq_capacity_def)
  show "sq_wf (snd (sq_push q x))"
    using wf room by (simp add: sq_push_def sq_wf_def sq_capacity_def mod_simps)
  show "sq_capacity (snd (sq_push q x)) = ?c"
    using room by (simp add: sq_push_def sq_capacity_def)
qed

lemma sq_pop_some:
  assumes wf: "sq_wf q" and ne: "sq_size q \<noteq> 0"
  shows "fst (sq_pop q) = Inr (hd (sq_list q))" and "sq_list (snd (sq_pop q)) = tl (sq_list q)"
    and "sq_wf (snd (sq_pop q))" and "sq_capacity (snd (sq_pop q)) = sq_capacity q"
proof -
  let ?c = "sq_capacity q"
  have head: "sq_head q < ?c" and c: "0 < ?c" using wf by (auto simp: sq_wf_def)
  have upt: "[0..<sq_size q] = 0 # map Suc [0..<sq_size q - 1]"
    using ne by (cases "sq_size q") (simp_all add: upt_conv_Cons map_Suc_upt del: upt_Suc)
  show "fst (sq_pop q) = Inr (hd (sq_list q))"
    using ne head by (simp add: sq_pop_def sq_list_def upt)
  show "sq_list (snd (sq_pop q)) = tl (sq_list q)"
    using ne by (simp add: sq_pop_def sq_list_def upt sq_capacity_def mod_simps add.assoc)
  show "sq_wf (snd (sq_pop q))"
    using wf ne by (cases "sq_size q") (simp_all add: sq_pop_def sq_wf_def sq_capacity_def mod_simps)
  show "sq_capacity (snd (sq_pop q)) = ?c"
    using ne by (simp add: sq_pop_def sq_capacity_def)
qed

section \<open>Bounded FIFO interface\<close>

text \<open>A client's run of pushes and pops against any queue, and what it observes.\<close>

datatype 'a fifo_op = Push 'a | Pop
datatype 'a fifo_event = Pushed status_code | Popped "'a result"

primrec fifo_run ::
  "('q \<Rightarrow> 'a \<Rightarrow> status_code \<times> 'q) \<Rightarrow> ('q \<Rightarrow> 'a result \<times> 'q) \<Rightarrow> 'q \<Rightarrow> 'a fifo_op list
   \<Rightarrow> 'a fifo_event list \<times> 'q" where
  "fifo_run push pop q [] = ([], q)"
| "fifo_run push pop q (x # xs) =
     (case x of
        Push a \<Rightarrow> (let (s, q') = push q a; (es, q'') = fifo_run push pop q' xs in (Pushed s # es, q''))
      | Pop \<Rightarrow> (let (r, q') = pop q; (es, q'') = fifo_run push pop q' xs in (Popped r # es, q'')))"

text \<open>The specification: a list of at most \<open>n\<close> elements.\<close>

definition list_push :: "nat \<Rightarrow> 'a list \<Rightarrow> 'a \<Rightarrow> status_code \<times> 'a list" where
  "list_push n xs x = (if length xs < n then (S_ok, xs @ [x]) else (S_would_block, xs))"

definition list_pop :: "'a list \<Rightarrow> 'a result \<times> 'a list" where
  "list_pop xs = (case xs of [] \<Rightarrow> (Inl S_would_block, []) | y # ys \<Rightarrow> (Inr y, ys))"

locale bounded_fifo =
  fixes wf :: "'q \<Rightarrow> bool"
    and cap :: "'q \<Rightarrow> nat"
    and contents :: "'q \<Rightarrow> 'a list"
    and push :: "'q \<Rightarrow> 'a \<Rightarrow> status_code \<times> 'q"
    and pop :: "'q \<Rightarrow> 'a result \<times> 'q"
  assumes push_abs: "wf q \<Longrightarrow> (fst (push q x), contents (snd (push q x))) = list_push (cap q) (contents q) x"
    and pop_abs: "wf q \<Longrightarrow> (fst (pop q), contents (snd (pop q))) = list_pop (contents q)"
    and wf_push: "wf q \<Longrightarrow> wf (snd (push q x))"
    and wf_pop: "wf q \<Longrightarrow> wf (snd (pop q))"
    and cap_push: "wf q \<Longrightarrow> cap (snd (push q x)) = cap q"
    and cap_pop: "wf q \<Longrightarrow> cap (snd (pop q)) = cap q"
begin

lemma run_refines:
  assumes "wf q"
  shows "fst (fifo_run push pop q ops) = fst (fifo_run (list_push (cap q)) list_pop (contents q) ops)
    \<and> contents (snd (fifo_run push pop q ops)) = snd (fifo_run (list_push (cap q)) list_pop (contents q) ops)
    \<and> wf (snd (fifo_run push pop q ops))"
  using assms
proof (induction ops arbitrary: q)
  case (Cons x xs)
  show ?case
  proof (cases x)
    case (Push a)
    obtain s q' where p: "push q a = (s, q')" by (cases "push q a")
    have a: "list_push (cap q) (contents q) a = (s, contents q')" and w: "wf q'" and c: "cap q' = cap q"
      using push_abs [OF Cons.prems, of a] wf_push [OF Cons.prems, of a] cap_push [OF Cons.prems, of a] p
      by simp_all
    show ?thesis using Cons.IH [OF w] by (simp add: Push p a c split_beta)
  next
    case Pop
    obtain r q' where p: "pop q = (r, q')" by (cases "pop q")
    have a: "list_pop (contents q) = (r, contents q')" and w: "wf q'" and c: "cap q' = cap q"
      using pop_abs [OF Cons.prems] wf_pop [OF Cons.prems] cap_pop [OF Cons.prems] p by simp_all
    show ?thesis using Cons.IH [OF w] by (simp add: Pop p a c split_beta)
  qed
qed simp

end

interpretation sq: bounded_fifo sq_wf sq_capacity sq_list sq_push sq_pop
proof unfold_locales
  fix q :: "'a static_queue" and x
  assume wf: "sq_wf q"
  have le: "sq_size q \<le> sq_capacity q" using wf by (simp add: sq_wf_def)
  have room: "sq_size q < sq_capacity q \<or> sq_push q x = (S_would_block, q)"
    using le by (auto simp: sq_push_def)
  show "(fst (sq_push q x), sq_list (snd (sq_push q x))) = list_push (sq_capacity q) (sq_list q) x"
    using sq_push_room [OF wf, of x] le by (cases "sq_size q < sq_capacity q") (auto simp: list_push_def sq_push_def)
  show "sq_wf (snd (sq_push q x))" and "sq_capacity (snd (sq_push q x)) = sq_capacity q"
    using sq_push_room [OF wf, of x] room wf by auto
  have some: "sq_size q \<noteq> 0 \<or> sq_pop q = (Inl S_would_block, q)" by (simp add: sq_pop_def)
  show "sq_wf (snd (sq_pop q))" and "sq_capacity (snd (sq_pop q)) = sq_capacity q"
    using sq_pop_some [OF wf] some wf by auto
  show "(fst (sq_pop q), sq_list (snd (sq_pop q))) = list_pop (sq_list q)"
  proof (cases "sq_size q = 0")
    case True
    then show ?thesis by (simp add: sq_pop_def list_pop_def sq_list_def)
  next
    case False
    then have "sq_list q \<noteq> []" by (metis length_sq_list list.size(3))
    with sq_pop_some [OF wf False] show ?thesis by (cases "sq_list q") (simp_all add: list_pop_def)
  qed
qed

section \<open>copy\_span\<close>

definition copy_span :: "'a list \<Rightarrow> 'a list \<Rightarrow> 'a list" where
  "copy_span destination source =
     (let count = (if length destination < length source then length destination else length source)
      in write_at destination 0 (take count source))"

lemma copy_span_eq: "copy_span d s = take (length d) s @ drop (length s) d"
  by (auto simp: copy_span_def write_at_eq Let_def min_def)

section \<open>Properties\<close>

text \<open>
  C7: A ring-buffer queue behaves as a bounded list under every sequence of pushes and
  pops: the statuses and values returned are those of a list of at most \<open>Capacity\<close>
  elements, and its contents afterwards are that list.
\<close>

theorem static_queue_refines_bounded_list:
  assumes "sq_wf q"
  shows "fst (fifo_run sq_push sq_pop q ops) = fst (fifo_run (list_push (sq_capacity q)) list_pop (sq_list q) ops)
    \<and> sq_list (snd (fifo_run sq_push sq_pop q ops))
        = snd (fifo_run (list_push (sq_capacity q)) list_pop (sq_list q) ops)"
  using sq.run_refines [OF assms, of ops] by simp

theorem static_queue_refines_witness:
  "sq_wf (sq_init 2 (0::nat)) \<and>
   fst (fifo_run sq_push sq_pop (sq_init 2 (0::nat)) [Push 5, Push 6, Push 7, Pop, Push 8, Pop, Pop, Pop])
     = [Pushed S_ok, Pushed S_ok, Pushed S_would_block, Popped (Inr 5), Pushed S_ok,
        Popped (Inr 6), Popped (Inr 8), Popped (Inl S_would_block)]"
  using static_queue_refines_bounded_list
    [of "sq_init 2 (0::nat)" "[Push 5, Push 6, Push 7, Pop, Push 8, Pop, Pop, Pop]"]
  by (simp add: list_push_def list_pop_def)

end
