(* ===== verification/OK_Ipc.thy ===== *)
theory OK_Ipc
  imports OK_Fixed
begin

text \<open>
  Inter-process channels: \<^verbatim>\<open>include/ok/ipc/ipc.hpp\<close> and \<^verbatim>\<open>src/ipc/ipc.cpp\<close>. A router owns
  up to 64 channels, each a ring of 32 messages with a smaller configured capacity. The
  specification is a list of bounded message lists in which channel \<open>k\<close> is the \<open>k\<close>-th one
  created; every run of the router is shown to answer exactly as the specification does.
\<close>

section \<open>Data and operations\<close>

definition max_inline_payload :: nat where
  "max_inline_payload = 128"

definition max_channels :: nat where
  "max_channels = 64"

definition max_channel_messages :: nat where
  "max_channel_messages = 32"

datatype delivery_mode = Copy | Shared_ring

record ipc_message =
  msg_sender :: u64
  msg_receiver :: u64
  msg_payload :: "u8 list"
  msg_size :: nat

definition empty_message :: ipc_message where
  "empty_message = \<lparr>msg_sender = 0, msg_receiver = 0,
     msg_payload = replicate max_inline_payload 0, msg_size = 0\<rparr>"

record channel =
  ch_id :: u64
  ch_capacity :: nat
  ch_queue :: "ipc_message static_queue"

definition new_channel :: "u64 \<Rightarrow> nat \<Rightarrow> channel" where
  "new_channel i capacity = \<lparr>ch_id = i, ch_capacity = capacity,
     ch_queue = sq_init max_channel_messages empty_message\<rparr>"

definition channel_send :: "channel \<Rightarrow> ipc_message \<Rightarrow> status_code \<times> channel" where
  "channel_send ch m =
     (if msg_size m > max_inline_payload then (S_overflow, ch)
      else if sq_size (ch_queue ch) \<ge> ch_capacity ch then (S_would_block, ch)
      else (let (s, q) = sq_push (ch_queue ch) m in (s, ch\<lparr>ch_queue := q\<rparr>)))"

definition channel_receive :: "channel \<Rightarrow> ipc_message result \<times> channel" where
  "channel_receive ch = (let (r, q) = sq_pop (ch_queue ch) in (r, ch\<lparr>ch_queue := q\<rparr>))"

record ipc_router =
  rt_mode :: delivery_mode
  rt_channels :: "channel static_vector"
  rt_next_channel :: u64

definition router_init :: ipc_router where
  "router_init = \<lparr>rt_mode = Copy, rt_channels = sv_init max_channels (new_channel 0 0), rt_next_channel = 1\<rparr>"

definition router_set_mode :: "ipc_router \<Rightarrow> delivery_mode \<Rightarrow> ipc_router" where
  "router_set_mode r m = r\<lparr>rt_mode := m\<rparr>"

definition create_channel :: "ipc_router \<Rightarrow> nat \<Rightarrow> u64 result \<times> ipc_router" where
  "create_channel r capacity =
     (if capacity = 0 then (Inl S_invalid_argument, r)
      else if capacity > max_channel_messages then (Inl S_overflow, r)
      else (let i = rt_next_channel r;
                (s, cs) = sv_push_back (rt_channels r) (new_channel i capacity);
                r' = r\<lparr>rt_next_channel := i + 1, rt_channels := cs\<rparr>
            in if s \<noteq> S_ok then (Inl s, r') else (Inr i, r')))"

text \<open>The loop of \<open>send\<close> and \<open>receive\<close> stops at the first channel with the identifier.\<close>

definition find_channel :: "ipc_router \<Rightarrow> u64 \<Rightarrow> nat option" where
  "find_channel r c = first_index (\<lambda>ch. ch_id ch = c) (sv_list (rt_channels r))"

definition put_channel :: "ipc_router \<Rightarrow> nat \<Rightarrow> channel \<Rightarrow> ipc_router" where
  "put_channel r k ch = r\<lparr>rt_channels := (rt_channels r)\<lparr>sv_values := (sv_values (rt_channels r))[k := ch]\<rparr>\<rparr>"

definition router_send :: "ipc_router \<Rightarrow> u64 \<Rightarrow> ipc_message \<Rightarrow> status_code \<times> ipc_router" where
  "router_send r c m =
     (case find_channel r c of
        None \<Rightarrow> (S_not_found, r)
      | Some k \<Rightarrow> (let (s, ch) = channel_send (sv_values (rt_channels r) ! k) m in (s, put_channel r k ch)))"

definition router_receive :: "ipc_router \<Rightarrow> u64 \<Rightarrow> ipc_message result \<times> ipc_router" where
  "router_receive r c =
     (case find_channel r c of
        None \<Rightarrow> (Inl S_not_found, r)
      | Some k \<Rightarrow> (let (x, ch) = channel_receive (sv_values (rt_channels r) ! k) in (x, put_channel r k ch)))"

text \<open>\<open>send_value\<close> for a payload type whose object representation is \<open>bytes\<close>.\<close>

definition value_message :: "u64 \<Rightarrow> u64 \<Rightarrow> u8 list \<Rightarrow> ipc_message" where
  "value_message sender receiver bytes =
     empty_message\<lparr>msg_sender := sender, msg_receiver := receiver, msg_size := length bytes,
       msg_payload := write_at (msg_payload empty_message) 0 bytes\<rparr>"

definition router_send_value :: "ipc_router \<Rightarrow> u64 \<Rightarrow> u64 \<Rightarrow> u64 \<Rightarrow> u8 list \<Rightarrow> status_code \<times> ipc_router" where
  "router_send_value r c sender receiver bytes = router_send r c (value_message sender receiver bytes)"

section \<open>Invariant and abstraction\<close>

definition channel_wf :: "channel \<Rightarrow> bool" where
  "channel_wf ch \<longleftrightarrow> sq_wf (ch_queue ch) \<and> sq_capacity (ch_queue ch) = max_channel_messages
     \<and> 0 < ch_capacity ch \<and> ch_capacity ch \<le> max_channel_messages
     \<and> sq_size (ch_queue ch) \<le> ch_capacity ch"

definition router_wf :: "ipc_router \<Rightarrow> bool" where
  "router_wf r \<longleftrightarrow> sv_wf (rt_channels r) \<and> sv_capacity (rt_channels r) = max_channels
     \<and> (\<forall>ch\<in>set (sv_list (rt_channels r)). channel_wf ch)
     \<and> (\<forall>k < sv_size (rt_channels r). ch_id (sv_list (rt_channels r) ! k) = of_nat (Suc k))
     \<and> (sv_size (rt_channels r) < max_channels \<longrightarrow> rt_next_channel r = of_nat (Suc (sv_size (rt_channels r))))"

type_synonym ipc_spec = "(nat \<times> ipc_message list) list"

definition channel_abs :: "channel \<Rightarrow> nat \<times> ipc_message list" where
  "channel_abs ch = (ch_capacity ch, sq_list (ch_queue ch))"

definition router_abs :: "ipc_router \<Rightarrow> ipc_spec" where
  "router_abs r = map channel_abs (sv_list (rt_channels r))"

definition known_channel :: "ipc_spec \<Rightarrow> u64 \<Rightarrow> nat option" where
  "known_channel S c = (if 0 < unat c \<and> unat c \<le> length S then Some (unat c - 1) else None)"

definition spec_create :: "ipc_spec \<Rightarrow> nat \<Rightarrow> u64 result \<times> ipc_spec" where
  "spec_create S k =
     (if k = 0 then (Inl S_invalid_argument, S)
      else if k > max_channel_messages \<or> length S \<ge> max_channels then (Inl S_overflow, S)
      else (Inr (of_nat (Suc (length S))), S @ [(k, [])]))"

definition spec_send :: "ipc_spec \<Rightarrow> u64 \<Rightarrow> ipc_message \<Rightarrow> status_code \<times> ipc_spec" where
  "spec_send S c m =
     (case known_channel S c of
        None \<Rightarrow> (S_not_found, S)
      | Some k \<Rightarrow> (let (n, ms) = S ! k in
          if msg_size m > max_inline_payload then (S_overflow, S)
          else if length ms < n then (S_ok, S[k := (n, ms @ [m])]) else (S_would_block, S)))"

definition spec_receive :: "ipc_spec \<Rightarrow> u64 \<Rightarrow> ipc_message result \<times> ipc_spec" where
  "spec_receive S c =
     (case known_channel S c of
        None \<Rightarrow> (Inl S_not_found, S)
      | Some k \<Rightarrow> (case S ! k of (n, []) \<Rightarrow> (Inl S_would_block, S) | (n, m # ms) \<Rightarrow> (Inr m, S[k := (n, ms)])))"

section \<open>One channel\<close>

lemma channel_wf_new: "0 < k \<Longrightarrow> k \<le> max_channel_messages \<Longrightarrow> channel_wf (new_channel i k)"
  by (simp add: channel_wf_def new_channel_def max_channel_messages_def) (simp add: sq_init_def)

lemma channel_abs_new [simp]: "channel_abs (new_channel i k) = (k, [])"
  by (simp add: channel_abs_def new_channel_def)

lemma channel_send_room:
  assumes "channel_wf ch" and "\<not> msg_size m > max_inline_payload" and "sq_size (ch_queue ch) < ch_capacity ch"
  shows "fst (channel_send ch m) = S_ok"
    and "channel_abs (snd (channel_send ch m)) = (ch_capacity ch, sq_list (ch_queue ch) @ [m])"
    and "channel_wf (snd (channel_send ch m))"
    and "ch_id (snd (channel_send ch m)) = ch_id ch"
proof -
  have wf: "sq_wf (ch_queue ch)" and room: "sq_size (ch_queue ch) < sq_capacity (ch_queue ch)"
    using assms by (auto simp: channel_wf_def)
  note push = sq_push_room [OF wf room, of m]
  have size: "sq_size (snd (sq_push (ch_queue ch) m)) = Suc (sq_size (ch_queue ch))"
    using push(2) by (metis length_append_singleton length_sq_list)
  show "fst (channel_send ch m) = S_ok"
    "channel_abs (snd (channel_send ch m)) = (ch_capacity ch, sq_list (ch_queue ch) @ [m])"
    "channel_wf (snd (channel_send ch m))" "ch_id (snd (channel_send ch m)) = ch_id ch"
    using assms push size
    by (auto simp: channel_send_def channel_abs_def channel_wf_def split_beta)
qed

lemma channel_send_refused:
  assumes "msg_size m > max_inline_payload \<or> \<not> sq_size (ch_queue ch) < ch_capacity ch"
  shows "channel_send ch m = (if msg_size m > max_inline_payload then S_overflow else S_would_block, ch)"
  using assms by (auto simp: channel_send_def)

lemma channel_receive_some:
  assumes "channel_wf ch" and "sq_size (ch_queue ch) \<noteq> 0"
  shows "fst (channel_receive ch) = Inr (hd (sq_list (ch_queue ch)))"
    and "channel_abs (snd (channel_receive ch)) = (ch_capacity ch, tl (sq_list (ch_queue ch)))"
    and "channel_wf (snd (channel_receive ch))"
    and "ch_id (snd (channel_receive ch)) = ch_id ch"
proof -
  have wf: "sq_wf (ch_queue ch)" using assms by (simp add: channel_wf_def)
  note pop = sq_pop_some [OF wf assms(2)]
  have size: "sq_size (snd (sq_pop (ch_queue ch))) = sq_size (ch_queue ch) - 1"
    using pop(2) by (metis length_sq_list length_tl)
  show "fst (channel_receive ch) = Inr (hd (sq_list (ch_queue ch)))"
    "channel_abs (snd (channel_receive ch)) = (ch_capacity ch, tl (sq_list (ch_queue ch)))"
    "channel_wf (snd (channel_receive ch))" "ch_id (snd (channel_receive ch)) = ch_id ch"
    using assms pop size
    by (auto simp: channel_receive_def channel_abs_def channel_wf_def split_beta)
qed

lemma channel_receive_empty:
  "sq_size (ch_queue ch) = 0 \<Longrightarrow> channel_receive ch = (Inl S_would_block, ch)"
  by (simp add: channel_receive_def sq_pop_def)

section \<open>The router implements the specification\<close>

lemma length_router_abs: "router_wf r \<Longrightarrow> length (router_abs r) = sv_size (rt_channels r)"
  by (simp add: router_abs_def length_sv_list router_wf_def)

lemma router_size_bound: "router_wf r \<Longrightarrow> sv_size (rt_channels r) \<le> max_channels"
  by (simp add: router_wf_def sv_wf_def sv_capacity_def)

lemma find_channel_known:
  assumes "router_wf r"
  shows "find_channel r c = known_channel (router_abs r) c"
proof -
  let ?n = "sv_size (rt_channels r)" and ?l = "sv_list (rt_channels r)"
  have len: "length ?l = ?n" and small: "?n \<le> 64" and alen: "length (router_abs r) = ?n"
    using assms length_router_abs [OF assms] router_size_bound [OF assms]
    by (simp_all add: router_wf_def length_sv_list max_channels_def)
  have ident: "ch_id (?l ! k) = of_nat (Suc k)" if "k < ?n" for k
    using assms that by (simp add: router_wf_def)
  have un: "unat (of_nat (Suc k) :: u64) = Suc k" if "k < ?n" for k
    using that small by (intro unat_of_nat_small) simp
  show ?thesis
  proof (cases "0 < unat c \<and> unat c \<le> ?n")
    case True
    then have "unat c - 1 < ?n" by linarith
    moreover have "ch_id (?l ! (unat c - 1)) = c"
      using ident [OF calculation] True by (simp add: word_unat_eq_iff unat_of_nat)
    moreover have "ch_id (?l ! j) \<noteq> c" if "j < unat c - 1" for j
    proof
      assume eq: "ch_id (?l ! j) = c"
      have "j < ?n" using that True by linarith
      with eq ident un have "unat c = Suc j" by metis
      with that show False by simp
    qed
    ultimately show ?thesis
      using True len alen by (simp add: find_channel_def known_channel_def first_index_Some_iff)
  next
    case False
    have "ch_id x \<noteq> c" if mem: "x \<in> set ?l" for x
    proof -
      obtain j where j: "j < ?n" and x: "x = ?l ! j" using mem by (auto simp: in_set_conv_nth len)
      show ?thesis
      proof
        assume "ch_id x = c"
        then have "unat c = Suc j" using ident [OF j] un [OF j] unfolding x by (simp only:)
        with False j show False by linarith
      qed
    qed
    then have "find_channel r c = None" by (simp add: find_channel_def)
    then show ?thesis using False alen by (auto simp: known_channel_def)
  qed
qed

lemma sv_list_put:
  "k < sv_size (rt_channels r) \<Longrightarrow> sv_list (rt_channels (put_channel r k ch)) = (sv_list (rt_channels r))[k := ch]"
  by (simp add: put_channel_def sv_list_def take_update_swap)

lemma router_wf_put:
  assumes "router_wf r" and "k < sv_size (rt_channels r)" and "channel_wf ch"
    and "ch_id ch = ch_id (sv_list (rt_channels r) ! k)"
  shows "router_wf (put_channel r k ch)"
proof -
  have len: "length (sv_list (rt_channels r)) = sv_size (rt_channels r)"
    using assms(1) by (simp add: router_wf_def length_sv_list)
  have "\<forall>c\<in>set ((sv_list (rt_channels r))[k := ch]). channel_wf c"
    using assms by (auto simp: router_wf_def dest: set_update_subset_insert [THEN subsetD])
  moreover have "ch_id ((sv_list (rt_channels r))[k := ch] ! j) = ch_id (sv_list (rt_channels r) ! j)" for j
    using assms(2,4) len by (cases "j = k") auto
  ultimately show ?thesis
    using assms(1,2) by (simp add: router_wf_def sv_list_put)
      (simp add: put_channel_def sv_wf_def sv_capacity_def)
qed

lemma router_abs_put:
  "k < sv_size (rt_channels r) \<Longrightarrow> router_abs (put_channel r k ch) = (router_abs r)[k := channel_abs ch]"
  by (simp add: router_abs_def sv_list_put map_update)

lemma known_channel_nth:
  assumes "router_wf r" and "known_channel (router_abs r) c = Some k"
  defines "ch \<equiv> sv_values (rt_channels r) ! k"
  shows "k < sv_size (rt_channels r)" and "channel_wf ch" and "ch = sv_list (rt_channels r) ! k"
    and "router_abs r ! k = (ch_capacity ch, sq_list (ch_queue ch))"
proof -
  show k: "k < sv_size (rt_channels r)"
    using assms by (auto simp: known_channel_def length_router_abs split: if_splits)
  show ch: "ch = sv_list (rt_channels r) ! k"
    using k by (simp add: ch_def sv_list_def)
  have len: "length (sv_list (rt_channels r)) = sv_size (rt_channels r)"
    using assms(1) by (simp add: router_wf_def length_sv_list)
  show "channel_wf ch" using assms(1) k len by (simp add: ch router_wf_def)
  show "router_abs r ! k = (ch_capacity ch, sq_list (ch_queue ch))"
    using k len by (simp add: router_abs_def channel_abs_def ch)
qed

lemma put_same: "k < sv_size (rt_channels r) \<Longrightarrow> router_wf r \<Longrightarrow>
  router_abs r ! k = channel_abs ch \<Longrightarrow> router_abs (put_channel r k ch) = router_abs r"
  by (simp add: router_abs_put list_update_same_conv length_router_abs)

lemma router_send_abs:
  assumes wf: "router_wf r"
  shows "(fst (router_send r c m), router_abs (snd (router_send r c m))) = spec_send (router_abs r) c m
    \<and> router_wf (snd (router_send r c m))"
proof (cases "known_channel (router_abs r) c")
  case None
  then show ?thesis using wf by (simp add: router_send_def spec_send_def find_channel_known)
next
  case (Some k)
  define ch where "ch = sv_values (rt_channels r) ! k"
  note nth = known_channel_nth [OF wf Some, folded ch_def]
  show ?thesis
  proof (cases "\<not> msg_size m > max_inline_payload \<and> sq_size (ch_queue ch) < ch_capacity ch")
    case True
    note send = channel_send_room [OF nth(2), of m]
    show ?thesis
      using True wf Some nth send
      by (simp add: router_send_def spec_send_def find_channel_known ch_def [symmetric] split_beta
          router_abs_put router_wf_put)
  next
    case False
    then show ?thesis
      using wf Some nth channel_send_refused [of m ch] router_wf_put [OF wf nth(1,2)]
      by (auto simp: router_send_def spec_send_def find_channel_known ch_def [symmetric] put_same channel_abs_def)
  qed
qed

lemma router_receive_abs:
  assumes wf: "router_wf r"
  shows "(fst (router_receive r c), router_abs (snd (router_receive r c))) = spec_receive (router_abs r) c
    \<and> router_wf (snd (router_receive r c))"
proof (cases "known_channel (router_abs r) c")
  case None
  then show ?thesis using wf by (simp add: router_receive_def spec_receive_def find_channel_known)
next
  case (Some k)
  define ch where "ch = sv_values (rt_channels r) ! k"
  note nth = known_channel_nth [OF wf Some, folded ch_def]
  show ?thesis
  proof (cases "sq_list (ch_queue ch)")
    case Nil
    then have "sq_size (ch_queue ch) = 0" by (metis length_sq_list list.size(3))
    then show ?thesis
      using wf Some nth Nil channel_receive_empty [of ch] router_wf_put [OF wf nth(1,2)]
      by (simp add: router_receive_def spec_receive_def find_channel_known ch_def [symmetric] put_same
          channel_abs_def)
  next
    case (Cons x xs)
    then have "sq_size (ch_queue ch) \<noteq> 0" by (metis length_sq_list list.size(3) list.distinct(1) length_0_conv)
    note receive = channel_receive_some [OF nth(2) this]
    show ?thesis
      using wf Some nth Cons receive
      by (simp add: router_receive_def spec_receive_def find_channel_known ch_def [symmetric] split_beta
          router_abs_put router_wf_put)
  qed
qed

lemma create_channel_abs:
  assumes wf: "router_wf r"
  shows "(fst (create_channel r k), router_abs (snd (create_channel r k))) = spec_create (router_abs r) k
    \<and> router_wf (snd (create_channel r k))"
proof (cases "k = 0 \<or> k > max_channel_messages")
  case True
  then show ?thesis using wf by (auto simp: create_channel_def spec_create_def)
next
  case False
  let ?v = "rt_channels r" and ?ch = "new_channel (rt_next_channel r) k"
  have v: "sv_wf ?v" and cap: "sv_capacity ?v = max_channels" using wf by (simp_all add: router_wf_def)
  show ?thesis
  proof (cases "sv_size ?v < max_channels")
    case True
    note push = sv_push_back_ok [OF v, of ?ch]
    have size: "sv_size (snd (sv_push_back ?v ?ch)) = Suc (sv_size ?v)"
      using True cap by (simp add: sv_push_back_def sv_full_def)
    have nextid: "rt_next_channel r = of_nat (Suc (sv_size ?v))" using wf True by (simp add: router_wf_def)
    have "router_wf (snd (create_channel r k))"
      using False True cap push size nextid wf channel_wf_new [of k "rt_next_channel r"] length_sv_list [OF v]
      by (auto simp: create_channel_def router_wf_def split_beta Let_def nth_append less_Suc_eq new_channel_def)
    then show ?thesis
      using False True cap push nextid length_router_abs [OF wf]
      by (simp add: create_channel_def spec_create_def split_beta Let_def router_abs_def)
  next
    case full: False
    have size: "sv_size ?v = max_channels" using full router_size_bound [OF wf] by simp
    then have push: "sv_push_back ?v ?ch = (S_overflow, ?v)" using cap by (simp add: sv_push_back_full)
    have "router_wf (snd (create_channel r k))"
      using wf False push size by (simp add: create_channel_def router_wf_def Let_def)
    then show ?thesis
      using False push size length_router_abs [OF wf]
      by (simp add: create_channel_def spec_create_def Let_def router_abs_def)
  qed
qed

section \<open>Runs\<close>

datatype ipc_op = Create nat | Send u64 ipc_message | Receive u64
datatype ipc_event = Created "u64 result" | Sent status_code | Received "ipc_message result"

primrec ipc_exec :: "ipc_router \<Rightarrow> ipc_op \<Rightarrow> ipc_event \<times> ipc_router" where
  "ipc_exec r (Create k) = map_prod Created id (create_channel r k)"
| "ipc_exec r (Send c m) = map_prod Sent id (router_send r c m)"
| "ipc_exec r (Receive c) = map_prod Received id (router_receive r c)"

primrec spec_exec :: "ipc_spec \<Rightarrow> ipc_op \<Rightarrow> ipc_event \<times> ipc_spec" where
  "spec_exec S (Create k) = map_prod Created id (spec_create S k)"
| "spec_exec S (Send c m) = map_prod Sent id (spec_send S c m)"
| "spec_exec S (Receive c) = map_prod Received id (spec_receive S c)"

primrec run_ops :: "('s \<Rightarrow> 'o \<Rightarrow> 'e \<times> 's) \<Rightarrow> 's \<Rightarrow> 'o list \<Rightarrow> 'e list \<times> 's" where
  "run_ops f s [] = ([], s)"
| "run_ops f s (x # xs) = (let (e, s') = f s x; (es, s'') = run_ops f s' xs in (e # es, s''))"

lemma ipc_exec_abs:
  assumes "router_wf r"
  shows "(fst (ipc_exec r x), router_abs (snd (ipc_exec r x))) = spec_exec (router_abs r) x
    \<and> router_wf (snd (ipc_exec r x))"
  using create_channel_abs [OF assms] router_send_abs [OF assms] router_receive_abs [OF assms]
  by (cases x) (simp_all add: map_prod_def split_beta prod_eq_iff)

lemma ipc_run_abs:
  "router_wf r \<Longrightarrow> (fst (run_ops ipc_exec r xs), router_abs (snd (run_ops ipc_exec r xs)))
     = run_ops spec_exec (router_abs r) xs \<and> router_wf (snd (run_ops ipc_exec r xs))"
proof (induction xs arbitrary: r)
  case (Cons x xs)
  obtain e r' where x: "ipc_exec r x = (e, r')" by (cases "ipc_exec r x")
  have "router_wf r'" and "spec_exec (router_abs r) x = (e, router_abs r')"
    using ipc_exec_abs [OF Cons.prems, of x] x by simp_all
  with Cons.IH [of r'] x show ?case by (simp add: split_beta prod_eq_iff)
qed simp

lemma router_wf_init: "router_wf router_init"
  by (simp add: router_wf_def router_init_def) (simp add: sv_init_def)

lemma router_abs_init: "router_abs router_init = []"
  by (simp add: router_abs_def router_init_def)

section \<open>Properties\<close>

text \<open>
  C2: Every sequence of \<open>create_channel\<close>, \<open>send\<close> and \<open>receive\<close> calls on a fresh router
  returns exactly what the specification returns (identifiers numbered from 1, messages in
  order, overflow, would-block and not-found answers included), and leaves each channel
  holding exactly the specification's messages.
\<close>

theorem ipc_run_refines_spec:
  "(fst (run_ops ipc_exec router_init xs), router_abs (snd (run_ops ipc_exec router_init xs)))
     = run_ops spec_exec [] xs"
  using ipc_run_abs [OF router_wf_init, of xs] by (simp add: router_abs_init)

text \<open>
  C38: A value sent on an existing empty channel is received unchanged: the receiver gets the
  sender, the receiver identity and exactly the payload bytes, and every channel of the
  router is as it was before.
\<close>

theorem ipc_value_roundtrip:
  assumes "router_wf r" and "known_channel (router_abs r) c = Some k" and "snd (router_abs r ! k) = []"
    and "length bytes \<le> max_inline_payload"
  shows "fst (router_send_value r c a b bytes) = S_ok
    \<and> (\<exists>m. fst (router_receive (snd (router_send_value r c a b bytes)) c) = Inr m
         \<and> msg_sender m = a \<and> msg_receiver m = b \<and> take (msg_size m) (msg_payload m) = bytes)
    \<and> router_abs (snd (router_receive (snd (router_send_value r c a b bytes)) c)) = router_abs r"
proof -
  let ?m = "value_message a b bytes" and ?S = "router_abs r"
  let ?r = "snd (router_send_value r c a b bytes)"
  obtain n where n: "?S ! k = (n, [])" using assms(3) by (cases "?S ! k") simp
  have k: "k < length ?S" using assms(2) by (auto simp: known_channel_def split: if_splits)
  have "0 < n" using known_channel_nth [OF assms(1,2)] n by (simp add: channel_wf_def)
  have small: "msg_size ?m \<le> max_inline_payload" using assms(4) by (simp add: value_message_def)
  have send: "spec_send ?S c ?m = (S_ok, ?S[k := (n, [?m])])"
    using assms(2) n \<open>0 < n\<close> small by (simp add: spec_send_def)
  then have ok: "fst (router_send_value r c a b bytes) = S_ok" and abs: "router_abs ?r = ?S[k := (n, [?m])]"
    and wf: "router_wf ?r"
    using router_send_abs [OF assms(1), of c ?m] by (simp_all add: router_send_value_def)
  have "spec_receive (router_abs ?r) c = (Inr ?m, ?S)"
    using assms(2) k n abs by (simp add: spec_receive_def known_channel_def list_update_same_conv)
  then have "fst (router_receive ?r c) = Inr ?m" and "router_abs (snd (router_receive ?r c)) = ?S"
    using router_receive_abs [OF wf, of c] by simp_all
  moreover have "take (msg_size ?m) (msg_payload ?m) = bytes"
    using assms(4) by (simp add: value_message_def empty_message_def write_at_eq)
  ultimately show ?thesis using ok by (simp add: value_message_def)
qed

theorem ipc_value_roundtrip_witness:
  "\<exists>m. fst (router_receive (snd (router_send_value (snd (create_channel router_init 4)) 1 7 8 [1, 2, 3])) 1) = Inr m
     \<and> take (msg_size m) (msg_payload m) = [1, 2, 3]"
proof -
  let ?r = "snd (create_channel router_init 4)"
  have s: "spec_create [] 4 = (Inr 1, [(4, [])])"
    by (simp add: spec_create_def max_channel_messages_def max_channels_def)
  have wf: "router_wf ?r" and abs: "router_abs ?r = [(4, [])]"
    using create_channel_abs [OF router_wf_init, of 4] s by (simp_all add: router_abs_init)
  have "known_channel (router_abs ?r) 1 = Some 0" by (simp add: abs known_channel_def)
  moreover have "snd (router_abs ?r ! 0) = []" by (simp add: abs)
  moreover have "length [1, 2, 3 :: u8] \<le> max_inline_payload" by (simp add: max_inline_payload_def)
  ultimately show ?thesis using ipc_value_roundtrip [OF wf, of 1 0 "[1, 2, 3]" 7 8] by blast
qed

end
