(* ===== verification/OK_Charges.thy ===== *)
theory OK_Charges
  imports OK_Prelude
begin

text \<open>
  Per-owner accounting, \<^verbatim>\<open>include/ok/memory/charges.hpp\<close>: charge before handing out,
  uncharge on release, a quota that is never exceeded. The interface \<open>charging\<close> is what
  the frame allocator relies on to roll a failed request back.
\<close>

record charge_account =
  ca_limit :: usize
  ca_used :: usize
  ca_peak :: usize

definition account_new :: "usize \<Rightarrow> charge_account" where
  "account_new limit = \<lparr>ca_limit = limit, ca_used = 0, ca_peak = 0\<rparr>"

definition charge :: "charge_account \<Rightarrow> usize \<Rightarrow> status_code \<times> charge_account" where
  "charge a units =
     (if units > - 1 - ca_used a then (S_overflow, a)
      else if ca_limit a \<noteq> 0 \<and> ca_used a + units > ca_limit a then (S_no_memory, a)
      else (let used = ca_used a + units in
        (S_ok, a\<lparr>ca_used := used, ca_peak := (if used > ca_peak a then used else ca_peak a)\<rparr>)))"

definition uncharge :: "charge_account \<Rightarrow> usize \<Rightarrow> bool \<times> charge_account" where
  "uncharge a units =
     (if units > ca_used a then (False, a) else (True, a\<lparr>ca_used := ca_used a - units\<rparr>))"

definition set_limit :: "charge_account \<Rightarrow> usize \<Rightarrow> status_code \<times> charge_account" where
  "set_limit a limit =
     (if limit \<noteq> 0 \<and> limit < ca_used a then (S_busy, a) else (S_ok, a\<lparr>ca_limit := limit\<rparr>))"

definition account_wf :: "charge_account \<Rightarrow> bool" where
  "account_wf a \<longleftrightarrow> (ca_limit a = 0 \<or> ca_used a \<le> ca_limit a) \<and> ca_used a \<le> ca_peak a"

section \<open>The charging interface\<close>

locale charging =
  fixes used :: "'a \<Rightarrow> nat"
    and take_units :: "'a \<Rightarrow> usize \<Rightarrow> status_code \<times> 'a"
    and give_units :: "'a \<Rightarrow> usize \<Rightarrow> bool \<times> 'a"
  assumes take_ok: "fst (take_units a n) = S_ok \<Longrightarrow> used (snd (take_units a n)) = used a + unat n"
    and take_failed: "fst (take_units a n) \<noteq> S_ok \<Longrightarrow> snd (take_units a n) = a"
    and give_ok: "unat n \<le> used a \<Longrightarrow> fst (give_units a n) \<and> used (snd (give_units a n)) = used a - unat n"
    and give_failed: "\<not> unat n \<le> used a \<Longrightarrow> give_units a n = (False, a)"
begin

text \<open>A request that charges and then fails gives back exactly what it took.\<close>

lemma rollback:
  assumes "fst (take_units a n) = S_ok"
  shows "fst (give_units (snd (take_units a n)) n)"
    and "used (snd (give_units (snd (take_units a n)) n)) = used a"
  using take_ok [OF assms] give_ok [of n "snd (take_units a n)"] by simp_all

lemma give_then_used:
  "fst (give_units a n) \<Longrightarrow> used (snd (give_units a n)) + unat n = used a"
  using give_ok [of n a] give_failed [of n a] by (cases "unat n \<le> used a") auto

end

abbreviation used_units :: "charge_account \<Rightarrow> nat" where
  "used_units a \<equiv> unat (ca_used a)"

lemma charge_cases:
  obtains "unat (ca_used a) + unat n \<ge> 2 ^ 64" "charge a n = (S_overflow, a)"
  | "unat (ca_used a) + unat n < 2 ^ 64" "ca_limit a \<noteq> 0" "ca_used a + n > ca_limit a"
      "charge a n = (S_no_memory, a)"
  | "unat (ca_used a) + unat n < 2 ^ 64" "ca_limit a = 0 \<or> ca_used a + n \<le> ca_limit a"
      "charge a n = (S_ok, a\<lparr>ca_used := ca_used a + n,
         ca_peak := (if ca_used a + n > ca_peak a then ca_used a + n else ca_peak a)\<rparr>)"
  by (cases "n > - 1 - ca_used a"; cases "ca_limit a \<noteq> 0 \<and> ca_used a + n > ca_limit a")
    (auto simp: charge_def Let_def headroom_exceeded_iff not_le not_less)

interpretation ca: charging used_units charge uncharge
proof unfold_locales
  fix a n
  show "fst (charge a n) = S_ok \<Longrightarrow> used_units (snd (charge a n)) = used_units a + unat n"
    by (rule charge_cases [of a n]) (auto simp: unat_add_headroom)
  show "fst (charge a n) \<noteq> S_ok \<Longrightarrow> snd (charge a n) = a"
    by (rule charge_cases [of a n]) auto
  show "unat n \<le> used_units a \<Longrightarrow>
      fst (uncharge a n) \<and> used_units (snd (uncharge a n)) = used_units a - unat n"
    by (simp add: uncharge_def word_less_nat_alt unat_sub word_le_nat_alt)
  show "\<not> unat n \<le> used_units a \<Longrightarrow> uncharge a n = (False, a)"
    by (simp add: uncharge_def word_less_nat_alt)
qed

lemma account_wf_charge: "account_wf a \<Longrightarrow> account_wf (snd (charge a n))"
  by (rule charge_cases [of a n]) (auto simp: account_wf_def)

lemma account_wf_uncharge: "account_wf a \<Longrightarrow> account_wf (snd (uncharge a n))"
proof (cases "n > ca_used a")
  case False
  assume "account_wf a"
  moreover have "ca_used a - n \<le> ca_used a" using False by (simp add: word_sub_le)
  ultimately show ?thesis using False by (auto simp: account_wf_def uncharge_def)
qed (simp add: uncharge_def)

lemma account_wf_set_limit: "account_wf a \<Longrightarrow> account_wf (snd (set_limit a n))"
  by (auto simp: account_wf_def set_limit_def)

lemma account_wf_new: "account_wf (account_new l)"
  by (simp add: account_wf_def account_new_def)

section \<open>Runs\<close>

datatype account_op = Charge usize | Uncharge usize | Set_limit usize

primrec account_exec :: "account_op \<Rightarrow> charge_account \<Rightarrow> charge_account" where
  "account_exec (Charge n) a = snd (charge a n)"
| "account_exec (Uncharge n) a = snd (uncharge a n)"
| "account_exec (Set_limit n) a = snd (set_limit a n)"

lemma account_wf_exec: "account_wf a \<Longrightarrow> account_wf (account_exec x a)"
  by (cases x) (simp_all add: account_wf_charge account_wf_uncharge account_wf_set_limit)

lemma account_wf_run: "account_wf a \<Longrightarrow> account_wf (fold account_exec xs a)"
  by (induction xs arbitrary: a) (simp_all add: account_wf_exec)

section \<open>Properties\<close>

text \<open>
  C30: Whatever sequence of charges, releases and limit changes an account sees, its usage
  never exceeds its quota when it has one, and the recorded peak is never below the usage.
\<close>

theorem account_quota_invariant:
  "let a = fold account_exec xs (account_new l) in
     (ca_limit a = 0 \<or> ca_used a \<le> ca_limit a) \<and> ca_used a \<le> ca_peak a"
  using account_wf_run [OF account_wf_new, of xs l] by (simp add: account_wf_def Let_def)

end
