(* ===== verification/OK_Sweep.thy ===== *)
theory OK_Sweep
  imports OK_Prelude
begin

text \<open>
  The boundary sweep of \<^verbatim>\<open>src/memory/memory.cpp\<close> that turns a list of possibly overlapping
  memory regions into runs of whole usable pages, and the totals computed from it. The
  callback the template takes is a parameter of the loop, threaded with its own state.
\<close>

section \<open>Regions\<close>

datatype region_type = Usable | Reserved | Device_mmio | Kernel_image

record memory_region =
  mr_base :: uptr
  mr_size :: usize
  mr_type :: region_type

definition region_end :: "memory_region \<Rightarrow> uptr" where
  "region_end r = mr_base r + mr_size r"

section \<open>The sweep\<close>

text \<open>One pass over the regions at a cursor: \<open>usable\<close>, \<open>reserved\<close> and the nearest boundary.\<close>

record scan_state =
  sc_usable :: bool
  sc_reserved :: bool
  sc_next :: "uptr option"

definition scan_boundary :: "uptr \<Rightarrow> uptr \<Rightarrow> uptr option \<Rightarrow> uptr option" where
  "scan_boundary cursor boundary nxt =
     (if boundary > cursor \<and> (case nxt of None \<Rightarrow> True | Some n \<Rightarrow> boundary < n)
      then Some boundary else nxt)"

definition scan_region :: "uptr \<Rightarrow> memory_region \<Rightarrow> scan_state \<Rightarrow> scan_state" where
  "scan_region cursor r sc =
     (if mr_size r = 0 then sc
      else (let inside = mr_base r \<le> cursor \<and> cursor < region_end r in
        \<lparr>sc_usable = (sc_usable sc \<or> (inside \<and> mr_type r = Usable)),
         sc_reserved = (sc_reserved sc \<or> (inside \<and> mr_type r \<noteq> Usable)),
         sc_next = scan_boundary cursor (region_end r) (scan_boundary cursor (mr_base r) (sc_next sc))\<rparr>))"

definition scan :: "memory_region list \<Rightarrow> uptr \<Rightarrow> scan_state" where
  "scan rs cursor = fold (scan_region cursor) rs \<lparr>sc_usable = False, sc_reserved = False, sc_next = None\<rparr>"

text \<open>The lowest base, unless a region wraps the address space.\<close>

primrec sweep_cursor :: "memory_region list \<Rightarrow> uptr \<Rightarrow> uptr result" where
  "sweep_cursor [] cursor = Inr cursor"
| "sweep_cursor (r # rs) cursor =
     (if mr_size r > - 1 - mr_base r then Inl S_overflow
      else sweep_cursor rs (if mr_size r \<noteq> 0 \<and> mr_base r < cursor then mr_base r else cursor))"

text \<open>The whole pages of one usable byte run.\<close>

definition page_run :: "usize \<Rightarrow> uptr \<Rightarrow> uptr \<Rightarrow> (uptr \<times> usize) option" where
  "page_run ps start fin =
     (let adjustment = (ps - start mod ps) mod ps in
      if adjustment \<ge> fin - start then None
      else (let start' = start + adjustment; fin' = fin - fin mod ps in
        if fin' \<le> start' then None else Some (start', (fin' - start') div ps)))"

type_synonym 's emitter = "'s \<Rightarrow> uptr \<Rightarrow> usize \<Rightarrow> status_code \<times> 's"

definition sweep_append :: "usize \<Rightarrow> 's emitter \<Rightarrow> uptr \<Rightarrow> uptr \<Rightarrow> 's \<Rightarrow> status_code \<times> 's" where
  "sweep_append ps emit start fin s =
     (case page_run ps start fin of None \<Rightarrow> (S_ok, s) | Some (b, n) \<Rightarrow> emit s b n)"

definition boundaries :: "memory_region list \<Rightarrow> uptr set" where
  "boundaries rs = {b. \<exists>r\<in>set rs. mr_size r \<noteq> 0 \<and> (b = mr_base r \<or> b = region_end r)}"

lemma scan_next:
  "case sc_next (scan rs c) of None \<Rightarrow> \<forall>b\<in>boundaries rs. b \<le> c
   | Some n \<Rightarrow> n \<in> boundaries rs \<and> c < n \<and> (\<forall>b\<in>boundaries rs. c < b \<longrightarrow> n \<le> b)"
proof (induction rs rule: rev_induct)
  case Nil
  then show ?case by (simp add: scan_def boundaries_def)
next
  case (snoc r rs)
  have step: "scan (rs @ [r]) c = scan_region c r (scan rs c)" by (simp add: scan_def)
  show ?case
  proof (cases "mr_size r = 0")
    case True
    then have "boundaries (rs @ [r]) = boundaries rs" by (auto simp: boundaries_def)
    with True snoc.IH show ?thesis by (simp add: step scan_region_def split: option.splits)
  next
    case False
    then have b: "boundaries (rs @ [r]) = boundaries rs \<union> {mr_base r, region_end r}"
      by (auto simp: boundaries_def)
    have "sc_next (scan (rs @ [r]) c) =
        scan_boundary c (region_end r) (scan_boundary c (mr_base r) (sc_next (scan rs c)))"
      using False by (simp add: step scan_region_def Let_def)
    with snoc.IH show ?thesis unfolding b
      by (auto simp: scan_boundary_def not_less split: option.splits if_splits)
  qed
qed

lemma scan_next_Some:
  assumes "sc_next (scan rs c) = Some n"
  shows "n \<in> boundaries rs" and "c < n" and "b \<in> boundaries rs \<Longrightarrow> c < b \<Longrightarrow> n \<le> b"
  using scan_next [of rs c] assms by auto

lemma scan_next_None: "sc_next (scan rs c) = None \<Longrightarrow> b \<in> boundaries rs \<Longrightarrow> b \<le> c"
  using scan_next [of rs c] by auto

text \<open>The main loop; \<open>run\<close> is \<open>run_start\<close> while \<open>in_usable_run\<close> holds.\<close>

function sweep_loop ::
    "memory_region list \<Rightarrow> usize \<Rightarrow> 's emitter \<Rightarrow> uptr \<Rightarrow> uptr option \<Rightarrow> 's \<Rightarrow> status_code \<times> 's" where
  "sweep_loop rs ps emit cursor run s =
     (case sc_next (scan rs cursor) of
        None \<Rightarrow> (case run of None \<Rightarrow> (S_ok, s) | Some start \<Rightarrow> sweep_append ps emit start cursor s)
      | Some nxt \<Rightarrow>
          (if sc_usable (scan rs cursor) \<and> \<not> sc_reserved (scan rs cursor)
           then sweep_loop rs ps emit nxt (Some (case run of None \<Rightarrow> cursor | Some start \<Rightarrow> start)) s
           else (case run of
               None \<Rightarrow> sweep_loop rs ps emit nxt None s
             | Some start \<Rightarrow>
                 (case sweep_append ps emit start cursor s of (st, s') \<Rightarrow>
                   if st \<noteq> S_ok then (st, s') else sweep_loop rs ps emit nxt None s'))))"
  by pat_completeness auto
termination
  by (relation "measure (\<lambda>(rs, ps, emit, cursor, run, s). 2 ^ 64 - unat cursor)")
    (auto dest!: scan_next_Some(2) simp: word_less_nat_alt intro!: diff_less_mono2)

declare sweep_loop.simps [simp del]

definition power_of_two_or_zero :: "usize \<Rightarrow> bool" where
  "power_of_two_or_zero n \<longleftrightarrow> n AND (n - 1) = 0"

definition sweep_usable ::
    "memory_region list \<Rightarrow> usize \<Rightarrow> 's emitter \<Rightarrow> 's \<Rightarrow> status_code \<times> 's" where
  "sweep_usable rs ps emit s =
     (if ps = 0 \<or> \<not> power_of_two_or_zero ps then (S_invalid_argument, s)
      else (case sweep_cursor rs (- 1) of Inl e \<Rightarrow> (e, s)
        | Inr cursor \<Rightarrow> sweep_loop rs ps emit cursor None s))"

section \<open>What the sweep means\<close>

text \<open>
  Byte addresses are natural numbers here. A byte is free when some usable region covers it
  and no other region does: reservations win.
\<close>

definition covers :: "memory_region \<Rightarrow> nat \<Rightarrow> bool" where
  "covers r a \<longleftrightarrow> unat (mr_base r) \<le> a \<and> a < unat (mr_base r) + unat (mr_size r)"

definition free_byte :: "memory_region list \<Rightarrow> nat \<Rightarrow> bool" where
  "free_byte rs a \<longleftrightarrow> (\<exists>r\<in>set rs. mr_type r = Usable \<and> covers r a)
     \<and> \<not> (\<exists>r\<in>set rs. mr_type r \<noteq> Usable \<and> covers r a)"

definition regions_fit :: "memory_region list \<Rightarrow> bool" where
  "regions_fit rs \<longleftrightarrow> list_all (\<lambda>r. mr_size r \<le> - 1 - mr_base r) rs"

lemma unat_region_end:
  "regions_fit rs \<Longrightarrow> r \<in> set rs \<Longrightarrow> unat (region_end r) = unat (mr_base r) + unat (mr_size r)"
  by (auto simp: regions_fit_def region_end_def list_all_iff headroom_iff unat_add_headroom)

lemma covers_word:
  "regions_fit rs \<Longrightarrow> r \<in> set rs \<Longrightarrow> covers r (unat c) \<longleftrightarrow> mr_base r \<le> c \<and> c < region_end r"
  by (simp add: covers_def word_le_nat_alt word_less_nat_alt unat_region_end)

lemma covers_size: "covers r a \<Longrightarrow> mr_size r \<noteq> 0"
  by (auto simp: covers_def)

lemma scan_flags:
  assumes "regions_fit rs"
  shows "sc_usable (scan rs c) \<longleftrightarrow> (\<exists>r\<in>set rs. mr_type r = Usable \<and> covers r (unat c))"
    and "sc_reserved (scan rs c) \<longleftrightarrow> (\<exists>r\<in>set rs. mr_type r \<noteq> Usable \<and> covers r (unat c))"
proof -
  have "set qs \<subseteq> set rs \<Longrightarrow>
     (sc_usable (scan qs c) \<longleftrightarrow> (\<exists>r\<in>set qs. mr_type r = Usable \<and> covers r (unat c))) \<and>
     (sc_reserved (scan qs c) \<longleftrightarrow> (\<exists>r\<in>set qs. mr_type r \<noteq> Usable \<and> covers r (unat c)))" for qs
  proof (induction qs rule: rev_induct)
    case (snoc r qs)
    have "scan (qs @ [r]) c = scan_region c r (scan qs c)" by (simp add: scan_def)
    moreover have "covers r (unat c) \<longleftrightarrow> mr_base r \<le> c \<and> c < region_end r"
      using snoc.prems assms by (intro covers_word) auto
    ultimately show ?case using snoc by (auto simp: scan_region_def Let_def dest: covers_size)
  qed (simp add: scan_def)
  from this [of rs] show "sc_usable (scan rs c) \<longleftrightarrow> (\<exists>r\<in>set rs. mr_type r = Usable \<and> covers r (unat c))"
    and "sc_reserved (scan rs c) \<longleftrightarrow> (\<exists>r\<in>set rs. mr_type r \<noteq> Usable \<and> covers r (unat c))" by simp_all
qed

lemma scan_free:
  "regions_fit rs \<Longrightarrow> (sc_usable (scan rs c) \<and> \<not> sc_reserved (scan rs c)) = free_byte rs (unat c)"
  by (simp add: scan_flags free_byte_def)

text \<open>Between two neighbouring boundaries every byte has the same status.\<close>

lemma free_byte_const:
  assumes fit: "regions_fit rs" and n: "sc_next (scan rs c) = Some n" and a: "unat c \<le> a" "a < unat n"
  shows "free_byte rs a = free_byte rs (unat c)"
proof -
  have "covers r a = covers r (unat c)" if r: "r \<in> set rs" for r
  proof (cases "mr_size r = 0")
    case False
    then have "mr_base r \<in> boundaries rs" "region_end r \<in> boundaries rs"
      using r by (auto simp: boundaries_def)
    then have "c < mr_base r \<longrightarrow> n \<le> mr_base r" "c < region_end r \<longrightarrow> n \<le> region_end r"
      using scan_next_Some(3) [OF n] by auto
    then show ?thesis using a unat_region_end [OF fit r]
      by (auto simp: covers_def word_less_nat_alt word_le_nat_alt)
  qed (auto simp: covers_def)
  then show ?thesis by (simp add: free_byte_def)
qed

lemma free_byte_past:
  assumes fit: "regions_fit rs" and n: "sc_next (scan rs c) = None" and a: "unat c \<le> a"
  shows "\<not> free_byte rs a"
proof -
  have "\<not> covers r a" if r: "r \<in> set rs" for r
  proof (cases "mr_size r = 0")
    case False
    then have "region_end r \<in> boundaries rs" using r by (auto simp: boundaries_def)
    then have "region_end r \<le> c" by (rule scan_next_None [OF n])
    then show ?thesis using a unat_region_end [OF fit r] by (auto simp: covers_def word_le_nat_alt)
  qed (simp add: covers_def)
  then show ?thesis by (auto simp: free_byte_def)
qed

section \<open>The sweep as a list of intervals\<close>

text \<open>The maximal free intervals in ascending order, without the callback.\<close>

function free_intervals :: "memory_region list \<Rightarrow> uptr \<Rightarrow> uptr option \<Rightarrow> (uptr \<times> uptr) list" where
  "free_intervals rs cursor run =
     (let closed = (case run of None \<Rightarrow> [] | Some start \<Rightarrow> [(start, cursor)]) in
      case sc_next (scan rs cursor) of
        None \<Rightarrow> closed
      | Some nxt \<Rightarrow>
          (if sc_usable (scan rs cursor) \<and> \<not> sc_reserved (scan rs cursor)
           then free_intervals rs nxt (Some (case run of None \<Rightarrow> cursor | Some start \<Rightarrow> start))
           else closed @ free_intervals rs nxt None))"
  by pat_completeness auto
termination
  by (relation "measure (\<lambda>(rs, cursor, run). 2 ^ 64 - unat cursor)")
    (auto dest!: scan_next_Some(2) simp: word_less_nat_alt intro!: diff_less_mono2)

declare free_intervals.simps [simp del]

primrec emit_all :: "'s emitter \<Rightarrow> (uptr \<times> usize) list \<Rightarrow> 's \<Rightarrow> status_code \<times> 's" where
  "emit_all emit [] s = (S_ok, s)"
| "emit_all emit (x # xs) s =
     (case emit s (fst x) (snd x) of (st, s') \<Rightarrow> if st \<noteq> S_ok then (st, s') else emit_all emit xs s')"

definition page_runs :: "usize \<Rightarrow> (uptr \<times> uptr) list \<Rightarrow> (uptr \<times> usize) list" where
  "page_runs ps ivs = List.map_filter (\<lambda>(a, b). page_run ps a b) ivs"

lemma page_runs_simps [simp]:
  "page_runs ps [] = []"
  "page_runs ps ((a, b) # ivs) = (case page_run ps a b of None \<Rightarrow> [] | Some x \<Rightarrow> [x]) @ page_runs ps ivs"
  by (simp_all add: page_runs_def map_filter_def split: option.splits)

lemma sweep_loop_emit_all:
  "sweep_loop rs ps emit c run s = emit_all emit (page_runs ps (free_intervals rs c run)) s"
proof (induction rs ps emit c run s rule: sweep_loop.induct)
  case (1 rs ps emit c run s)
  show ?case
    using 1 by (subst sweep_loop.simps, subst free_intervals.simps)
      (auto simp: sweep_append_def Let_def split: option.splits prod.splits)
qed

text \<open>Ascending intervals with at least one byte between neighbours, all from \<open>lo\<close> on.\<close>

primrec separated :: "nat \<Rightarrow> (uptr \<times> uptr) list \<Rightarrow> bool" where
  "separated lo [] \<longleftrightarrow> True"
| "separated lo (x # xs) \<longleftrightarrow> lo \<le> unat (fst x) \<and> fst x < snd x \<and> separated (Suc (unat (snd x))) xs"

definition in_intervals :: "(uptr \<times> uptr) list \<Rightarrow> nat \<Rightarrow> bool" where
  "in_intervals ivs a \<longleftrightarrow> (\<exists>x\<in>set ivs. unat (fst x) \<le> a \<and> a < unat (snd x))"

lemma in_intervals_simps [simp]:
  "\<not> in_intervals [] a"
  "in_intervals (x # xs) a \<longleftrightarrow> (unat (fst x) \<le> a \<and> a < unat (snd x)) \<or> in_intervals xs a"
  by (simp_all add: in_intervals_def)

lemma separated_weaken: "separated lo xs \<Longrightarrow> lo' \<le> lo \<Longrightarrow> separated lo' xs"
  by (cases xs) auto

lemma separated_lower: "separated lo xs \<Longrightarrow> in_intervals xs a \<Longrightarrow> lo \<le> a"
  by (induction xs arbitrary: lo) (auto simp: word_less_nat_alt dest: Suc_leD, fastforce)

definition run_low :: "uptr \<Rightarrow> uptr option \<Rightarrow> uptr" where
  "run_low c run = (case run of None \<Rightarrow> c | Some a \<Rightarrow> a)"

lemma free_intervals_spec:
  assumes "regions_fit rs"
    and "\<And>a. run = Some a \<Longrightarrow> a < c"
    and "\<And>x. unat (run_low c run) \<le> x \<Longrightarrow> x < unat c \<Longrightarrow> free_byte rs x"
  shows "separated (unat (run_low c run)) (free_intervals rs c run) \<and>
    (\<forall>x. in_intervals (free_intervals rs c run) x \<longleftrightarrow> unat (run_low c run) \<le> x \<and> free_byte rs x)"
  using assms
proof (induction rs c run rule: free_intervals.induct)
  case (1 rs c run)
  note fit = \<open>regions_fit rs\<close>
  show ?case
  proof (cases "sc_next (scan rs c)")
    case None
    then have "free_intervals rs c run = (case run of None \<Rightarrow> [] | Some a \<Rightarrow> [(a, c)])"
      by (subst free_intervals.simps) (simp add: Let_def)
    with free_byte_past [OF fit None] 1(4,5) show ?thesis
      by (cases run) (auto simp: run_low_def not_le[symmetric] split: option.splits)
  next
    case (Some n)
    have cn: "unat c < unat n" using scan_next_Some(2) [OF Some] by (simp add: word_less_nat_alt)
    note const = free_byte_const [OF fit Some]
    show ?thesis
    proof (cases "free_byte rs (unat c)")
      case True
      let ?run = "Some (run_low c run)"
      have eq: "free_intervals rs c run = free_intervals rs n ?run"
        using Some True by (subst free_intervals.simps) (simp add: scan_free [OF fit] run_low_def Let_def)
      have low: "run_low n ?run = run_low c run" by (simp add: run_low_def)
      have "run_low c run < n" using 1(4) scan_next_Some(2) [OF Some]
        by (auto simp: run_low_def split: option.splits intro: less_trans)
      moreover have "free_byte rs x" if "unat (run_low c run) \<le> x" "x < unat n" for x
        using 1(5) [of x] const [of x] True that by (cases "x < unat c") auto
      ultimately show ?thesis
        using 1(1) [OF refl Some] True fit by (simp add: eq low scan_free [OF fit] run_low_def)
    next
      case False
      let ?closed = "case run of None \<Rightarrow> [] | Some a \<Rightarrow> [(a, c)]"
      have eq: "free_intervals rs c run = ?closed @ free_intervals rs n None"
        using Some False by (subst free_intervals.simps) (simp add: scan_free [OF fit] Let_def)
      have IH: "separated (unat n) (free_intervals rs n None)"
        "\<And>x. in_intervals (free_intervals rs n None) x \<longleftrightarrow> unat n \<le> x \<and> free_byte rs x"
        using 1(2) [OF refl Some] False fit by (auto simp: scan_free [OF fit] run_low_def)
      have gap: "\<not> free_byte rs x" if "unat c \<le> x" "x < unat n" for x using const [of x] False that by simp
      show ?thesis unfolding eq
      proof (cases run)
        case None
        then show "separated (unat (run_low c run)) (?closed @ free_intervals rs n None) \<and>
            (\<forall>x. in_intervals (?closed @ free_intervals rs n None) x \<longleftrightarrow>
              unat (run_low c run) \<le> x \<and> free_byte rs x)"
          using IH cn gap separated_weaken [OF IH(1), of "unat c"]
          by (auto simp: run_low_def not_le[symmetric])
      next
        case (Some a)
        then show "separated (unat (run_low c run)) (?closed @ free_intervals rs n None) \<and>
            (\<forall>x. in_intervals (?closed @ free_intervals rs n None) x \<longleftrightarrow>
              unat (run_low c run) \<le> x \<and> free_byte rs x)"
          using IH cn gap 1(5) unat_mono [OF 1(4) [OF Some]] separated_weaken [OF IH(1), of "Suc (unat c)"]
          by (auto simp: run_low_def not_le[symmetric] word_le_nat_alt)
      qed
    qed
  qed
qed

section \<open>Whole pages of an interval\<close>

lemma round_up_nat:
  fixes A P :: nat
  assumes "0 < P"
  shows "P dvd A + (P - A mod P) mod P"
proof (cases "A mod P = 0")
  case False
  then have "(P - A mod P) mod P = P - A mod P" using assms by simp
  moreover have "A + (P - A mod P) = (A - A mod P) + P"
    using assms by (simp add: less_imp_le mod_less_eq_dividend)
  ultimately show ?thesis by (simp only: dvd_add_triv_right_iff dvd_minus_mod)
qed (use assms in auto)

lemma round_down_nat: "0 < P \<Longrightarrow> B < (B - B mod P) + (P::nat)"
  using mod_less_divisor [of P B] mod_less_eq_dividend [of B P] by linarith

lemma dvd_gap: "(P::nat) dvd p \<Longrightarrow> P dvd q \<Longrightarrow> p < q \<Longrightarrow> p + P \<le> q"
  by (metis dvd_diff_nat dvd_imp_le le_diff_conv2 less_imp_le zero_less_diff add.commute)

lemma page_run_eq:
  assumes "a < b" and "ps \<noteq> 0"
  defines "A \<equiv> unat a" and "B \<equiv> unat b" and "P \<equiv> unat ps"
  defines "S \<equiv> A + (P - A mod P) mod P" and "E \<equiv> B - B mod P"
  shows "page_run ps a b = (if E \<le> S then None else Some (of_nat S, of_nat ((E - S) div P)))"
proof -
  have P: "0 < P" using assms(2) unfolding P_def by (simp add: unat_gt_0)
  have AB: "A < B" "B < 2 ^ 64" using assms(1) by (simp_all add: A_def B_def word_less_nat_alt)
  let ?adj = "(ps - a mod ps) mod ps"
  have adj: "unat ?adj = (P - A mod P) mod P"
    using P by (simp add: A_def P_def unat_mod unat_sub word_le_nat_alt less_imp_le)
  have ba: "unat (b - a) = B - A" using assms(1) by (simp add: A_def B_def unat_sub word_le_nat_alt word_less_nat_alt)
  show ?thesis
  proof (cases "b - a \<le> ?adj")
    case True
    then have "B \<le> S" by (simp add: word_le_nat_alt ba adj S_def)
    then have "E \<le> S" by (simp add: E_def)
    with True show ?thesis by (simp add: page_run_def)
  next
    case False
    then have "S < B" using AB by (simp add: word_le_nat_alt ba adj S_def)
    then have s: "unat (a + ?adj) = S" using AB
      by (subst unat_add_headroom) (simp_all add: adj S_def A_def)
    have e: "unat (b - b mod ps) = E"
      by (subst unat_sub) (simp_all add: E_def B_def P_def unat_mod word_le_nat_alt)
    have "a + ?adj = of_nat S" by (rule unat_eqD [OF s])
    moreover have "(b - b mod ps - (a + ?adj)) div ps = of_nat ((E - S) div P)" if "S < E"
    proof -
      have "unat (b - b mod ps - (a + ?adj)) = E - S"
        using that by (subst unat_sub) (simp_all add: word_le_nat_alt s e)
      then show ?thesis by (intro unat_eqD) (simp add: unat_div P_def)
    qed
    moreover have "b - b mod ps \<le> a + ?adj \<longleftrightarrow> E \<le> S" by (simp add: word_le_nat_alt s e)
    ultimately show ?thesis using False by (auto simp: page_run_def Let_def)
  qed
qed

definition run_pages :: "usize \<Rightarrow> uptr \<times> usize \<Rightarrow> nat set" where
  "run_pages ps x = (\<lambda>i. unat (fst x) + i * unat ps) ` {..<unat (snd x)}"

definition run_end :: "usize \<Rightarrow> uptr \<times> usize \<Rightarrow> nat" where
  "run_end ps x = unat (fst x) + unat (snd x) * unat ps"

lemma page_run_Some:
  assumes "a < b" and "ps \<noteq> 0" and "page_run ps a b = Some x"
  shows "unat ps dvd unat (fst x)" and "unat a \<le> unat (fst x)" and "unat (fst x) < unat a + unat ps"
    and "0 < unat (snd x)" and "run_end ps x \<le> unat b" and "unat b < run_end ps x + unat ps"
proof -
  define A B P where "A = unat a" and "B = unat b" and "P = unat ps"
  define S E where "S = A + (P - A mod P) mod P" and "E = B - B mod P"
  have P: "0 < P" using assms(2) by (simp add: P_def unat_gt_0)
  have x: "S < E" "x = (of_nat S, of_nat ((E - S) div P))"
    using page_run_eq [OF assms(1,2)] assms(3) unfolding A_def B_def P_def S_def E_def
    by (auto split: if_splits)
  have B: "B < 2 ^ 64" by (simp add: B_def)
  have E: "E \<le> B" "B < E + P" "P dvd E" using P round_down_nat [OF P, of B] by (simp_all add: E_def)
  have S: "P dvd S" "A \<le> S" "S < A + P" using P round_up_nat by (auto simp: S_def)
  have d: "(E - S) div P * P = E - S" using S E by (simp add: dvd_diff_nat)
  have "(E - S) div P < 2 ^ 64" using div_le_dividend [of "E - S" P] E B by linarith
  then have u: "unat (fst x) = S" "unat (snd x) = (E - S) div P"
    using x E B by (auto intro!: unat_of_nat_small)
  show "unat ps dvd unat (fst x)" "unat a \<le> unat (fst x)" "unat (fst x) < unat a + unat ps"
    using S by (simp_all add: u A_def P_def)
  show "0 < unat (snd x)" using d x(1) by (metis mult_is_0 neq0_conv u(2) zero_less_diff)
  have "run_end ps x = E" using d x(1) by (simp add: run_end_def u flip: P_def)
  then show "run_end ps x \<le> unat b" "unat b < run_end ps x + unat ps" using E by (simp_all add: B_def P_def)
qed

lemma page_run_None:
  assumes "a < b" and "ps \<noteq> 0" and "page_run ps a b = None"
    and "unat ps dvd p" and "unat a \<le> p"
  shows "unat b < p + unat ps"
proof -
  define A B P where "A = unat a" and "B = unat b" and "P = unat ps"
  define S E where "S = A + (P - A mod P) mod P" and "E = B - B mod P"
  have P: "0 < P" using assms(2) by (simp add: P_def unat_gt_0)
  have x: "E \<le> S"
    using page_run_eq [OF assms(1,2)] assms(3) unfolding A_def B_def P_def S_def E_def
    by (auto split: if_splits)
  have S: "P dvd S" "S < A + P" using P round_up_nat by (auto simp: S_def)
  have "B < E + P" unfolding E_def by (rule round_down_nat [OF P])
  moreover have "S \<le> p" using dvd_gap [of P p S] assms(4,5) S by (fold A_def P_def) linarith
  ultimately show ?thesis using x by (simp add: B_def P_def)
qed

text \<open>The pages of a run are exactly the aligned pages inside the interval.\<close>

definition interval_pages :: "usize \<Rightarrow> uptr \<times> uptr \<Rightarrow> nat set" where
  "interval_pages ps x = {p. unat ps dvd p \<and> unat (fst x) \<le> p \<and> p + unat ps \<le> unat (snd x)}"

lemma run_pages_interval:
  assumes "a < b" and "ps \<noteq> 0"
  shows "(\<Union>x\<in>set_option (page_run ps a b). run_pages ps x) = interval_pages ps (a, b)"
proof (cases "page_run ps a b")
  case None
  show ?thesis using page_run_None [OF assms None] None by (fastforce simp: interval_pages_def)
next
  case (Some x)
  note x = page_run_Some [OF assms Some]
  define P where "P = unat ps"
  have P: "0 < P" using assms(2) by (simp add: P_def unat_gt_0)
  have "run_pages ps x = interval_pages ps (a, b)"
  proof (intro subset_antisym subsetI)
    fix p
    assume "p \<in> run_pages ps x"
    then obtain i where i: "i < unat (snd x)" "p = unat (fst x) + i * P" by (auto simp: run_pages_def P_def)
    then have "Suc i * P \<le> unat (snd x) * P" by (intro mult_right_mono) simp_all
    then show "p \<in> interval_pages ps (a, b)" using x i by (simp add: interval_pages_def run_end_def P_def)
  next
    fix p
    assume "p \<in> interval_pages ps (a, b)"
    then have p: "P dvd p" "unat a \<le> p" "p + P \<le> unat b" by (simp_all add: interval_pages_def P_def)
    have s: "unat (fst x) \<le> p" using dvd_gap [OF p(1), of "unat (fst x)"] x p(2) by (fold P_def) linarith
    then obtain i where i: "p - unat (fst x) = P * i" using p x by (metis P_def dvdE dvd_diff_nat)
    have "p - unat (fst x) < unat (snd x) * P" using p(3) s x(6) by (simp add: run_end_def flip: P_def)
    then have "i < unat (snd x)" by (simp add: i mult.commute)
    moreover have "p = unat (fst x) + i * P" using i s by (simp add: mult.commute)
    ultimately show "p \<in> run_pages ps x" by (auto simp: run_pages_def P_def)
  qed
  with Some show ?thesis by simp
qed

lemma run_pages_page_runs:
  assumes "separated lo ivs" and "ps \<noteq> 0"
  shows "(\<Union>x\<in>set (page_runs ps ivs). run_pages ps x) = (\<Union>x\<in>set ivs. interval_pages ps x)"
  using assms(1)
proof (induction ivs arbitrary: lo)
  case (Cons v ivs)
  obtain a b where v: "v = (a, b)" by (cases v)
  have "(\<Union>x\<in>set (page_runs ps (v # ivs)). run_pages ps x)
      = (\<Union>x\<in>set_option (page_run ps a b). run_pages ps x) \<union> (\<Union>x\<in>set (page_runs ps ivs). run_pages ps x)"
    by (cases "page_run ps a b") (simp_all add: v)
  also have "\<dots> = (\<Union>x\<in>set (v # ivs). interval_pages ps x)"
    using Cons.prems Cons.IH [of "Suc (unat b)"] by (simp add: v run_pages_interval assms(2))
  finally show ?case .
qed simp

text \<open>A page whose bytes all lie in separated intervals lies in one of them.\<close>

lemma page_in_one_interval:
  assumes "separated lo ivs" and "0 < n" and "\<And>a. p \<le> a \<Longrightarrow> a < p + n \<Longrightarrow> in_intervals ivs a"
  shows "\<exists>x\<in>set ivs. unat (fst x) \<le> p \<and> p + n \<le> unat (snd x)"
  using assms
proof (induction ivs arbitrary: lo)
  case (Cons v ivs)
  have sep: "separated (Suc (unat (snd v))) ivs" using Cons.prems(1) by simp
  have out: "\<not> in_intervals ivs a" if "a \<le> unat (snd v)" for a using separated_lower [OF sep, of a] that by auto
  show ?case
  proof (cases "p < unat (snd v)")
    case True
    have "unat (fst v) \<le> p" using Cons.prems(3) [of p] out [of p] True assms(2) by auto
    moreover have "p + n \<le> unat (snd v)"
      using Cons.prems(3) [of "unat (snd v)"] out [of "unat (snd v)"] True by fastforce
    ultimately show ?thesis by auto
  next
    case False
    then have "in_intervals ivs a" if "p \<le> a" "a < p + n" for a using Cons.prems(3) [OF that] that by auto
    from Cons.IH [OF sep assms(2) this] show ?thesis by auto
  qed
next
  case Nil
  then show ?case by force
qed

lemma sweep_cursor_fit:
  "regions_fit rs \<longleftrightarrow> sweep_cursor rs c \<noteq> Inl S_overflow"
  "sweep_cursor rs c = Inl e \<Longrightarrow> e = S_overflow"
  by (induction rs arbitrary: c) (auto simp: regions_fit_def not_less[symmetric] split: if_splits)

lemma sweep_cursor_low:
  "sweep_cursor rs c = Inr c' \<Longrightarrow> c' \<le> c \<and> (\<forall>r\<in>set rs. mr_size r \<noteq> 0 \<longrightarrow> c' \<le> mr_base r)"
  by (induction rs arbitrary: c) (fastforce split: if_splits)+

text \<open>The runs the sweep reports, in order: what a callback that records them sees.\<close>

definition usable_runs :: "memory_region list \<Rightarrow> usize \<Rightarrow> (uptr \<times> usize) list" where
  "usable_runs rs ps = snd (sweep_usable rs ps (\<lambda>acc b n. (S_ok, acc @ [(b, n)])) [])"

primrec runs_sorted :: "usize \<Rightarrow> nat \<Rightarrow> (uptr \<times> usize) list \<Rightarrow> bool" where
  "runs_sorted ps lo [] \<longleftrightarrow> True"
| "runs_sorted ps lo (x # xs) \<longleftrightarrow> lo \<le> unat (fst x) \<and> 0 < snd x \<and> run_end ps x < 2 ^ 64
     \<and> runs_sorted ps (Suc (run_end ps x)) xs"

lemma emit_all_record: "emit_all (\<lambda>acc b n. (S_ok, acc @ [(b, n)])) xs acc = (S_ok, acc @ xs)"
  by (induction xs arbitrary: acc) auto

lemma runs_sorted_weaken: "runs_sorted ps lo xs \<Longrightarrow> lo' \<le> lo \<Longrightarrow> runs_sorted ps lo' xs"
  by (cases xs) auto

lemma runs_sorted_page_runs:
  "separated lo ivs \<Longrightarrow> ps \<noteq> 0 \<Longrightarrow> runs_sorted ps lo (page_runs ps ivs)"
proof (induction ivs arbitrary: lo)
  case (Cons v ivs)
  obtain a b where v: "v = (a, b)" by (cases v)
  have ab: "a < b" "lo \<le> unat a" "separated (Suc (unat b)) ivs" using Cons.prems by (auto simp: v)
  note IH = Cons.IH [OF ab(3) Cons.prems(2)]
  show ?case
  proof (cases "page_run ps a b")
    case None
    then show ?thesis using runs_sorted_weaken [OF IH, of lo] ab by (simp add: v word_less_nat_alt)
  next
    case (Some x)
    note x = page_run_Some [OF ab(1) Cons.prems(2) Some]
    have "run_end ps x < 2 ^ 64" using x(5) by (rule le_less_trans) simp
    then show ?thesis using Some x ab runs_sorted_weaken [OF IH, of "Suc (run_end ps x)"]
      by (simp add: v unat_gt_0 word_gt_0)
  qed
qed simp

definition page_size_ok :: "usize \<Rightarrow> bool" where
  "page_size_ok ps \<longleftrightarrow> ps \<noteq> 0 \<and> power_of_two_or_zero ps"

lemma sweep_usable_runs:
  assumes "page_size_ok ps" and fit: "regions_fit rs"
  obtains ivs where "separated 0 ivs" and "\<And>a. in_intervals ivs a \<longleftrightarrow> free_byte rs a"
    and "usable_runs rs ps = page_runs ps ivs"
    and "\<And>emit (s :: 's). sweep_usable rs ps emit s = emit_all emit (usable_runs rs ps) s"
proof -
  obtain c where c: "sweep_cursor rs (- 1) = Inr c"
    using fit sweep_cursor_fit [of rs "- 1"] by (cases "sweep_cursor rs (- 1)") auto
  let ?ivs = "free_intervals rs c None"
  have spec: "separated (unat c) ?ivs" "\<And>x. in_intervals ?ivs x \<longleftrightarrow> unat c \<le> x \<and> free_byte rs x"
    using free_intervals_spec [OF fit, of None c] by (auto simp: run_low_def)
  have low: "free_byte rs x \<Longrightarrow> unat c \<le> x" for x
    using sweep_cursor_low [OF c] covers_size
    by (force simp: free_byte_def covers_def word_le_nat_alt)
  have runs: "usable_runs rs ps = page_runs ps ?ivs"
    using assms(1) by (simp add: usable_runs_def sweep_usable_def page_size_ok_def c sweep_loop_emit_all emit_all_record)
  show ?thesis
  proof (rule that)
    show "separated 0 ?ivs" by (rule separated_weaken [OF spec(1)]) simp
    show "in_intervals ?ivs a \<longleftrightarrow> free_byte rs a" for a using spec(2) low by auto
    show "usable_runs rs ps = page_runs ps ?ivs" by (fact runs)
    show "sweep_usable rs ps emit s = emit_all emit (usable_runs rs ps) s" for emit and s :: 's
      using assms(1) by (simp add: sweep_usable_def page_size_ok_def c sweep_loop_emit_all runs)
  qed
qed

lemma sweep_usable_emits:
  assumes "page_size_ok ps" and "regions_fit rs"
  shows "sweep_usable rs ps emit s = emit_all emit (usable_runs rs ps) s"
  by (rule sweep_usable_runs [OF assms, where 's = 'a])

lemma usable_runs_sorted:
  assumes "page_size_ok ps" and "regions_fit rs"
  shows "runs_sorted ps 0 (usable_runs rs ps)"
proof (rule sweep_usable_runs [OF assms])
  fix ivs
  assume "separated 0 ivs" and "usable_runs rs ps = page_runs ps ivs"
  then show ?thesis using assms(1) by (simp add: runs_sorted_page_runs page_size_ok_def)
qed

lemma usable_runs_pages:
  assumes "page_size_ok ps" and "regions_fit rs"
  shows "(\<Union>x\<in>set (usable_runs rs ps). run_pages ps x)
    = {p. unat ps dvd p \<and> (\<forall>a. p \<le> a \<and> a < p + unat ps \<longrightarrow> free_byte rs a)}"
proof -
  have ps: "ps \<noteq> 0" "0 < unat ps" using assms(1) by (auto simp: page_size_ok_def unat_gt_0)
  obtain ivs where ivs: "separated 0 ivs" "\<And>a. in_intervals ivs a \<longleftrightarrow> free_byte rs a"
    "usable_runs rs ps = page_runs ps ivs"
    by (rule sweep_usable_runs [OF assms]) (rule that; assumption)
  have "p \<in> (\<Union>x\<in>set ivs. interval_pages ps x) \<longleftrightarrow>
      unat ps dvd p \<and> (\<forall>a. p \<le> a \<and> a < p + unat ps \<longrightarrow> in_intervals ivs a)" (is "?l \<longleftrightarrow> ?r") for p
  proof
    assume ?l
    then obtain x where "x \<in> set ivs" "unat ps dvd p" "unat (fst x) \<le> p" "p + unat ps \<le> unat (snd x)"
      by (auto simp: interval_pages_def)
    then show ?r by (auto simp: in_intervals_def intro!: bexI [of _ x])
  next
    assume r: ?r
    then have "\<exists>x\<in>set ivs. unat (fst x) \<le> p \<and> p + unat ps \<le> unat (snd x)"
      using page_in_one_interval [OF ivs(1) ps(2)] by blast
    with r show ?l by (auto simp: interval_pages_def)
  qed
  then show ?thesis unfolding ivs(3) run_pages_page_runs [OF ivs(1) ps(1)] ivs(2) by (intro set_eqI) simp
qed

section \<open>Properties\<close>

text \<open>
  C8: On a page size that is a power of two and regions that do not wrap, the sweep calls its
  callback on a list of non-empty runs in ascending order with a gap between neighbours. The
  pages of these runs are exactly the aligned pages all of whose bytes are usable and not
  claimed by any other kind of region; a callback failure stops the sweep there.
\<close>

theorem sweep_usable_exact:
  assumes "page_size_ok ps" and "regions_fit rs"
  shows "sweep_usable rs ps emit s = emit_all emit (usable_runs rs ps) s
    \<and> runs_sorted ps 0 (usable_runs rs ps)
    \<and> (\<Union>x\<in>set (usable_runs rs ps). run_pages ps x)
      = {p. unat ps dvd p \<and> (\<forall>a. p \<le> a \<and> a < p + unat ps \<longrightarrow> free_byte rs a)}"
  using sweep_usable_emits [OF assms] usable_runs_sorted [OF assms] usable_runs_pages [OF assms] by auto

definition example_regions :: "memory_region list" where
  "example_regions =
     [\<lparr>mr_base = 0, mr_size = 0x3800, mr_type = Usable\<rparr>,
      \<lparr>mr_base = 0x1000, mr_size = 0x10, mr_type = Reserved\<rparr>]"

lemma example_regions_runs: "usable_runs example_regions 4096 = [(0, 1), (0x2000, 1)]"
  by code_simp

theorem sweep_usable_exact_witness:
  "runs_sorted 4096 0 [(0, 1), (0x2000, 1)] \<and>
   (\<Union>x\<in>set [(0, 1), (0x2000, 1)]. run_pages 4096 x)
     = {p. unat (4096 :: usize) dvd p \<and> (\<forall>a. p \<le> a \<and> a < p + unat (4096 :: usize) \<longrightarrow> free_byte example_regions a)}"
proof -
  have "page_size_ok 4096" by (simp add: page_size_ok_def power_of_two_or_zero_def)
  moreover have "regions_fit example_regions"
    by (simp add: regions_fit_def example_regions_def)
  ultimately have "page_size_ok 4096" "regions_fit example_regions" by blast+
  from sweep_usable_exact [OF this, of "\<lambda>_ _ _. (S_ok, ())" "()"] show ?thesis
    unfolding example_regions_runs by (rule conjunct2)
qed

end
