(* ===== verification/OK_Frames.thy ===== *)
theory OK_Frames
  imports OK_Sweep OK_Charges
begin

text \<open>
  The physical frame allocator, \<^verbatim>\<open>include/ok/memory/frames.hpp\<close> and the \<open>FrameAllocator\<close>
  part of \<^verbatim>\<open>src/memory/memory.cpp\<close>. Addresses, generations, bitmap words and account
  units are 64-bit words; frame indices and counts, which initialization bounds by
  \<open>(2^64 - 9) / 17\<close>, are natural numbers. The metadata arrays are lists; where they are
  placed inside the caller's storage is the separate \<open>metadata_layout\<close>.
\<close>

section \<open>Data\<close>

record page_descriptor =
  pd_generation :: u64
  pd_references :: u32
  pd_pins :: u16
  pd_kind :: u8
  pd_flags :: u8

definition empty_descriptor :: page_descriptor where
  "empty_descriptor = \<lparr>pd_generation = 0, pd_references = 0, pd_pins = 0, pd_kind = 0, pd_flags = 0\<rparr>"

record frame_range =
  fr_base :: uptr
  fr_first :: nat
  fr_count :: nat

text \<open>An allocator is identified by a number; a null owner is \<^const>\<open>None\<close>.\<close>

record physical_frame =
  pf_address :: uptr
  pf_index :: nat
  pf_owner :: "nat option"
  pf_generation :: u64

record frame_allocator =
  fa_self :: nat
  fa_page_size :: usize
  fa_frame_count :: nat
  fa_used_count :: nat
  fa_hint :: nat
  fa_next_generation :: u64
  fa_bitmap :: "u64 list"
  fa_descriptors :: "page_descriptor list"
  fa_ranges :: "frame_range list"

definition frame_allocator_new :: "nat \<Rightarrow> frame_allocator" where
  "frame_allocator_new self =
     \<lparr>fa_self = self, fa_page_size = 4096, fa_frame_count = 0, fa_used_count = 0, fa_hint = 0,
      fa_next_generation = 1, fa_bitmap = [], fa_descriptors = [], fa_ranges = []\<rparr>"

section \<open>The lowest clear bit of a word\<close>

definition clear_bit_step :: "nat \<Rightarrow> u64 \<times> nat \<Rightarrow> u64 \<times> nat" where
  "clear_bit_step width s =
     (let mask = push_bit width 1 - 1 in
      if fst s AND mask = 0 then (drop_bit width (fst s), snd s + width) else s)"

definition lowest_clear_bit :: "u64 \<Rightarrow> nat" where
  "lowest_clear_bit bits = snd (fold clear_bit_step [32, 16, 8, 4, 2, 1] (NOT bits, 0))"

definition clear_inv :: "u64 \<Rightarrow> nat \<Rightarrow> u64 \<times> nat \<Rightarrow> bool" where
  "clear_inv bits n s \<longleftrightarrow> fst s = drop_bit (snd s) (NOT bits) \<and> (\<forall>j < snd s. bit bits j)
     \<and> (\<exists>j < n. bit (fst s) j) \<and> snd s + n \<le> 64"

lemma and_low_mask_zero: "((w :: u64) AND (push_bit n 1 - 1) = 0) \<longleftrightarrow> (\<forall>j < n. \<not> bit w j)"
proof -
  have "push_bit n 1 - 1 = (mask n :: u64)" by (simp add: mask_eq_exp_minus_1 push_bit_eq_mult)
  then have "(w AND (push_bit n 1 - 1) = 0) \<longleftrightarrow> take_bit n w = 0" by (simp add: take_bit_eq_mask)
  also have "\<dots> \<longleftrightarrow> (\<forall>j. \<not> (j < n \<and> bit w j))" by (simp add: bit_eq_iff bit_take_bit_iff) (metis bit_imp_le_length len64)
  finally show ?thesis by blast
qed

lemma clear_bit_step_inv:
  assumes "clear_inv bits (2 * n) s"
  shows "clear_inv bits n (clear_bit_step n s)"
proof (cases "fst s AND (push_bit n 1 - 1) = 0")
  case True
  then have low: "\<not> bit (fst s) j" if "j < n" for j using that True [unfolded and_low_mask_zero] by blast
  have below: "bit bits j" if "j < snd s + n" for j
  proof (cases "j < snd s")
    case False
    then have "\<not> bit (NOT bits) j" using low [of "j - snd s"] that assms by (simp add: clear_inv_def bit_drop_bit_eq)
    then show ?thesis using that assms by (simp add: clear_inv_def bit_not_iff)
  qed (use assms in \<open>simp add: clear_inv_def\<close>)
  obtain j where j: "j < 2 * n" "bit (fst s) j" using assms by (auto simp: clear_inv_def)
  then have "n \<le> j" using low not_le_imp_less by blast
  then have "\<exists>j < n. bit (drop_bit n (fst s)) j"
    using j by (intro exI [of _ "j - n"]) (simp add: bit_drop_bit_eq)
  then show ?thesis using True below assms by (simp add: clear_inv_def clear_bit_step_def Let_def add.commute)
next
  case False
  then have "\<exists>j < n. bit (fst s) j" unfolding and_low_mask_zero by blast
  then show ?thesis using False assms by (simp add: clear_inv_def clear_bit_step_def Let_def)
qed

lemma lowest_clear_bit_spec:
  assumes "bits \<noteq> - 1"
  shows "lowest_clear_bit bits < 64" and "\<not> bit bits (lowest_clear_bit bits)"
    and "j < lowest_clear_bit bits \<Longrightarrow> bit bits j"
proof -
  obtain k where "k < 64" "\<not> bit bits k"
    using assms by (auto simp: bit_eq_iff)
  then have "clear_inv bits (2 * 32) (NOT bits, 0)" by (auto simp: clear_inv_def bit_not_iff)
  then have "clear_inv bits 1 (fold clear_bit_step [32, 16, 8, 4, 2, 1] (NOT bits, 0))"
    using clear_bit_step_inv [of bits 32] clear_bit_step_inv [of bits 16] clear_bit_step_inv [of bits 8]
      clear_bit_step_inv [of bits 4] clear_bit_step_inv [of bits 2] clear_bit_step_inv [of bits 1] by simp
  then show "lowest_clear_bit bits < 64" "\<not> bit bits (lowest_clear_bit bits)"
    "j < lowest_clear_bit bits \<Longrightarrow> bit bits j"
    by (auto simp: clear_inv_def lowest_clear_bit_def bit_drop_bit_eq bit_not_iff)
qed

section \<open>Totals and metadata\<close>

record sweep_totals =
  st_frames :: usize
  st_ranges :: usize

definition count_emit :: "sweep_totals emitter" where
  "count_emit t base count =
     (if count > - 1 - st_frames t then (S_overflow, t)
      else (S_ok, t\<lparr>st_frames := st_frames t + count, st_ranges := st_ranges t + 1\<rparr>))"

definition metadata_alignment :: usize where
  "metadata_alignment = 8"

definition sizeof_page_descriptor :: usize where
  "sizeof_page_descriptor = 16"

definition sizeof_frame_range :: usize where
  "sizeof_frame_range = 24"

definition count_usable :: "memory_region list \<Rightarrow> usize \<Rightarrow> sweep_totals result" where
  "count_usable rs ps =
     (case sweep_usable rs ps count_emit \<lparr>st_frames = 0, st_ranges = 0\<rparr> of (st, t) \<Rightarrow>
        if st \<noteq> S_ok then Inl st
        else if st_frames t = 0 then Inl S_no_memory
        else if st_frames t > (- 1 - metadata_alignment) div (sizeof_page_descriptor + 1)
          \<or> st_ranges t > (- 1) div sizeof_frame_range div 2 then Inl S_overflow
        else Inr t)"

definition metadata_bytes_for :: "usize \<Rightarrow> usize \<Rightarrow> usize" where
  "metadata_bytes_for frames ranges =
     (frames + 63) div 64 * 8 + frames * sizeof_page_descriptor + ranges * sizeof_frame_range
       + metadata_alignment - 1"

definition metadata_bytes :: "memory_region list \<Rightarrow> usize \<Rightarrow> usize result" where
  "metadata_bytes rs ps =
     (case count_usable rs ps of Inl e \<Rightarrow> Inl e
      | Inr t \<Rightarrow> Inr (metadata_bytes_for (st_frames t) (st_ranges t)))"

text \<open>Where initialization puts the bitmap, the descriptors and the ranges.\<close>

definition metadata_layout :: "uptr \<Rightarrow> usize \<Rightarrow> usize \<Rightarrow> uptr \<times> uptr \<times> uptr" where
  "metadata_layout start frames ranges =
     (let aligned = (start + metadata_alignment - 1) AND NOT (metadata_alignment - 1);
          words = (frames + 63) div 64;
          descriptors = aligned + words * 8;
          range_array = descriptors + frames * sizeof_page_descriptor
      in (aligned, descriptors, range_array))"

section \<open>Initialization\<close>

definition bitmap_init :: "nat \<Rightarrow> u64 list" where
  "bitmap_init frames =
     (let words = (frames + 63) div 64; zeroes = replicate words 0 in
      if frames mod 64 \<noteq> 0 then zeroes[words - 1 := push_bit (frames mod 64) (- 1)] else zeroes)"

definition range_emit :: "(frame_range list \<times> nat) emitter" where
  "range_emit s base count =
     (S_ok, (fst s @ [\<lparr>fr_base = base, fr_first = snd s, fr_count = unat count\<rparr>], snd s + unat count))"

text \<open>The metadata span is its address, 0 for null, and its size.\<close>

definition fa_initialize ::
    "frame_allocator \<Rightarrow> memory_region list \<Rightarrow> usize \<Rightarrow> uptr \<times> usize \<Rightarrow> status_code \<times> frame_allocator" where
  "fa_initialize a rs ps metadata =
     (if fa_used_count a \<noteq> 0 then (S_busy, a)
      else (case count_usable rs ps of Inl e \<Rightarrow> (e, a)
        | Inr t \<Rightarrow>
            if fst metadata = 0 \<or> snd metadata < metadata_bytes_for (st_frames t) (st_ranges t)
            then (S_no_memory, a)
            else (let frames = unat (st_frames t) in
              (S_ok, a\<lparr>fa_bitmap := bitmap_init frames,
                 fa_descriptors := replicate frames empty_descriptor,
                 fa_ranges := fst (snd (sweep_usable rs ps range_emit ([], 0))),
                 fa_page_size := ps, fa_frame_count := frames, fa_hint := 0\<rparr>))))"

section \<open>Bitmap and address lookup\<close>

definition fa_used :: "frame_allocator \<Rightarrow> nat \<Rightarrow> bool" where
  "fa_used a i \<longleftrightarrow> drop_bit (i mod 64) (fa_bitmap a ! (i div 64)) AND 1 \<noteq> 0"

definition fa_mark :: "frame_allocator \<Rightarrow> nat \<Rightarrow> bool \<Rightarrow> frame_allocator" where
  "fa_mark a i b =
     (let mask = push_bit (i mod 64) 1; word = fa_bitmap a ! (i div 64) in
      a\<lparr>fa_bitmap := (fa_bitmap a)[i div 64 := (if b then word OR mask else word AND NOT mask)]\<rparr>)"

text \<open>The binary search both lookups run over the ranges.\<close>

datatype probe = Probe_left | Probe_here | Probe_right

function bsearch :: "(nat \<Rightarrow> probe) \<Rightarrow> nat \<Rightarrow> nat \<Rightarrow> nat option" where
  "bsearch cmp low high =
     (if low < high then
        (let middle = low + (high - low) div 2 in
         case cmp middle of
           Probe_left \<Rightarrow> bsearch cmp low middle
         | Probe_right \<Rightarrow> bsearch cmp (middle + 1) high
         | Probe_here \<Rightarrow> Some middle)
      else None)"
  by pat_completeness auto
termination
  by (relation "measure (\<lambda>(cmp, low, high). high - low)") auto

declare bsearch.simps [simp del]

definition index_probe :: "frame_range list \<Rightarrow> nat \<Rightarrow> nat \<Rightarrow> probe" where
  "index_probe ranges index middle =
     (let rng = ranges ! middle in
      if index < fr_first rng then Probe_left
      else if index - fr_first rng \<ge> fr_count rng then Probe_right
      else Probe_here)"

definition address_for :: "frame_allocator \<Rightarrow> nat \<Rightarrow> uptr" where
  "address_for a index =
     (case bsearch (index_probe (fa_ranges a) index) 0 (length (fa_ranges a)) of
        None \<Rightarrow> 0
      | Some m \<Rightarrow> (let rng = fa_ranges a ! m in
          fr_base rng + of_nat (index - fr_first rng) * fa_page_size a))"

definition address_probe :: "frame_range list \<Rightarrow> usize \<Rightarrow> uptr \<Rightarrow> nat \<Rightarrow> probe" where
  "address_probe ranges ps address middle =
     (let rng = ranges ! middle in
      if address < fr_base rng then Probe_left
      else if unat ((address - fr_base rng) div ps) \<ge> fr_count rng then Probe_right
      else Probe_here)"

definition index_of :: "frame_allocator \<Rightarrow> uptr \<Rightarrow> nat result" where
  "index_of a address =
     (if fa_frame_count a = 0 then Inl S_not_initialized
      else (case bsearch (address_probe (fa_ranges a) (fa_page_size a) address) 0 (length (fa_ranges a)) of
          None \<Rightarrow> Inl S_not_found
        | Some m \<Rightarrow> (let rng = fa_ranges a ! m in
            if (address - fr_base rng) mod fa_page_size a \<noteq> 0 then Inl S_invalid_argument
            else Inr (fr_first rng + unat ((address - fr_base rng) div fa_page_size a)))))"

section \<open>Handles\<close>

definition exact :: "frame_allocator \<Rightarrow> physical_frame \<Rightarrow> bool" where
  "exact a f \<longleftrightarrow> pf_owner f = Some (fa_self a) \<and> pf_index f < fa_frame_count a \<and> pf_generation f \<noteq> 0
     \<and> pd_generation (fa_descriptors a ! pf_index f) = pf_generation f
     \<and> address_for a (pf_index f) = pf_address f"

definition fa_descriptor :: "frame_allocator \<Rightarrow> physical_frame \<Rightarrow> page_descriptor option" where
  "fa_descriptor a f = (if exact a f then Some (fa_descriptors a ! pf_index f) else None)"

definition fa_live :: "frame_allocator \<Rightarrow> physical_frame \<Rightarrow> bool" where
  "fa_live a f \<longleftrightarrow> fa_descriptor a f \<noteq> None"

definition frame_at :: "frame_allocator \<Rightarrow> nat \<Rightarrow> physical_frame" where
  "frame_at a i = \<lparr>pf_address = address_for a i, pf_index = i, pf_owner = Some (fa_self a),
     pf_generation = pd_generation (fa_descriptors a ! i)\<rparr>"

definition handle_at :: "frame_allocator \<Rightarrow> nat \<Rightarrow> physical_frame result" where
  "handle_at a i =
     (if i \<ge> fa_frame_count a \<or> pd_generation (fa_descriptors a ! i) = 0 then Inl S_not_found
      else Inr (frame_at a i))"

section \<open>Allocation and release\<close>

definition fa_take :: "frame_allocator \<Rightarrow> nat \<Rightarrow> physical_frame \<times> frame_allocator" where
  "fa_take a i =
     (let a' = (fa_mark a i True)\<lparr>fa_used_count := fa_used_count a + 1,
        fa_descriptors := (fa_descriptors a)[i := empty_descriptor\<lparr>pd_generation := fa_next_generation a\<rparr>],
        fa_next_generation := fa_next_generation a + 1\<rparr>
      in (frame_at a' i, a'))"

definition word_order :: "frame_allocator \<Rightarrow> nat list" where
  "word_order a = map (\<lambda>scanned. (fa_hint a div 64 + scanned) mod length (fa_bitmap a))
     [0..<length (fa_bitmap a) + 1]"

definition fa_allocate :: "frame_allocator \<Rightarrow> physical_frame result \<times> frame_allocator" where
  "fa_allocate a =
     (if fa_frame_count a = 0 then (Inl S_not_initialized, a)
      else if fa_used_count a \<ge> fa_frame_count a then (Inl S_no_memory, a)
      else if fa_next_generation a = 0 then (Inl S_overflow, a)
      else (case find (\<lambda>word. fa_bitmap a ! word \<noteq> - 1) (word_order a) of
          None \<Rightarrow> (Inl S_no_memory, a)
        | Some word \<Rightarrow>
            (let index = word * 64 + lowest_clear_bit (fa_bitmap a ! word) in
             case fa_take a index of (f, a') \<Rightarrow>
               (Inr f, a'\<lparr>fa_hint := (if index + 1 < fa_frame_count a then index + 1 else 0)\<rparr>))))"

definition fa_allocate_charged ::
    "frame_allocator \<Rightarrow> charge_account \<Rightarrow> physical_frame result \<times> frame_allocator \<times> charge_account" where
  "fa_allocate_charged a acc =
     (if fa_frame_count a = 0 then (Inl S_not_initialized, a, acc)
      else (case charge acc 1 of (st, acc') \<Rightarrow>
        if st \<noteq> S_ok then (Inl st, a, acc')
        else (case fa_allocate a of
            (Inl e, a') \<Rightarrow> (Inl e, a', snd (uncharge acc' 1))
          | (Inr f, a') \<Rightarrow> (Inr f, a', acc'))))"

text \<open>The search inside one range; the result is the first index of the run.\<close>

primrec find_run ::
    "frame_allocator \<Rightarrow> nat \<Rightarrow> usize \<Rightarrow> frame_range \<Rightarrow> nat \<Rightarrow> nat list \<Rightarrow> nat option" where
  "find_run a count alignment rng run [] = None"
| "find_run a count alignment rng run (offset # offsets) =
     (let run' = (if fa_used a (fr_first rng + offset) then 0 else run + 1);
          first = fr_first rng + offset + 1 - count
      in if run' < count \<or> (alignment \<noteq> 0 \<and> address_for a first mod alignment \<noteq> 0)
         then find_run a count alignment rng run' offsets
         else Some first)"

primrec find_run_ranges :: "frame_allocator \<Rightarrow> nat \<Rightarrow> usize \<Rightarrow> frame_range list \<Rightarrow> nat option" where
  "find_run_ranges a count alignment [] = None"
| "find_run_ranges a count alignment (rng # ranges) =
     (case find_run a count alignment rng 0 [0..<fr_count rng] of
        None \<Rightarrow> find_run_ranges a count alignment ranges
      | Some first \<Rightarrow> Some first)"

definition take_run :: "frame_allocator \<Rightarrow> nat \<Rightarrow> nat \<Rightarrow> frame_allocator" where
  "take_run a first count = fold (\<lambda>i a. snd (fa_take a (first + i))) [0..<count] a"

definition fa_allocate_contiguous ::
    "frame_allocator \<Rightarrow> nat \<Rightarrow> charge_account \<Rightarrow> usize
      \<Rightarrow> physical_frame result \<times> frame_allocator \<times> charge_account" where
  "fa_allocate_contiguous a count acc alignment =
     (if fa_frame_count a = 0 then (Inl S_not_initialized, a, acc)
      else if count = 0 then (Inl S_invalid_argument, a, acc)
      else if alignment AND (alignment - 1) \<noteq> 0 then (Inl S_invalid_argument, a, acc)
      else if count > fa_frame_count a - fa_used_count a then (Inl S_no_memory, a, acc)
      else if of_nat count > - 1 - fa_next_generation a then (Inl S_overflow, a, acc)
      else (case find_run_ranges a count alignment (fa_ranges a) of
          None \<Rightarrow> (Inl S_no_memory, a, acc)
        | Some first \<Rightarrow>
            (case charge acc (of_nat count) of (st, acc') \<Rightarrow>
              if st \<noteq> S_ok then (Inl st, a, acc')
              else (let a' = take_run a first count in (handle_at a' first, a', acc')))))"

definition free_frame :: "nat \<Rightarrow> frame_allocator \<Rightarrow> frame_allocator" where
  "free_frame i a =
     (fa_mark a i False)\<lparr>fa_descriptors := (fa_descriptors a)[i := empty_descriptor]\<rparr>"

definition fa_release_contiguous ::
    "frame_allocator \<Rightarrow> physical_frame \<Rightarrow> nat \<Rightarrow> charge_account
      \<Rightarrow> status_code \<times> frame_allocator \<times> charge_account" where
  "fa_release_contiguous a f count acc =
     (if count = 0 \<or> \<not> exact a f \<or> count > fa_frame_count a - pf_index f then (S_invalid_argument, a, acc)
      else if list_ex (\<lambda>i. \<not> fa_used a (pf_index f + i)
          \<or> address_for a (pf_index f + i) \<noteq> pf_address f + of_nat i * fa_page_size a) [1..<count]
      then (S_invalid_argument, a, acc)
      else if ca_used acc < of_nat count then (S_invalid_argument, a, acc)
      else (let a' = fold (\<lambda>i. free_frame (pf_index f + i)) [0..<count] a in
        (S_ok, a'\<lparr>fa_used_count := fa_used_count a' - count,
                  fa_hint := (if pf_index f < fa_hint a' then pf_index f else fa_hint a')\<rparr>,
         snd (uncharge acc (of_nat count)))))"

definition fa_release :: "frame_allocator \<Rightarrow> physical_frame \<Rightarrow> status_code \<times> frame_allocator" where
  "fa_release a f =
     (if \<not> exact a f \<or> \<not> fa_used a (pf_index f) then (S_invalid_argument, a)
      else (let a' = free_frame (pf_index f) a in
        (S_ok, a'\<lparr>fa_used_count := fa_used_count a' - 1,
                  fa_hint := (if pf_index f < fa_hint a' then pf_index f else fa_hint a')\<rparr>)))"

definition fa_release_charged ::
    "frame_allocator \<Rightarrow> physical_frame \<Rightarrow> charge_account \<Rightarrow> status_code \<times> frame_allocator \<times> charge_account" where
  "fa_release_charged a f acc =
     (if \<not> exact a f \<or> \<not> fa_used a (pf_index f) then (S_invalid_argument, a, acc)
      else if ca_used acc = 0 then (S_invalid_argument, a, acc)
      else (case fa_release a f of (st, a') \<Rightarrow>
        if st \<noteq> S_ok then (st, a', acc) else (S_ok, a', snd (uncharge acc 1))))"

end
