(* ===== verification/OK_Frame_Proofs.thy ===== *)
theory OK_Frame_Proofs
  imports OK_Frames
begin

text \<open>
  Correctness of the frame allocator: the lookup between indices and addresses, the
  invariant of the allocator and its preservation, allocation and release, accounting, and
  the guarantee that a released handle stays dead.
\<close>

section \<open>Binary search\<close>

definition sorted_probe :: "(nat \<Rightarrow> probe) \<Rightarrow> nat \<Rightarrow> bool" where
  "sorted_probe cmp n \<longleftrightarrow> (\<forall>i j. i < j \<and> j < n \<longrightarrow> cmp i = Probe_right \<or> cmp j = Probe_left)"

lemma sorted_probeD:
  "sorted_probe cmp n \<Longrightarrow> i < j \<Longrightarrow> j < n \<Longrightarrow> cmp i = Probe_right \<or> cmp j = Probe_left"
  by (simp add: sorted_probe_def)

lemma bsearch_Some: "bsearch cmp low high = Some k \<Longrightarrow> low \<le> k \<and> k < high \<and> cmp k = Probe_here"
proof (induction cmp low high rule: bsearch.induct)
  case (1 cmp low high)
  let ?m = "low + (high - low) div 2"
  show ?case
  proof (cases "low < high")
    case True
    then show ?thesis
      using 1 by (cases "cmp ?m") (simp_all add: bsearch.simps [of cmp low high] Let_def, fastforce+)
  next
    case False
    then show ?thesis using "1.prems" by (simp add: bsearch.simps)
  qed
qed

lemma bsearch_found:
  "sorted_probe cmp n \<Longrightarrow> low \<le> k \<Longrightarrow> k < high \<Longrightarrow> high \<le> n \<Longrightarrow> cmp k = Probe_here \<Longrightarrow>
   bsearch cmp low high = Some k"
proof (induction cmp low high rule: bsearch.induct)
  case (1 cmp low high)
  let ?m = "low + (high - low) div 2"
  have lh: "low < high" "?m < high" using "1.prems" by auto
  consider "k = ?m" | "k < ?m" | "?m < k" by linarith
  then show ?case
  proof cases
    case 1
    then show ?thesis using lh "1.prems" by (subst bsearch.simps) (simp add: Let_def)
  next
    case 2
    then have "cmp ?m = Probe_left" using sorted_probeD [OF "1.prems"(1) 2] "1.prems" lh by simp
    then show ?thesis using 2 lh "1.prems" "1.IH"(1) [OF lh(1) refl] by (subst bsearch.simps) (simp add: Let_def)
  next
    case 3
    then have "cmp ?m = Probe_right" using sorted_probeD [OF "1.prems"(1) 3] "1.prems" lh by simp
    then show ?thesis using 3 lh "1.prems" "1.IH"(2) [OF lh(1) refl] by (subst bsearch.simps) (simp add: Let_def)
  qed
qed

lemma bsearch_eq_Some:
  "sorted_probe cmp n \<Longrightarrow> bsearch cmp 0 n = Some k \<longleftrightarrow> k < n \<and> cmp k = Probe_here"
  using bsearch_Some [of cmp 0 n k] bsearch_found [of cmp n 0 k n] by auto

section \<open>Ranges\<close>

primrec ranges_ok :: "usize \<Rightarrow> nat \<Rightarrow> nat \<Rightarrow> frame_range list \<Rightarrow> bool" where
  "ranges_ok ps lo i [] \<longleftrightarrow> True"
| "ranges_ok ps lo i (r # rs) \<longleftrightarrow> lo \<le> unat (fr_base r) \<and> fr_first r = i \<and> 0 < fr_count r
     \<and> unat (fr_base r) + fr_count r * unat ps < 2 ^ 64
     \<and> ranges_ok ps (Suc (unat (fr_base r) + fr_count r * unat ps)) (i + fr_count r) rs"

definition ranges_total :: "frame_range list \<Rightarrow> nat" where
  "ranges_total rs = sum_list (map fr_count rs)"

lemma ranges_total_simps [simp]:
  "ranges_total [] = 0" "ranges_total (r # rs) = fr_count r + ranges_total rs"
  by (simp_all add: ranges_total_def)

lemma ranges_ok_nth:
  "ranges_ok ps lo i rs \<Longrightarrow> m < length rs \<Longrightarrow>
   lo \<le> unat (fr_base (rs ! m)) \<and> i \<le> fr_first (rs ! m) \<and> 0 < fr_count (rs ! m)
   \<and> unat (fr_base (rs ! m)) + fr_count (rs ! m) * unat ps < 2 ^ 64
   \<and> fr_first (rs ! m) + fr_count (rs ! m) \<le> i + ranges_total rs"
proof (induction rs arbitrary: lo i m)
  case (Cons r rs)
  show ?case
  proof (cases m)
    case (Suc k)
    then show ?thesis using Cons.prems Cons.IH [of "Suc (unat (fr_base r) + fr_count r * unat ps)" "i + fr_count r" k]
      by (auto dest: Suc_leD le_trans)
  qed (use Cons.prems in auto)
qed simp

lemma ranges_ok_order:
  "ranges_ok ps lo i rs \<Longrightarrow> m < k \<Longrightarrow> k < length rs \<Longrightarrow>
   fr_first (rs ! m) + fr_count (rs ! m) \<le> fr_first (rs ! k)
   \<and> unat (fr_base (rs ! m)) + fr_count (rs ! m) * unat ps < unat (fr_base (rs ! k))"
proof (induction rs arbitrary: lo i m k)
  case (Cons r rs)
  obtain k' where k: "k = Suc k'" using Cons.prems(2) by (cases k) auto
  show ?case
  proof (cases m)
    case 0
    then show ?thesis
      using Cons.prems ranges_ok_nth [of ps "Suc (unat (fr_base r) + fr_count r * unat ps)" "i + fr_count r" rs k']
      by (simp add: k)
  next
    case (Suc m')
    then show ?thesis using Cons.prems Cons.IH [of _ _ m' k'] by (simp add: k) blast
  qed
qed simp

lemma ranges_ok_find:
  "ranges_ok ps lo i rs \<Longrightarrow> i \<le> x \<Longrightarrow> x < i + ranges_total rs \<Longrightarrow>
   \<exists>m < length rs. fr_first (rs ! m) \<le> x \<and> x < fr_first (rs ! m) + fr_count (rs ! m)"
proof (induction rs arbitrary: lo i)
  case (Cons r rs)
  show ?case
  proof (cases "x < i + fr_count r")
    case True
    then show ?thesis using Cons.prems by (intro exI [of _ 0]) simp
  next
    case False
    then obtain m where "m < length rs" "fr_first (rs ! m) \<le> x" "x < fr_first (rs ! m) + fr_count (rs ! m)"
      using Cons.prems Cons.IH [of "Suc (unat (fr_base r) + fr_count r * unat ps)" "i + fr_count r"] by auto
    then show ?thesis by (intro exI [of _ "Suc m"]) simp
  qed
qed simp

section \<open>Indices and addresses\<close>

definition fa_ranges_wf :: "frame_allocator \<Rightarrow> bool" where
  "fa_ranges_wf a \<longleftrightarrow> fa_page_size a \<noteq> 0 \<and> ranges_ok (fa_page_size a) 0 0 (fa_ranges a)
     \<and> ranges_total (fa_ranges a) = fa_frame_count a"

lemma index_probe_sorted:
  "ranges_ok ps lo i rs \<Longrightarrow> sorted_probe (index_probe rs x) (length rs)"
  unfolding sorted_probe_def
proof (intro allI impI)
  fix m k
  assume ok: "ranges_ok ps lo i rs" and mk: "m < k \<and> k < length rs"
  have "fr_first (rs ! m) + fr_count (rs ! m) \<le> fr_first (rs ! k)" using ranges_ok_order [OF ok] mk by simp
  then show "index_probe rs x m = Probe_right \<or> index_probe rs x k = Probe_left"
    by (cases "x < fr_first (rs ! k)") (simp_all add: index_probe_def Let_def)
qed

lemma address_for_range:
  assumes wf: "fa_ranges_wf a" and x: "x < fa_frame_count a"
  obtains m where "m < length (fa_ranges a)"
    and "fr_first (fa_ranges a ! m) \<le> x" and "x < fr_first (fa_ranges a ! m) + fr_count (fa_ranges a ! m)"
    and "address_for a x = fr_base (fa_ranges a ! m) + of_nat (x - fr_first (fa_ranges a ! m)) * fa_page_size a"
    and "unat (address_for a x) =
      unat (fr_base (fa_ranges a ! m)) + (x - fr_first (fa_ranges a ! m)) * unat (fa_page_size a)"
proof -
  let ?rs = "fa_ranges a" and ?P = "unat (fa_page_size a)"
  have ok: "ranges_ok (fa_page_size a) 0 0 ?rs" and P: "0 < ?P" and t: "ranges_total ?rs = fa_frame_count a"
    using wf by (auto simp: fa_ranges_wf_def unat_gt_0)
  obtain m where m: "m < length ?rs" "fr_first (?rs ! m) \<le> x" "x < fr_first (?rs ! m) + fr_count (?rs ! m)"
    using ranges_ok_find [OF ok, of x] x t by auto
  let ?k = "x - fr_first (?rs ! m)"
  have "bsearch (index_probe ?rs x) 0 (length ?rs) = Some m"
    using m by (subst bsearch_eq_Some [OF index_probe_sorted [OF ok]]) (auto simp: index_probe_def Let_def)
  then have eq: "address_for a x = fr_base (?rs ! m) + of_nat ?k * fa_page_size a"
    by (simp add: address_for_def Let_def)
  have "?k * ?P \<le> fr_count (?rs ! m) * ?P" using m by (intro mult_right_mono) auto
  then have "unat (address_for a x) = unat (fr_base (?rs ! m)) + ?k * ?P"
    unfolding eq using ranges_ok_nth [OF ok m(1)] P by (intro unat_add_mult) linarith+
  with that [OF m eq] show ?thesis .
qed

lemma address_probe_sorted:
  assumes ok: "ranges_ok ps lo i rs" and ps: "0 < unat ps"
  shows "sorted_probe (address_probe rs ps x) (length rs)"
  unfolding sorted_probe_def
proof (intro allI impI)
  fix m k
  assume mk: "m < k \<and> k < length rs"
  let ?bm = "fr_base (rs ! m)" and ?bk = "fr_base (rs ! k)"
  have lt: "unat ?bm + fr_count (rs ! m) * unat ps < unat ?bk" using ranges_ok_order [OF ok] mk by simp
  show "address_probe rs ps x m = Probe_right \<or> address_probe rs ps x k = Probe_left"
  proof (cases "x < ?bk")
    case False
    then have "unat (x - ?bm) = unat x - unat ?bm" "fr_count (rs ! m) * unat ps \<le> unat x - unat ?bm" "?bm \<le> x"
      using lt by (auto simp: unat_sub word_le_nat_alt word_less_nat_alt)
    then have "fr_count (rs ! m) \<le> unat ((x - ?bm) div ps)"
      using ps by (simp add: unat_div less_eq_div_iff_mult_less_eq)
    then show ?thesis using \<open>?bm \<le> x\<close> by (simp add: address_probe_def Let_def leD)
  qed (simp add: address_probe_def Let_def)
qed

lemma index_of_address_for:
  assumes wf: "fa_ranges_wf a" and x: "x < fa_frame_count a"
  shows "index_of a (address_for a x) = Inr x"
proof -
  let ?rs = "fa_ranges a" and ?P = "unat (fa_page_size a)"
  have ok: "ranges_ok (fa_page_size a) 0 0 ?rs" and P: "0 < ?P"
    using wf by (auto simp: fa_ranges_wf_def unat_gt_0)
  obtain m where m: "m < length ?rs" "fr_first (?rs ! m) \<le> x" "x < fr_first (?rs ! m) + fr_count (?rs ! m)"
    "unat (address_for a x) = unat (fr_base (?rs ! m)) + (x - fr_first (?rs ! m)) * ?P"
    by (rule address_for_range [OF wf x])
  have le: "fr_base (?rs ! m) \<le> address_for a x" using m(4) by (simp add: word_le_nat_alt)
  then have d: "unat (address_for a x - fr_base (?rs ! m)) = (x - fr_first (?rs ! m)) * ?P"
    using m(4) by (simp add: unat_sub)
  have "bsearch (address_probe ?rs (fa_page_size a) (address_for a x)) 0 (length ?rs) = Some m"
    using m P le by (subst bsearch_eq_Some [OF address_probe_sorted [OF ok P]])
      (auto simp: address_probe_def Let_def unat_div d)
  moreover have "(address_for a x - fr_base (?rs ! m)) mod fa_page_size a = 0"
    by (simp add: word_unat_eq_iff unat_mod d)
  ultimately show ?thesis using x P m(2) by (simp add: index_of_def Let_def unat_div d)
qed

end
