(* ===== verification/OK_Frame_Ops.thy ===== *)
theory OK_Frame_Ops
  imports OK_Frame_Proofs
begin

text \<open>
  The allocator invariant, its preservation by every operation, what each operation does,
  and the life of a handle.
\<close>

section \<open>The bitmap\<close>

named_theorems fa_simps

abbreviation bitmap_size :: "frame_allocator \<Rightarrow> nat" where
  "bitmap_size a \<equiv> 64 * length (fa_bitmap a)"

lemma fa_mark_fields [fa_simps]:
  "fa_self (fa_mark a i b) = fa_self a" "fa_page_size (fa_mark a i b) = fa_page_size a"
  "fa_frame_count (fa_mark a i b) = fa_frame_count a" "fa_used_count (fa_mark a i b) = fa_used_count a"
  "fa_hint (fa_mark a i b) = fa_hint a" "fa_next_generation (fa_mark a i b) = fa_next_generation a"
  "fa_descriptors (fa_mark a i b) = fa_descriptors a" "fa_ranges (fa_mark a i b) = fa_ranges a"
  "length (fa_bitmap (fa_mark a i b)) = length (fa_bitmap a)"
  by (simp_all add: fa_mark_def Let_def)

lemma fa_used_bit: "fa_used a i \<longleftrightarrow> bit (fa_bitmap a ! (i div 64)) (i mod 64)"
  by (simp add: fa_used_def bit_test)

lemma fa_mark_eq:
  "fa_mark a i b = a\<lparr>fa_bitmap := (fa_bitmap a)[i div 64 :=
     (if b then set_bit (i mod 64) (fa_bitmap a ! (i div 64))
      else unset_bit (i mod 64) (fa_bitmap a ! (i div 64)))]\<rparr>"
  unfolding fa_mark_def Let_def or_bit_set and_not_bit_unset ..

lemma fa_used_mark:
  assumes "i < bitmap_size a"
  shows "fa_used (fa_mark a i b) j = (if j = i then b else fa_used a j)"
proof (cases "j div 64 = i div 64")
  case True
  have "i div 64 < length (fa_bitmap a)" using assms by simp
  moreover have "j = i \<longleftrightarrow> j mod 64 = i mod 64" using True by (metis div_mult_mod_eq)
  ultimately show ?thesis using True
    by (simp add: fa_used_bit fa_mark_eq bit_set_bit_iff bit_unset_bit_iff)
next
  case False
  then have "j \<noteq> i" by auto
  then show ?thesis using False by (simp add: fa_used_bit fa_mark_def Let_def)
qed

interpretation fb: bit_array fa_used fa_mark bitmap_size
  by unfold_locales (simp_all add: fa_used_mark fa_simps)

text \<open>Updates of the fields the bitmap does not live in.\<close>

lemma fa_used_update [fa_simps]:
  "fa_used (a\<lparr>fa_used_count := n\<rparr>) = fa_used a" "fa_used (a\<lparr>fa_hint := n\<rparr>) = fa_used a"
  "fa_used (a\<lparr>fa_descriptors := ds\<rparr>) = fa_used a" "fa_used (a\<lparr>fa_next_generation := g\<rparr>) = fa_used a"
  by (simp_all add: fun_eq_iff fa_used_def)

lemma address_for_cong:
  "fa_ranges b = fa_ranges a \<Longrightarrow> fa_page_size b = fa_page_size a \<Longrightarrow> address_for b = address_for a"
  by (simp add: fun_eq_iff address_for_def cong: option.case_cong)

section \<open>The invariant\<close>

definition gen_at :: "frame_allocator \<Rightarrow> nat \<Rightarrow> u64" where
  "gen_at a i = pd_generation (fa_descriptors a ! i)"

definition used_set :: "frame_allocator \<Rightarrow> nat set" where
  "used_set a = {i. i < fa_frame_count a \<and> fa_used a i}"

text \<open>
  The tables have the sizes initialization gives them; padding bits are set; a frame is
  marked used exactly when it carries a generation; the counter counts the used frames; and
  no frame carries a generation that has not been issued yet. \<open>fa_next_generation - 1\<close> is the
  last generation issued, also when the counter has wrapped to zero.
\<close>

definition fa_shape :: "frame_allocator \<Rightarrow> bool" where
  "fa_shape a \<longleftrightarrow> fa_ranges_wf a \<and> length (fa_descriptors a) = fa_frame_count a
     \<and> length (fa_bitmap a) = (fa_frame_count a + 63) div 64 \<and> fa_frame_count a < 2 ^ 64"

definition fa_marks :: "frame_allocator \<Rightarrow> bool" where
  "fa_marks a \<longleftrightarrow> (\<forall>i. fa_frame_count a \<le> i \<and> i < bitmap_size a \<longrightarrow> fa_used a i)
     \<and> (\<forall>i < fa_frame_count a. fa_used a i = (gen_at a i \<noteq> 0))
     \<and> (\<forall>i < fa_frame_count a. gen_at a i \<le> fa_next_generation a - 1)"

definition fa_wf :: "frame_allocator \<Rightarrow> bool" where
  "fa_wf a \<longleftrightarrow> fa_shape a \<and> fa_marks a \<and> fa_used_count a = card (used_set a)"

text \<open>
  The part of the invariant that survives even the reuse of generations: a frame that carries
  a generation is marked used, and the counter counts the used frames.
\<close>

definition fa_counted :: "frame_allocator \<Rightarrow> bool" where
  "fa_counted a \<longleftrightarrow> fa_shape a \<and> (\<forall>i. fa_frame_count a \<le> i \<and> i < bitmap_size a \<longrightarrow> fa_used a i)
     \<and> (\<forall>i < fa_frame_count a. gen_at a i \<noteq> 0 \<longrightarrow> fa_used a i) \<and> fa_used_count a = card (used_set a)"

lemma fa_wf_counted: "fa_wf a \<Longrightarrow> fa_counted a"
  by (simp add: fa_wf_def fa_counted_def fa_marks_def)

lemma finite_used_set [simp]: "finite (used_set a)"
  by (simp add: used_set_def)

lemma used_set_le: "card (used_set a) \<le> fa_frame_count a"
  using card_mono [of "{..<fa_frame_count a}" "used_set a"] by (auto simp: used_set_def)

lemma fa_counted_used_le: "fa_counted a \<Longrightarrow> fa_used_count a \<le> fa_frame_count a"
  by (simp add: fa_counted_def used_set_le)

lemmas fa_wf_used_le = fa_counted_used_le [OF fa_wf_counted]

lemma shape_index: "fa_shape a \<Longrightarrow> i < fa_frame_count a \<Longrightarrow> i < bitmap_size a"
  by (simp add: fa_shape_def)

lemma fa_wf_new: "fa_wf (frame_allocator_new self)"
  by (simp add: fa_wf_def fa_shape_def fa_marks_def fa_ranges_wf_def frame_allocator_new_def used_set_def)

section \<open>Taking a frame\<close>

lemma fa_take_fields [fa_simps]:
  "fa_self (snd (fa_take a i)) = fa_self a" "fa_page_size (snd (fa_take a i)) = fa_page_size a"
  "fa_frame_count (snd (fa_take a i)) = fa_frame_count a"
  "fa_used_count (snd (fa_take a i)) = fa_used_count a + 1"
  "fa_hint (snd (fa_take a i)) = fa_hint a"
  "fa_next_generation (snd (fa_take a i)) = fa_next_generation a + 1"
  "fa_ranges (snd (fa_take a i)) = fa_ranges a"
  "length (fa_bitmap (snd (fa_take a i))) = length (fa_bitmap a)"
  "length (fa_descriptors (snd (fa_take a i))) = length (fa_descriptors a)"
  by (simp_all add: fa_take_def Let_def fa_simps)

lemma fa_used_take:
  "i < bitmap_size a \<Longrightarrow> fa_used (snd (fa_take a i)) j \<longleftrightarrow> j = i \<or> fa_used a j"
  by (simp add: fa_take_def Let_def fa_simps fa_used_mark)

lemma gen_at_take:
  "i < length (fa_descriptors a) \<Longrightarrow>
   gen_at (snd (fa_take a i)) j = (if j = i then fa_next_generation a else gen_at a j)"
  by (simp add: gen_at_def fa_take_def Let_def)

lemma fst_fa_take: "fst (fa_take a i) = frame_at (snd (fa_take a i)) i"
  by (simp add: fa_take_def Let_def)

lemma fa_ranges_wf_cong:
  "fa_ranges b = fa_ranges a \<Longrightarrow> fa_page_size b = fa_page_size a \<Longrightarrow>
   fa_frame_count b = fa_frame_count a \<Longrightarrow> fa_ranges_wf b = fa_ranges_wf a"
  by (simp add: fa_ranges_wf_def)

lemma fa_shape_take: "fa_shape a \<Longrightarrow> fa_shape (snd (fa_take a i))"
  using fa_ranges_wf_cong [of "snd (fa_take a i)" a] by (simp add: fa_shape_def fa_simps)

lemma le_pred_succ: "(g :: u64) \<le> n - 1 \<Longrightarrow> n \<noteq> 0 \<Longrightarrow> g \<le> n"
  by (simp add: word_le_nat_alt unat_minus_one)

lemma used_set_take:
  assumes "fa_shape a" and "i < fa_frame_count a"
  shows "used_set (snd (fa_take a i)) = insert i (used_set a)"
  using assms fa_used_take [OF shape_index [OF assms]] by (auto simp: used_set_def fa_simps)

lemma fa_wf_take:
  assumes wf: "fa_wf a" and i: "i < fa_frame_count a" "\<not> fa_used a i" and g: "fa_next_generation a \<noteq> 0"
  shows "fa_wf (snd (fa_take a i))"
proof -
  have sh: "fa_shape a" and mk: "fa_marks a" and n: "fa_used_count a = card (used_set a)"
    using wf by (auto simp: fa_wf_def)
  have len: "i < length (fa_descriptors a)" using sh i by (simp add: fa_shape_def)
  note used = fa_used_take [OF shape_index [OF sh i(1)]] and gen = gen_at_take [OF len]
  have "fa_marks (snd (fa_take a i))"
    using mk g by (auto simp: fa_marks_def used gen fa_simps le_pred_succ)
  moreover have "i \<notin> used_set a" using i by (simp add: used_set_def)
  ultimately show ?thesis
    using fa_shape_take [OF sh] used_set_take [OF sh i(1)] n by (simp add: fa_wf_def fa_simps)
qed

lemma fa_counted_take:
  assumes ct: "fa_counted a" and i: "i < fa_frame_count a" "\<not> fa_used a i"
  shows "fa_counted (snd (fa_take a i))"
proof -
  have sh: "fa_shape a" and n: "fa_used_count a = card (used_set a)" using ct by (auto simp: fa_counted_def)
  have len: "i < length (fa_descriptors a)" using sh i by (simp add: fa_shape_def)
  have "i \<notin> used_set a" using i by (simp add: used_set_def)
  then show ?thesis
    using ct fa_shape_take [OF sh, of i] used_set_take [OF sh i(1)]
    by (auto simp: fa_counted_def fa_simps gen_at_take [OF len] fa_used_take [OF shape_index [OF sh i(1)]])
qed

section \<open>Releasing a frame\<close>

lemma free_frame_fields [fa_simps]:
  "fa_self (free_frame i a) = fa_self a" "fa_page_size (free_frame i a) = fa_page_size a"
  "fa_frame_count (free_frame i a) = fa_frame_count a"
  "fa_used_count (free_frame i a) = fa_used_count a"
  "fa_hint (free_frame i a) = fa_hint a"
  "fa_next_generation (free_frame i a) = fa_next_generation a"
  "fa_ranges (free_frame i a) = fa_ranges a"
  "length (fa_bitmap (free_frame i a)) = length (fa_bitmap a)"
  "length (fa_descriptors (free_frame i a)) = length (fa_descriptors a)"
  by (simp_all add: free_frame_def fa_simps)

definition free_run :: "frame_allocator \<Rightarrow> nat \<Rightarrow> nat \<Rightarrow> frame_allocator" where
  "free_run a first n = fold (\<lambda>i. free_frame (first + i)) [0..<n] a"

lemma free_run_Suc: "free_run a first (Suc n) = free_frame (first + n) (free_run a first n)"
  by (simp add: free_run_def)

lemma free_run_0 [simp]: "free_run a first 0 = a"
  by (simp add: free_run_def)

lemma free_run_fields [fa_simps]:
  "fa_self (free_run a first n) = fa_self a" "fa_page_size (free_run a first n) = fa_page_size a"
  "fa_frame_count (free_run a first n) = fa_frame_count a"
  "fa_used_count (free_run a first n) = fa_used_count a"
  "fa_hint (free_run a first n) = fa_hint a"
  "fa_next_generation (free_run a first n) = fa_next_generation a"
  "fa_ranges (free_run a first n) = fa_ranges a"
  "length (fa_bitmap (free_run a first n)) = length (fa_bitmap a)"
  "length (fa_descriptors (free_run a first n)) = length (fa_descriptors a)"
  by (induction n) (simp_all add: free_run_Suc fa_simps)

lemma free_run_used:
  "fa_shape a \<Longrightarrow> first + n \<le> fa_frame_count a \<Longrightarrow>
   fa_used (free_run a first n) j \<longleftrightarrow> fa_used a j \<and> j \<notin> {first..<first + n}"
proof (induction n)
  case (Suc n)
  have "first + n < bitmap_size (free_run a first n)"
    using Suc.prems shape_index [of a "first + n"] by (simp add: fa_simps)
  then show ?case using Suc by (auto simp: free_run_Suc free_frame_def fa_simps fa_used_mark)
qed simp

lemma free_run_gen:
  "fa_shape a \<Longrightarrow> first + n \<le> fa_frame_count a \<Longrightarrow>
   gen_at (free_run a first n) j = (if j \<in> {first..<first + n} then 0 else gen_at a j)"
proof (induction n)
  case (Suc n)
  have "first + n < length (fa_descriptors (free_run a first n))"
    using Suc.prems by (simp add: fa_simps fa_shape_def)
  then show ?case using Suc
    by (auto simp: free_run_Suc free_frame_def gen_at_def fa_simps nth_list_update empty_descriptor_def)
qed simp

text \<open>What both releases leave behind; \<open>hint\<close> is whatever the hint becomes.\<close>

definition after_release :: "frame_allocator \<Rightarrow> nat \<Rightarrow> nat \<Rightarrow> nat \<Rightarrow> frame_allocator" where
  "after_release a first n hint = (free_run a first n)\<lparr>fa_used_count := fa_used_count a - n, fa_hint := hint\<rparr>"

lemma after_release_fields [fa_simps]:
  "fa_self (after_release a first n h) = fa_self a"
  "fa_page_size (after_release a first n h) = fa_page_size a"
  "fa_frame_count (after_release a first n h) = fa_frame_count a"
  "fa_used_count (after_release a first n h) = fa_used_count a - n"
  "fa_next_generation (after_release a first n h) = fa_next_generation a"
  "fa_ranges (after_release a first n h) = fa_ranges a"
  "length (fa_bitmap (after_release a first n h)) = length (fa_bitmap a)"
  "length (fa_descriptors (after_release a first n h)) = length (fa_descriptors a)"
  "gen_at (after_release a first n h) = gen_at (free_run a first n)"
  "fa_used (after_release a first n h) = fa_used (free_run a first n)"
  by (simp_all add: after_release_def fa_simps gen_at_def fun_eq_iff)

lemma fa_counted_after_release:
  assumes ct: "fa_counted a" and n: "first + n \<le> fa_frame_count a" and used: "{first..<first + n} \<subseteq> used_set a"
  shows "fa_counted (after_release a first n h)"
    and "used_set (after_release a first n h) = used_set a - {first..<first + n}"
proof -
  have sh: "fa_shape a" and c: "fa_used_count a = card (used_set a)" using ct by (auto simp: fa_counted_def)
  let ?b = "after_release a first n h"
  show us: "used_set ?b = used_set a - {first..<first + n}"
    by (auto simp: used_set_def fa_simps free_run_used [OF sh n])
  have "fa_shape ?b" using sh fa_ranges_wf_cong [of ?b a] by (simp add: fa_shape_def fa_simps)
  moreover have "card (used_set ?b) = card (used_set a) - n"
    unfolding us using used by (subst card_Diff_subset) simp_all
  ultimately show "fa_counted ?b"
    using ct c n by (auto simp: fa_counted_def fa_simps free_run_used [OF sh n] free_run_gen [OF sh n])
qed

lemma fa_wf_after_release:
  assumes wf: "fa_wf a" and n: "first + n \<le> fa_frame_count a" and used: "{first..<first + n} \<subseteq> used_set a"
  shows "fa_wf (after_release a first n h)"
    and "used_set (after_release a first n h) = used_set a - {first..<first + n}"
proof -
  have sh: "fa_shape a" and mk: "fa_marks a" using wf by (auto simp: fa_wf_def)
  let ?b = "after_release a first n h"
  note ct = fa_counted_after_release [OF fa_wf_counted [OF wf] n used, of h]
  show "used_set ?b = used_set a - {first..<first + n}" by (rule ct(2))
  have "fa_marks ?b"
    using mk n by (auto simp: fa_marks_def fa_simps free_run_used [OF sh n] free_run_gen [OF sh n])
  then show "fa_wf ?b" using ct(1) by (simp add: fa_wf_def fa_counted_def)
qed

lemma fa_release_eq:
  "fa_release a f =
    (if \<not> exact a f \<or> \<not> fa_used a (pf_index f) then (S_invalid_argument, a)
     else (S_ok, after_release a (pf_index f) 1 (min (pf_index f) (fa_hint a))))"
  by (simp add: fa_release_def Let_def after_release_def free_run_def fa_simps min_def)

section \<open>Where allocation finds a frame\<close>

lemma rotation_covers:
  fixes h n w :: nat
  assumes "w < n"
  obtains s where "s < n" and "(h + s) mod n = w"
proof (rule that)
  let ?s = "(w + (n - h mod n)) mod n"
  show "?s < n" using assms by simp
  have "(h + ?s) mod n = (h mod n + (w + (n - h mod n))) mod n" by (simp add: mod_simps)
  also have "h mod n + (w + (n - h mod n)) = w + n" using mod_less_divisor [of n h] assms by linarith
  finally show "(h + ?s) mod n = w" using assms by simp
qed

lemma word_order_set: "fa_bitmap a \<noteq> [] \<Longrightarrow> set (word_order a) = {..<length (fa_bitmap a)}"
proof (intro subset_antisym subsetI)
  fix w
  assume "w \<in> {..<length (fa_bitmap a)}"
  then obtain s where "s < length (fa_bitmap a)" "(fa_hint a div 64 + s) mod length (fa_bitmap a) = w"
    by (metis lessThan_iff rotation_covers)
  then show "w \<in> set (word_order a)" unfolding word_order_def set_map by (intro image_eqI [of _ _ s]) simp_all
qed (auto simp: word_order_def simp del: upt_Suc)

lemma free_frame_exists:
  assumes "fa_counted a" and "fa_used_count a < fa_frame_count a"
  obtains i where "i < fa_frame_count a" and "\<not> fa_used a i"
proof -
  have "\<not> {..<fa_frame_count a} \<subseteq> used_set a"
    using assms card_mono [of "used_set a" "{..<fa_frame_count a}"] by (auto simp: fa_counted_def)
  then obtain i where "i < fa_frame_count a" "i \<notin> used_set a" by blast
  then show ?thesis using that [of i] by (simp add: used_set_def)
qed

lemma fa_allocate_success:
  assumes ct: "fa_counted a" and "fa_used_count a < fa_frame_count a" and "fa_next_generation a \<noteq> 0"
  obtains i where "i < fa_frame_count a" and "\<not> fa_used a i"
    and "fa_allocate a = (Inr (fst (fa_take a i)),
      (snd (fa_take a i))\<lparr>fa_hint := (if i + 1 < fa_frame_count a then i + 1 else 0)\<rparr>)"
proof -
  have sh: "fa_shape a" using ct by (simp add: fa_counted_def)
  obtain k where k: "k < fa_frame_count a" "\<not> fa_used a k" by (rule free_frame_exists [OF ct assms(2)])
  have kw: "k div 64 < length (fa_bitmap a)" using shape_index [OF sh k(1)] by simp
  then have ne: "fa_bitmap a \<noteq> []" by auto
  have "fa_bitmap a ! (k div 64) \<noteq> - 1" using k(2) by (auto simp: fa_used_bit)
  then obtain w where w: "find (\<lambda>word. fa_bitmap a ! word \<noteq> - 1) (word_order a) = Some w"
    using kw word_order_set [OF ne] by (cases "find (\<lambda>word. fa_bitmap a ! word \<noteq> - 1) (word_order a)")
      (auto simp: find_None_iff)
  then have wl: "w < length (fa_bitmap a)" "fa_bitmap a ! w \<noteq> - 1"
    using word_order_set [OF ne] by (auto simp: find_Some_iff)
  let ?i = "w * 64 + lowest_clear_bit (fa_bitmap a ! w)"
  note low = lowest_clear_bit_spec [OF wl(2)]
  have dm: "?i div 64 = w" "?i mod 64 = lowest_clear_bit (fa_bitmap a ! w)" using low(1) by simp_all
  have free: "\<not> fa_used a ?i" unfolding fa_used_bit dm by (rule low(2))
  moreover have "?i < bitmap_size a" using wl(1) low(1) by linarith
  ultimately have "?i < fa_frame_count a" using ct by (auto simp: fa_counted_def not_le[symmetric])
  then show ?thesis using free assms(2,3) w
    by (intro that [of ?i]) (simp_all add: fa_allocate_def Let_def case_prod_beta)
qed

lemma fa_allocate_errors:
  assumes "fa_counted a" and "\<not> (fa_used_count a < fa_frame_count a \<and> fa_next_generation a \<noteq> 0)"
  shows "fa_allocate a =
    (Inl (if fa_frame_count a = 0 then S_not_initialized
          else if fa_used_count a = fa_frame_count a then S_no_memory else S_overflow), a)"
  using assms fa_counted_used_le [OF assms(1)] by (auto simp: fa_allocate_def)

section \<open>Handles over time\<close>

text \<open>The last generation issued, and how one state follows another.\<close>

definition last_issued :: "frame_allocator \<Rightarrow> nat" where
  "last_issued a = unat (fa_next_generation a - 1)"

definition follows :: "frame_allocator \<Rightarrow> frame_allocator \<Rightarrow> bool" where
  "follows a b \<longleftrightarrow> fa_wf b \<and> last_issued a \<le> last_issued b
     \<and> (\<forall>f. exact b f \<longrightarrow> exact a f \<or> last_issued a < unat (pf_generation f))"

lemma follows_refl: "fa_wf a \<Longrightarrow> follows a a"
  by (simp add: follows_def)

lemma follows_trans: "follows a b \<Longrightarrow> follows b c \<Longrightarrow> follows a c"
  unfolding follows_def by (meson le_less_trans le_trans)

lemma exact_gen_at: "exact a f \<longleftrightarrow> pf_owner f = Some (fa_self a) \<and> pf_index f < fa_frame_count a
   \<and> pf_generation f \<noteq> 0 \<and> gen_at a (pf_index f) = pf_generation f \<and> address_for a (pf_index f) = pf_address f"
  by (simp add: exact_def gen_at_def)

lemma counted_exact_used: "fa_counted a \<Longrightarrow> exact a f \<Longrightarrow> pf_index f \<in> used_set a"
  by (auto simp: fa_counted_def exact_gen_at used_set_def)

lemmas exact_used = counted_exact_used [OF fa_wf_counted]

lemma exact_issued: "fa_wf a \<Longrightarrow> exact a f \<Longrightarrow> unat (pf_generation f) \<le> last_issued a"
  by (auto simp: fa_wf_def fa_marks_def exact_gen_at last_issued_def word_le_nat_alt)

lemma address_for_take: "address_for (snd (fa_take a i)) = address_for a"
  by (intro address_for_cong) (simp_all add: fa_simps)

lemma frame_at_iff: "f = frame_at a i \<longleftrightarrow> pf_address f = address_for a i \<and> pf_index f = i
   \<and> pf_owner f = Some (fa_self a) \<and> pf_generation f = gen_at a i"
  by (cases f) (auto simp: frame_at_def gen_at_def)

lemma exact_take:
  assumes "fa_shape a" and "i < fa_frame_count a"
  shows "exact (snd (fa_take a i)) f \<longleftrightarrow>
    (if pf_index f = i then f = fst (fa_take a i) \<and> fa_next_generation a \<noteq> 0 else exact a f)"
proof -
  have len: "i < length (fa_descriptors a)" using assms by (simp add: fa_shape_def)
  show ?thesis
    unfolding fst_fa_take frame_at_iff exact_gen_at gen_at_take [OF len] address_for_take fa_take_fields
    using assms(2) by auto
qed

lemma follows_take:
  assumes wf: "fa_wf a" and i: "i < fa_frame_count a" "\<not> fa_used a i" and g: "fa_next_generation a \<noteq> 0"
  shows "follows a (snd (fa_take a i))"
proof -
  have sh: "fa_shape a" using wf by (simp add: fa_wf_def)
  have len: "i < length (fa_descriptors a)" using sh i by (simp add: fa_shape_def)
  have "last_issued a < unat (fa_next_generation a)" "last_issued (snd (fa_take a i)) = unat (fa_next_generation a)"
    using g by (simp_all add: last_issued_def unat_minus_one unat_gt_0 fa_simps)
  moreover have "pf_generation (fst (fa_take a i)) = fa_next_generation a"
    using frame_at_iff [of "fst (fa_take a i)" "snd (fa_take a i)" i] by (simp add: fst_fa_take gen_at_take [OF len])
  ultimately show ?thesis
    using fa_wf_take [OF assms] exact_take [OF sh i(1)] by (auto simp: follows_def)
qed

lemma hint_update [fa_simps]:
  "fa_wf (a\<lparr>fa_hint := h\<rparr>) = fa_wf a" "fa_counted (a\<lparr>fa_hint := h\<rparr>) = fa_counted a" "exact (a\<lparr>fa_hint := h\<rparr>) = exact a"
  "used_set (a\<lparr>fa_hint := h\<rparr>) = used_set a" "last_issued (a\<lparr>fa_hint := h\<rparr>) = last_issued a"
  "address_for (a\<lparr>fa_hint := h\<rparr>) = address_for a"
proof -
  show ad: "address_for (a\<lparr>fa_hint := h\<rparr>) = address_for a" by (rule address_for_cong) simp_all
  show "exact (a\<lparr>fa_hint := h\<rparr>) = exact a" by (simp add: fun_eq_iff exact_def ad)
  show "used_set (a\<lparr>fa_hint := h\<rparr>) = used_set a" by (simp add: used_set_def fa_simps)
  then show "fa_wf (a\<lparr>fa_hint := h\<rparr>) = fa_wf a" and "fa_counted (a\<lparr>fa_hint := h\<rparr>) = fa_counted a"
    by (simp_all add: fa_wf_def fa_counted_def fa_shape_def fa_marks_def fa_ranges_wf_def gen_at_def fa_simps)
  show "last_issued (a\<lparr>fa_hint := h\<rparr>) = last_issued a" by (simp add: last_issued_def)
qed

lemma follows_hint [fa_simps]: "follows a (b\<lparr>fa_hint := h\<rparr>) = follows a b"
  by (simp add: follows_def fa_simps)

lemma follows_allocate: "fa_wf a \<Longrightarrow> follows a (snd (fa_allocate a))"
proof (cases "fa_used_count a < fa_frame_count a \<and> fa_next_generation a \<noteq> 0")
  case True
  assume wf: "fa_wf a"
  with True obtain i where "i < fa_frame_count a" "\<not> fa_used a i"
    "fa_allocate a = (Inr (fst (fa_take a i)),
      (snd (fa_take a i))\<lparr>fa_hint := (if i + 1 < fa_frame_count a then i + 1 else 0)\<rparr>)"
    by (metis fa_allocate_success fa_wf_counted)
  then show ?thesis using follows_take [OF wf] True by (simp add: fa_simps)
qed (simp add: fa_allocate_errors fa_wf_counted follows_refl)

lemma exact_after_release:
  assumes "fa_shape a" and "first + n \<le> fa_frame_count a"
  shows "exact (after_release a first n h) f \<longleftrightarrow> exact a f \<and> pf_index f \<notin> {first..<first + n}"
proof -
  have "address_for (after_release a first n h) = address_for a" by (rule address_for_cong) (simp_all add: fa_simps)
  then show ?thesis by (auto simp: exact_gen_at fa_simps free_run_gen [OF assms])
qed

lemma follows_after_release:
  assumes wf: "fa_wf a" and n: "first + n \<le> fa_frame_count a" and "{first..<first + n} \<subseteq> used_set a"
  shows "follows a (after_release a first n h)"
proof -
  have "fa_shape a" using wf by (simp add: fa_wf_def)
  then show ?thesis using fa_wf_after_release(1) [OF assms]
    by (auto simp: follows_def exact_after_release n last_issued_def fa_simps)
qed

lemma follows_release: "fa_wf a \<Longrightarrow> follows a (snd (fa_release a f))"
proof (cases "exact a f \<and> fa_used a (pf_index f)")
  case True
  assume wf: "fa_wf a"
  then show ?thesis
    using True exact_used [OF wf, of f] follows_after_release [OF wf, of "pf_index f" 1]
    by (simp add: fa_release_eq exact_def)
qed (auto simp: fa_release_eq follows_refl)

end
