(* ===== verification/OK_Frame_Runs.thy ===== *)
theory OK_Frame_Runs
  imports OK_Frame_Ops
begin

text \<open>
  Contiguous runs, charged allocation, initialization from a memory map, and the properties
  of the frame allocator.
\<close>

section \<open>Taking a run\<close>

lemma take_run_0 [simp]: "take_run a first 0 = a"
  by (simp add: take_run_def)

lemma take_run_Suc: "take_run a first (Suc n) = snd (fa_take (take_run a first n) (first + n))"
  by (simp add: take_run_def)

lemma take_run_fields [fa_simps]:
  "fa_self (take_run a first n) = fa_self a" "fa_page_size (take_run a first n) = fa_page_size a"
  "fa_frame_count (take_run a first n) = fa_frame_count a" "fa_ranges (take_run a first n) = fa_ranges a"
  "fa_next_generation (take_run a first n) = fa_next_generation a + of_nat n"
  by (induction n) (simp_all add: take_run_Suc fa_simps)

lemma address_for_take_run: "address_for (take_run a first n) = address_for a"
  by (rule address_for_cong) (simp_all add: fa_simps)

lemma next_generation_bound:
  assumes "n \<le> unat (- 1 - (g :: u64))" and "g \<noteq> 0"
  shows "unat (g + of_nat n) = unat g + n" and "g + of_nat n \<noteq> 0"
proof -
  have "unat g + n < 2 ^ 64" using assms(1) unat64_less [of g] unfolding unat_max_minus by (simp del: unat64_less)
  moreover from this have "unat (of_nat n :: u64) = n" by (intro unat_of_nat_small) simp
  ultimately show *: "unat (g + of_nat n) = unat g + n" by (subst unat_add_headroom) simp_all
  show "g + of_nat n \<noteq> 0" using * assms(2) by (metis add_is_0 unat_eq_zero unat_0)
qed

lemma frame_at_cong:
  "address_for b = address_for a \<Longrightarrow> fa_self b = fa_self a \<Longrightarrow> gen_at b i = gen_at a i \<Longrightarrow>
   frame_at b i = frame_at a i"
  by (simp add: frame_at_def gen_at_def)

lemma take_run_spec:
  assumes wf: "fa_wf a" and g: "fa_next_generation a \<noteq> 0" "n \<le> unat (- 1 - fa_next_generation a)"
    and n: "first + n \<le> fa_frame_count a" and free: "{first..<first + n} \<inter> used_set a = {}"
  shows "follows a (take_run a first n) \<and> used_set (take_run a first n) = used_set a \<union> {first..<first + n}
    \<and> (\<forall>f. exact a f \<longrightarrow> exact (take_run a first n) f)
    \<and> (\<forall>i < n. exact (take_run a first n) (frame_at (take_run a first n) (first + i)))"
  using assms(3-5)
proof (induction n)
  case 0
  then show ?case using wf by (simp add: follows_refl)
next
  case (Suc n)
  let ?b = "take_run a first n" and ?c = "take_run a first (Suc n)" and ?i = "first + n"
  have "{first..<?i} \<inter> used_set a = {}" using Suc.prems(3) by (auto simp: disjoint_iff)
  then have IH: "follows a ?b" "used_set ?b = used_set a \<union> {first..<?i}" "\<And>f. exact a f \<Longrightarrow> exact ?b f"
      "\<And>i. i < n \<Longrightarrow> exact ?b (frame_at ?b (first + i))"
    using Suc.IH Suc.prems(1,2) by simp_all
  have wfb: "fa_wf ?b" and shb: "fa_shape ?b" using IH(1) by (auto simp: follows_def fa_wf_def)
  have i: "?i < fa_frame_count ?b" using Suc.prems by (simp add: fa_simps)
  have free_i: "?i \<notin> used_set ?b" using Suc.prems(3) by (auto simp: IH(2) disjoint_iff)
  then have ni: "\<not> fa_used ?b ?i" using i by (simp add: used_set_def)
  have gb: "fa_next_generation ?b \<noteq> 0"
    using next_generation_bound(2) [OF _ g(1), of n] Suc.prems(1) by (simp add: fa_simps)
  have keep: "exact ?c f" if "exact ?b f" for f
    using that exact_used [OF wfb that] free_i exact_take [OF shb i] by (auto simp: take_run_Suc)
  have here: "exact ?c (frame_at ?c ?i)"
    using exact_take [OF shb i, of "frame_at ?c ?i"] gb by (simp add: take_run_Suc fst_fa_take) (simp add: frame_at_def)
  have len: "?i < length (fa_descriptors ?b)" using shb i by (simp add: fa_shape_def)
  have same: "frame_at ?c (first + k) = frame_at ?b (first + k)" if "k < n" for k
    using that by (intro frame_at_cong)
      (simp_all add: address_for_take_run fa_simps take_run_Suc [of a first n] gen_at_take [OF len] address_for_take)
  have "exact ?c (frame_at ?c (first + k))" if "k < Suc n" for k
  proof (cases "k = n")
    case False
    then have k: "k < n" using that by simp
    show ?thesis unfolding same [OF k] by (rule keep [OF IH(4) [OF k]])
  qed (use here in simp)
  moreover have "used_set ?c = used_set a \<union> {first..<first + Suc n}"
    unfolding take_run_Suc used_set_take [OF shb i] IH(2) by auto
  moreover have "follows a ?c"
    using follows_trans [OF IH(1) follows_take [OF wfb i ni gb]] by (simp add: take_run_Suc)
  ultimately show ?case using keep IH(3) by blast
qed

lemma take_run_counted:
  assumes ct: "fa_counted a" and "first + n \<le> fa_frame_count a" and "{first..<first + n} \<inter> used_set a = {}"
  shows "fa_counted (take_run a first n) \<and> used_set (take_run a first n) = used_set a \<union> {first..<first + n}"
  using assms(2,3)
proof (induction n)
  case 0
  then show ?case using ct by simp
next
  case (Suc n)
  let ?b = "take_run a first n" and ?i = "first + n"
  have "{first..<?i} \<inter> used_set a = {}" using Suc.prems(2) by (auto simp: disjoint_iff)
  then have IH: "fa_counted ?b" "used_set ?b = used_set a \<union> {first..<?i}" using Suc.IH Suc.prems(1) by simp_all
  have i: "?i < fa_frame_count ?b" using Suc.prems by (simp add: fa_simps)
  have "?i \<notin> used_set ?b" using Suc.prems(2) by (auto simp: IH(2) disjoint_iff)
  then have "\<not> fa_used ?b ?i" using i by (simp add: used_set_def)
  note take = fa_counted_take [OF IH(1) i this]
  have sh: "fa_shape ?b" using IH(1) by (simp add: fa_counted_def)
  have "used_set (snd (fa_take ?b ?i)) = used_set a \<union> {first..<first + Suc n}"
    unfolding used_set_take [OF sh i] IH(2) by auto
  then show ?case using take by (simp add: take_run_Suc)
qed

section \<open>Finding a run\<close>

definition frame_free :: "frame_allocator \<Rightarrow> nat \<Rightarrow> bool" where
  "frame_free a i \<longleftrightarrow> \<not> fa_used a i"

definition aligned_at :: "frame_allocator \<Rightarrow> usize \<Rightarrow> nat \<Rightarrow> bool" where
  "aligned_at a alignment x \<longleftrightarrow> alignment = 0 \<or> address_for a x mod alignment = 0"

text \<open>A usable window: \<open>count\<close> free frames of the range, starting at an aligned address.\<close>

definition window :: "frame_allocator \<Rightarrow> nat \<Rightarrow> usize \<Rightarrow> frame_range \<Rightarrow> nat \<Rightarrow> bool" where
  "window a count alignment r x \<longleftrightarrow> fr_first r \<le> x \<and> x + count \<le> fr_first r + fr_count r
     \<and> (\<forall>i. x \<le> i \<and> i < x + count \<longrightarrow> frame_free a i) \<and> aligned_at a alignment x"

text \<open>\<open>run\<close> is the length of the longest free stretch that ends just before offset \<open>k\<close>.\<close>

definition run_here :: "frame_allocator \<Rightarrow> frame_range \<Rightarrow> nat \<Rightarrow> nat \<Rightarrow> bool" where
  "run_here a r k run \<longleftrightarrow> run \<le> k \<and> (\<forall>i. fr_first r + k - run \<le> i \<and> i < fr_first r + k \<longrightarrow> frame_free a i)
     \<and> (run < k \<longrightarrow> \<not> frame_free a (fr_first r + k - run - 1))"

lemma run_here_step:
  assumes "run_here a r k run"
  shows "run_here a r (Suc k) (if fa_used a (fr_first r + k) then 0 else run + 1)"
  using assms unfolding run_here_def frame_free_def by (auto simp: less_Suc_eq)

lemma find_run_Some:
  assumes "find_run a count alignment r run [k..<fr_count r] = Some x" and "run_here a r k run" and "0 < count"
  shows "window a count alignment r x"
  using assms
proof (induction "fr_count r - k" arbitrary: k run)
  case 0
  then show ?case by simp
next
  case (Suc d)
  have k: "k < fr_count r" using Suc.hyps(2) by simp
  then have upt: "[k..<fr_count r] = k # [Suc k..<fr_count r]" by (rule upt_conv_Cons)
  let ?run = "if fa_used a (fr_first r + k) then 0 else run + 1" and ?x = "fr_first r + k + 1 - count"
  have here: "run_here a r (Suc k) ?run" by (rule run_here_step [OF Suc.prems(2)])
  show ?case
  proof (cases "?run < count \<or> \<not> aligned_at a alignment ?x")
    case True
    then have "find_run a count alignment r ?run [Suc k..<fr_count r] = Some x"
      using Suc.prems(1) by (auto simp: upt Let_def aligned_at_def)
    then show ?thesis using Suc.hyps(2) by (intro Suc.hyps(1) [OF _ _ here Suc.prems(3)]) simp_all
  next
    case False
    then have "x = ?x" using Suc.prems(1) by (simp add: upt Let_def aligned_at_def split: if_splits)
    moreover have "count \<le> ?run" "aligned_at a alignment ?x" using False by (simp_all only: not_less de_Morgan_disj not_not)
    ultimately show ?thesis using here k by (auto simp: window_def run_here_def)
  qed
qed

lemma find_run_None:
  assumes "find_run a count alignment r run [k..<fr_count r] = None" and "run_here a r k run" and "0 < count"
    and "window a count alignment r x" and "fr_first r + k < x + count"
  shows False
  using assms
proof (induction "fr_count r - k" arbitrary: k run)
  case 0
  then show ?case by (simp add: window_def)
next
  case (Suc d)
  have k: "k < fr_count r" using Suc.hyps(2) by simp
  then have upt: "[k..<fr_count r] = k # [Suc k..<fr_count r]" by (rule upt_conv_Cons)
  let ?run = "if fa_used a (fr_first r + k) then 0 else run + 1" and ?x = "fr_first r + k + 1 - count"
  have here: "run_here a r (Suc k) ?run" by (rule run_here_step [OF Suc.prems(2)])
  have bad: "?run < count \<or> \<not> aligned_at a alignment ?x"
    and rest: "find_run a count alignment r ?run [Suc k..<fr_count r] = None"
    using Suc.prems(1) by (auto simp: upt Let_def aligned_at_def split: if_splits)
  show ?case
  proof (cases "x + count = fr_first r + Suc k")
    case True
    then have "x = ?x" by simp
    with bad Suc.prems(4) have lt: "?run < count" by (simp add: window_def)
    then have "?run < Suc k" using True Suc.prems(4) by (simp add: window_def)
    then have "\<not> frame_free a (fr_first r + Suc k - ?run - 1)" using here by (simp add: run_here_def)
    moreover have "x \<le> fr_first r + Suc k - ?run - 1" "fr_first r + Suc k - ?run - 1 < x + count"
      using True lt Suc.prems(3) by linarith+
    ultimately show ?thesis using Suc.prems(4) by (simp add: window_def)
  next
    case False
    then show ?thesis using Suc.hyps(2) Suc.prems(5)
      by (intro Suc.hyps(1) [OF _ rest here Suc.prems(3,4)]) simp_all
  qed
qed

lemma run_here_0: "run_here a r 0 0"
  by (auto simp: run_here_def)

lemma find_run_ranges_Some:
  "find_run_ranges a count alignment rs = Some x \<Longrightarrow> 0 < count \<Longrightarrow> \<exists>r\<in>set rs. window a count alignment r x"
  by (induction rs) (auto split: option.splits dest: find_run_Some [OF _ run_here_0])

lemma find_run_ranges_None:
  "find_run_ranges a count alignment rs = None \<Longrightarrow> 0 < count \<Longrightarrow> r \<in> set rs \<Longrightarrow> \<not> window a count alignment r x"
proof (induction rs)
  case (Cons q rs)
  have "find_run a count alignment q 0 [0..<fr_count q] = None" "find_run_ranges a count alignment rs = None"
    using Cons.prems(1) by (auto split: option.splits)
  then show ?case
    using Cons.IH Cons.prems find_run_None [OF _ run_here_0, of a count alignment q x] by (auto simp: window_def)
qed simp

section \<open>Contiguous allocation\<close>

lemma address_for_in:
  assumes wf: "fa_ranges_wf a" and r: "r \<in> set (fa_ranges a)"
    and x: "fr_first r \<le> x" "x < fr_first r + fr_count r"
  shows "x < fa_frame_count a" and "address_for a x = fr_base r + of_nat (x - fr_first r) * fa_page_size a"
proof -
  have ok: "ranges_ok (fa_page_size a) 0 0 (fa_ranges a)" and t: "ranges_total (fa_ranges a) = fa_frame_count a"
    using wf by (auto simp: fa_ranges_wf_def)
  obtain m where m: "m < length (fa_ranges a)" "fa_ranges a ! m = r" using r by (auto simp: in_set_conv_nth)
  show "x < fa_frame_count a" using ranges_ok_nth [OF ok m(1)] m(2) x t by simp
  have "bsearch (index_probe (fa_ranges a) x) 0 (length (fa_ranges a)) = Some m"
    using m x by (subst bsearch_eq_Some [OF index_probe_sorted [OF ok]]) (auto simp: index_probe_def Let_def)
  then show "address_for a x = fr_base r + of_nat (x - fr_first r) * fa_page_size a"
    by (simp add: address_for_def Let_def m(2))
qed

lemma counted_window_frames:
  assumes ct: "fa_counted a" and r: "r \<in> set (fa_ranges a)" and w: "window a n alignment r x" and n: "0 < n"
  shows "x + n \<le> fa_frame_count a" and "{x..<x + n} \<inter> used_set a = {}"
    and "n \<le> fa_frame_count a - fa_used_count a"
    and "i < n \<Longrightarrow> address_for a (x + i) = address_for a x + of_nat i * fa_page_size a"
proof -
  have rw: "fa_ranges_wf a" using ct by (simp add: fa_counted_def fa_shape_def)
  note at = address_for_in [OF rw r]
  have win: "fr_first r \<le> x" "x + n \<le> fr_first r + fr_count r"
    "\<And>i. x \<le> i \<Longrightarrow> i < x + n \<Longrightarrow> \<not> fa_used a i"
    using w by (auto simp: window_def frame_free_def)
  have "x + n - 1 < fa_frame_count a" using win n by (intro at(1)) linarith+
  then show le: "x + n \<le> fa_frame_count a" using n by linarith
  show dis: "{x..<x + n} \<inter> used_set a = {}" using win(3) by (auto simp: used_set_def)
  have "card (used_set a \<union> {x..<x + n}) \<le> card {..<fa_frame_count a}"
    using le by (intro card_mono) (auto simp: used_set_def)
  then have "card (used_set a) + n \<le> fa_frame_count a"
    using dis by (subst (asm) card_Un_disjoint) (auto simp: Int_commute)
  then show "n \<le> fa_frame_count a - fa_used_count a" using ct by (simp add: fa_counted_def)
  show "address_for a (x + i) = address_for a x + of_nat i * fa_page_size a" if "i < n"
  proof -
    have "address_for a (x + i) = fr_base r + of_nat (x + i - fr_first r) * fa_page_size a"
      using win that by (intro at(2)) linarith+
    moreover have "address_for a x = fr_base r + of_nat (x - fr_first r) * fa_page_size a"
      using win n by (intro at(2)) linarith+
    moreover have "x + i - fr_first r = (x - fr_first r) + i" using win(1) by simp
    ultimately show ?thesis by (simp only: of_nat_add distrib_right add.assoc)
  qed
qed

lemmas window_frames = counted_window_frames [OF fa_wf_counted]

lemma fa_allocate_contiguous_alt:
  assumes "fa_shape a"
  shows "fa_allocate_contiguous a count acc alignment =
     (if fa_frame_count a = 0 then (Inl S_not_initialized, a, acc)
      else if count = 0 then (Inl S_invalid_argument, a, acc)
      else if alignment AND (alignment - 1) \<noteq> 0 then (Inl S_invalid_argument, a, acc)
      else if count > fa_frame_count a - fa_used_count a then (Inl S_no_memory, a, acc)
      else if count > unat (- 1 - fa_next_generation a) then (Inl S_overflow, a, acc)
      else (case find_run_ranges a count alignment (fa_ranges a) of
          None \<Rightarrow> (Inl S_no_memory, a, acc)
        | Some first \<Rightarrow>
            (case charge acc (of_nat count) of (st, acc') \<Rightarrow>
              if st \<noteq> S_ok then (Inl st, a, acc')
              else (let a' = take_run a first count in (handle_at a' first, a', acc')))))"
proof (cases "count > fa_frame_count a - fa_used_count a")
  case False
  moreover have "fa_frame_count a < 2 ^ 64" using assms by (simp add: fa_shape_def)
  ultimately have "count < 2 ^ 64" by linarith
  then have "unat (of_nat count :: u64) = count" by (intro unat_of_nat_small) simp
  then have "of_nat count > - 1 - fa_next_generation a \<longleftrightarrow> count > unat (- 1 - fa_next_generation a)"
    by (simp add: word_less_nat_alt)
  then show ?thesis by (simp add: fa_allocate_contiguous_def)
qed (simp add: fa_allocate_contiguous_def)

lemma fa_allocate_contiguous_effect:
  assumes sh: "fa_shape a"
  obtains e where "fa_allocate_contiguous a n acc alignment = (Inl e, a, acc)"
  | r x where "r \<in> set (fa_ranges a)" and "0 < n" and "window a n alignment r x"
      and "n \<le> unat (- 1 - fa_next_generation a)" and "fst (charge acc (of_nat n)) = S_ok"
      and "fa_allocate_contiguous a n acc alignment =
        (handle_at (take_run a x n) x, take_run a x n, snd (charge acc (of_nat n)))"
proof (cases "fa_frame_count a = 0 \<or> n = 0 \<or> alignment AND (alignment - 1) \<noteq> 0
    \<or> n > fa_frame_count a - fa_used_count a \<or> n > unat (- 1 - fa_next_generation a)")
  case True
  then have "\<exists>e. fa_allocate_contiguous a n acc alignment = (Inl e, a, acc)"
    by (auto simp: fa_allocate_contiguous_alt [OF sh])
  then show ?thesis by (blast intro: that(1))
next
  case ok: False
  show ?thesis
  proof (cases "find_run_ranges a n alignment (fa_ranges a)")
    case None
    then show ?thesis using ok by (intro that(1)) (simp add: fa_allocate_contiguous_alt [OF sh])
  next
    case (Some x)
    show ?thesis
    proof (cases "fst (charge acc (of_nat n)) = S_ok")
      case False
      then show ?thesis using ok Some ca.take_failed [OF False]
        by (intro that(1)) (simp add: fa_allocate_contiguous_alt [OF sh] case_prod_beta)
    next
      case True
      obtain r where r: "r \<in> set (fa_ranges a)" "window a n alignment r x"
        using find_run_ranges_Some [OF Some] ok by auto
      then show ?thesis using ok Some True
        by (intro that(2) [of r x]) (simp_all add: fa_allocate_contiguous_alt [OF sh] case_prod_beta Let_def)
    qed
  qed
qed

lemma fa_allocate_contiguous_cases:
  assumes wf: "fa_wf a" and g: "fa_next_generation a \<noteq> 0"
  obtains e where "fa_allocate_contiguous a n acc alignment = (Inl e, a, acc)"
  | r x where "r \<in> set (fa_ranges a)" and "0 < n" and "window a n alignment r x"
      and "n \<le> unat (- 1 - fa_next_generation a)" and "fst (charge acc (of_nat n)) = S_ok"
      and "fa_allocate_contiguous a n acc alignment =
        (Inr (frame_at (take_run a x n) x), take_run a x n, snd (charge acc (of_nat n)))"
proof -
  have sh: "fa_shape a" using wf by (simp add: fa_wf_def)
  show ?thesis
  proof (cases rule: fa_allocate_contiguous_effect [OF sh, of n acc alignment])
    case (1 e)
    then show ?thesis by (rule that(1))
  next
    case (2 r x)
    note win = window_frames [OF wf 2(1,3,2)]
    have "exact (take_run a x n) (frame_at (take_run a x n) x)"
      using take_run_spec [OF wf g 2(4) win(1,2)] 2(2) by (metis add_0_right)
    then have "handle_at (take_run a x n) x = Inr (frame_at (take_run a x n) x)"
      by (simp add: handle_at_def exact_def frame_at_def)
    then show ?thesis using 2 by (intro that(2) [of r x]) simp_all
  qed
qed

lemma fa_allocate_contiguous_complete:
  assumes wf: "fa_wf a" and g: "fa_next_generation a \<noteq> 0" "n \<le> unat (- 1 - fa_next_generation a)"
    and "0 < n" and "alignment AND (alignment - 1) = 0"
    and r: "r \<in> set (fa_ranges a)" "window a n alignment r x" and "fst (charge acc (of_nat n)) = S_ok"
  shows "result_ok (fst (fa_allocate_contiguous a n acc alignment))"
proof -
  obtain y where y: "find_run_ranges a n alignment (fa_ranges a) = Some y"
    using find_run_ranges_None [OF _ assms(4) r(1)] r(2) by (cases "find_run_ranges a n alignment (fa_ranges a)") auto
  note win = window_frames [OF wf r assms(4)]
  obtain q where q: "q \<in> set (fa_ranges a)" "window a n alignment q y"
    using find_run_ranges_Some [OF y assms(4)] by auto
  note wy = window_frames [OF wf q assms(4)]
  have "exact (take_run a y n) (frame_at (take_run a y n) y)"
    using take_run_spec [OF wf g wy(1,2)] assms(4) by (metis add_0_right)
  then have "result_ok (handle_at (take_run a y n) y)" by (simp add: handle_at_def exact_def frame_at_def)
  moreover have "fa_shape a" using wf by (simp add: fa_wf_def)
  ultimately show ?thesis using assms y win(1,3)
    by (simp add: fa_allocate_contiguous_alt case_prod_beta Let_def)
qed

section \<open>Releasing a run\<close>

lemma counted_release_contiguous_cases:
  assumes ct: "fa_counted a"
  obtains e where "e \<noteq> S_ok" and "fa_release_contiguous a f n acc = (e, a, acc)"
  | "0 < n" and "exact a f" and "pf_index f + n \<le> fa_frame_count a"
      and "{pf_index f..<pf_index f + n} \<subseteq> used_set a" and "n \<le> used_units acc"
      and "fa_release_contiguous a f n acc =
        (S_ok, after_release a (pf_index f) n (min (pf_index f) (fa_hint a)), snd (uncharge acc (of_nat n)))"
proof (cases "n = 0 \<or> \<not> exact a f \<or> n > fa_frame_count a - pf_index f
    \<or> list_ex (\<lambda>i. \<not> fa_used a (pf_index f + i)
        \<or> address_for a (pf_index f + i) \<noteq> pf_address f + of_nat i * fa_page_size a) [1..<n]
    \<or> ca_used acc < of_nat n")
  case True
  then show ?thesis by (intro that(1) [of S_invalid_argument]) (auto simp: fa_release_contiguous_def)
next
  case False
  have fc: "fa_frame_count a < 2 ^ 64" using ct by (simp add: fa_counted_def fa_shape_def)
  have ex: "exact a f" and n: "0 < n" "pf_index f + n \<le> fa_frame_count a"
    using False by (auto simp: exact_def)
  then have "unat (of_nat n :: usize) = n" using fc by (intro unat_of_nat_small) simp
  then have acc: "n \<le> used_units acc" using False by (simp add: word_less_nat_alt not_less)
  have "pf_index f + i \<in> used_set a" if "i < n" for i
  proof (cases "i = 0")
    case True
    then show ?thesis using counted_exact_used [OF ct ex] by simp
  next
    case i: False
    then show ?thesis using False that n by (auto simp: list_ex_iff used_set_def)
  qed
  then have "{pf_index f..<pf_index f + n} \<subseteq> used_set a"
    by (auto simp: le_iff_add)
  then show ?thesis using False ex n acc
    by (intro that(2)) (simp_all add: fa_release_contiguous_def Let_def after_release_def free_run_def fa_simps min_def
        flip: free_run_def)
qed

lemmas fa_release_contiguous_cases = counted_release_contiguous_cases [OF fa_wf_counted]

end
