(* ===== verification/OK_Frame_Props.thy ===== *)
theory OK_Frame_Props
  imports OK_Frame_Runs
begin

text \<open>
  Initialization of the frame allocator from a memory map, the step relation over its public
  operations, the interpretation of the handle contract, and the properties.
\<close>

section \<open>Totals and ranges of a sweep\<close>

definition run_frames :: "(uptr \<times> usize) list \<Rightarrow> nat" where
  "run_frames xs = sum_list (map (\<lambda>x. unat (snd x)) xs)"

lemma run_frames_simps [simp]:
  "run_frames [] = 0" "run_frames (x # xs) = unat (snd x) + run_frames xs"
  by (simp_all add: run_frames_def)

primrec mk_ranges :: "nat \<Rightarrow> (uptr \<times> usize) list \<Rightarrow> frame_range list" where
  "mk_ranges i [] = []"
| "mk_ranges i (x # xs) =
     \<lparr>fr_base = fst x, fr_first = i, fr_count = unat (snd x)\<rparr> # mk_ranges (i + unat (snd x)) xs"

lemma emit_all_count:
  "emit_all count_emit xs t = (S_ok, t') \<Longrightarrow> unat (st_frames t') = unat (st_frames t) + run_frames xs"
proof (induction xs arbitrary: t)
  case (Cons x xs)
  then have "snd x \<le> - 1 - st_frames t"
    by (auto simp: count_emit_def not_less[symmetric] split: if_splits)
  then have "unat (st_frames t + snd x) = unat (st_frames t) + unat (snd x)"
    by (simp add: headroom_iff unat_add_headroom)
  then show ?case using Cons by (auto simp: count_emit_def split: if_splits)
qed simp

lemma emit_all_range: "emit_all range_emit xs (rs, i) = (S_ok, (rs @ mk_ranges i xs, i + run_frames xs))"
  by (induction xs arbitrary: rs i) (simp_all add: range_emit_def)

lemma length_mk_ranges [simp]: "length (mk_ranges i xs) = length xs"
  by (induction xs arbitrary: i) simp_all

lemma mk_ranges_nth:
  "m < length xs \<Longrightarrow> fr_base (mk_ranges i xs ! m) = fst (xs ! m) \<and> fr_count (mk_ranges i xs ! m) = unat (snd (xs ! m))"
  by (induction xs arbitrary: i m) (auto simp: nth_Cons split: nat.splits)

lemma ranges_total_mk [simp]: "ranges_total (mk_ranges i xs) = run_frames xs"
  by (induction xs arbitrary: i) simp_all

lemma ranges_ok_mk: "runs_sorted ps lo xs \<Longrightarrow> ranges_ok ps lo i (mk_ranges i xs)"
  by (induction xs arbitrary: lo i) (simp_all add: run_end_def unat_gt_0 word_gt_0)

lemma count_usable_Inr:
  assumes "count_usable rs ps = Inr t"
  shows "page_size_ok ps" and "regions_fit rs" and "unat (st_frames t) = run_frames (usable_runs rs ps)"
    and "st_frames t \<noteq> 0"
proof -
  let ?sw = "sweep_usable rs ps count_emit \<lparr>st_frames = 0, st_ranges = 0\<rparr>"
  have ok: "?sw = (S_ok, t)" and "st_frames t \<noteq> 0"
    using assms by (auto simp: count_usable_def split: prod.splits if_splits)
  then show "st_frames t \<noteq> 0" by simp
  show ps: "page_size_ok ps" using ok by (auto simp: sweep_usable_def page_size_ok_def split: if_splits)
  then have "sweep_cursor rs (- 1) \<noteq> Inl S_overflow"
    using ok by (auto simp: sweep_usable_def page_size_ok_def)
  then show fit: "regions_fit rs" by (simp add: sweep_cursor_fit(1) [of rs "- 1"])
  show "unat (st_frames t) = run_frames (usable_runs rs ps)"
    using ok emit_all_count [of _ "\<lparr>st_frames = 0, st_ranges = 0\<rparr>" t] by (simp add: sweep_usable_emits [OF ps fit])
qed

lemma count_usable_not_ok: "count_usable rs ps \<noteq> Inl S_ok"
  by (auto simp: count_usable_def split: prod.splits)

section \<open>Initialization\<close>

lemma word_count: "(frames + 63) div 64 = frames div 64 + (if frames mod 64 = 0 then 0 else 1 :: nat)"
proof -
  have "frames + 63 = (frames mod 64 + 63) + 64 * (frames div 64)" using mult_div_mod_eq [of 64 frames] by linarith
  then have "(frames + 63) div 64 = (frames mod 64 + 63 + 64 * (frames div 64)) div 64" by (rule arg_cong)
  also have "\<dots> = frames div 64 + (frames mod 64 + 63) div 64" by (rule div_mult_self2) simp
  finally have "(frames + 63) div 64 = frames div 64 + (frames mod 64 + 63) div 64" .
  moreover have "(frames mod 64 + 63) div 64 = 1" if "frames mod 64 \<noteq> 0"
  proof -
    have "frames mod 64 < 64" by simp
    with that show ?thesis by (intro div_nat_eqI) simp_all
  qed
  ultimately show ?thesis by simp
qed

lemma bitmap_init_bit:
  assumes "i < 64 * ((frames + 63) div 64)"
  shows "bit (bitmap_init frames ! (i div 64)) (i mod 64) \<longleftrightarrow> frames \<le> i"
proof (cases "frames mod 64 = 0")
  case True
  then have "64 * ((frames + 63) div 64) = frames" unfolding word_count by auto
  then show ?thesis using assms True by (simp add: bitmap_init_def less_mult_imp_div_less mult.commute)
next
  case False
  let ?w = "(frames + 63) div 64"
  have w: "?w - 1 = frames div 64" "0 < ?w" using False by (simp_all add: word_count)
  have i: "i div 64 < ?w" using assms by simp
  show ?thesis
  proof (cases "i div 64 = frames div 64")
    case True
    have "frames \<le> i \<longleftrightarrow> frames mod 64 \<le> i mod 64"
      using True by (metis add_le_cancel_left mult_div_mod_eq)
    then show ?thesis using False True i w
      by (simp add: bitmap_init_def Let_def bit_not_iff bit_mask_iff not_less)
  next
    case ne: False
    have "i div 64 < frames div 64" using ne i w by linarith
    then have "\<not> frames \<le> i" by (meson div_le_mono leD)
    then show ?thesis using False ne i w by (simp add: bitmap_init_def Let_def)
  qed
qed

lemma length_bitmap_init [simp]: "length (bitmap_init frames) = (frames + 63) div 64"
  by (simp add: bitmap_init_def Let_def)

lemma fa_initialize_cases:
  obtains e where "e \<noteq> S_ok" and "fa_initialize a rs ps metadata = (e, a)"
  | t where "fa_used_count a = 0" and "count_usable rs ps = Inr t"
      and "fa_initialize a rs ps metadata = (S_ok,
        a\<lparr>fa_bitmap := bitmap_init (unat (st_frames t)),
          fa_descriptors := replicate (unat (st_frames t)) empty_descriptor,
          fa_ranges := mk_ranges 0 (usable_runs rs ps),
          fa_page_size := ps, fa_frame_count := unat (st_frames t), fa_hint := 0\<rparr>)"
proof (cases "fst (fa_initialize a rs ps metadata) = S_ok")
  case True
  then obtain t where t: "fa_used_count a = 0" "count_usable rs ps = Inr t"
    "\<not> (fst metadata = 0 \<or> snd metadata < metadata_bytes_for (st_frames t) (st_ranges t))"
    using count_usable_not_ok
    by (cases "count_usable rs ps") (auto simp: fa_initialize_def Let_def split: if_splits)
  note c = count_usable_Inr [OF t(2)]
  have "fst (snd (sweep_usable rs ps range_emit ([], 0))) = mk_ranges 0 (usable_runs rs ps)"
    by (simp add: sweep_usable_emits [OF c(1,2)] emit_all_range)
  then show ?thesis using t by (intro that(2) [of t]) (simp_all add: fa_initialize_def Let_def)
next
  case False
  then have "fa_initialize a rs ps metadata = (fst (fa_initialize a rs ps metadata), a)"
    by (auto simp: fa_initialize_def Let_def split: sum.splits if_splits)
  with False that(1) show ?thesis by blast
qed

lemma fa_initialize_fresh:
  assumes ok: "fst (fa_initialize a rs ps metadata) = S_ok"
  defines "b \<equiv> snd (fa_initialize a rs ps metadata)"
  shows "fa_wf b" and "used_set b = {}" and "\<not> exact b f" and "fa_next_generation b = fa_next_generation a"
    and "fa_ranges b = mk_ranges 0 (usable_runs rs ps)" and "fa_page_size b = ps" and "fa_frame_count b \<noteq> 0"
    and "page_size_ok ps" and "regions_fit rs" and "fa_used_count a = 0" and "fa_used_count b = 0"
proof -
  obtain t where t: "fa_used_count a = 0" "count_usable rs ps = Inr t"
    and b: "b = a\<lparr>fa_bitmap := bitmap_init (unat (st_frames t)),
          fa_descriptors := replicate (unat (st_frames t)) empty_descriptor,
          fa_ranges := mk_ranges 0 (usable_runs rs ps),
          fa_page_size := ps, fa_frame_count := unat (st_frames t), fa_hint := 0\<rparr>"
    by (rule fa_initialize_cases [of a rs ps metadata]) (use ok in \<open>auto simp: b_def\<close>)
  note c = count_usable_Inr [OF t(2)]
  have used: "fa_used b i \<longleftrightarrow> fa_frame_count b \<le> i" if "i < bitmap_size b" for i
    using that bitmap_init_bit [of i "unat (st_frames t)"] by (simp add: b fa_used_bit)
  have gen: "gen_at b i = 0" if "i < fa_frame_count b" for i
    using that by (simp add: b gen_at_def empty_descriptor_def)
  have rw: "fa_ranges_wf b"
    using c(1,3) ranges_ok_mk [OF usable_runs_sorted [OF c(1,2)], of 0]
    by (simp add: b fa_ranges_wf_def page_size_ok_def)
  then have sh: "fa_shape b" by (simp add: fa_shape_def b)
  show us: "used_set b = {}" using used shape_index [OF sh] by (auto simp: used_set_def)
  have "fa_marks b" using used gen shape_index [OF sh] by (auto simp: fa_marks_def)
  then show "fa_wf b" using sh us t(1) by (simp add: fa_wf_def b)
  show "fa_used_count a = 0" "fa_used_count b = 0" using t(1) by (simp_all add: b)
  show "\<not> exact b f" using gen by (auto simp: exact_gen_at)
  show "fa_next_generation b = fa_next_generation a" "fa_ranges b = mk_ranges 0 (usable_runs rs ps)"
    "fa_page_size b = ps" "fa_frame_count b \<noteq> 0" using c(4) by (simp_all add: b unat_eq_0)
  show "page_size_ok ps" "regions_fit rs" using c by simp_all
qed

lemma follows_initialize:
  assumes "fa_wf a"
  shows "follows a (snd (fa_initialize a rs ps metadata))"
proof (cases "fst (fa_initialize a rs ps metadata) = S_ok")
  case True
  then show ?thesis using fa_initialize_fresh [OF True] by (simp add: follows_def last_issued_def)
next
  case False
  then have "snd (fa_initialize a rs ps metadata) = a"
    by (cases rule: fa_initialize_cases [of a rs ps metadata]) auto
  then show ?thesis using follows_refl [OF assms] by simp
qed

text \<open>The addresses an allocator manages.\<close>

definition managed :: "frame_allocator \<Rightarrow> nat set" where
  "managed a = (\<lambda>i. unat (address_for a i)) ` {..<fa_frame_count a}"

lemma managed_ranges:
  assumes wf: "fa_ranges_wf a" and rs: "fa_ranges a = mk_ranges 0 xs"
  shows "managed a = (\<Union>x\<in>set xs. run_pages (fa_page_size a) x)"
proof (intro subset_antisym subsetI)
  fix p
  assume "p \<in> managed a"
  then obtain i where i: "i < fa_frame_count a" "p = unat (address_for a i)" by (auto simp: managed_def)
  obtain m where m: "m < length xs" "fr_first (fa_ranges a ! m) \<le> i"
    "i < fr_first (fa_ranges a ! m) + fr_count (fa_ranges a ! m)"
    "p = unat (fr_base (fa_ranges a ! m)) + (i - fr_first (fa_ranges a ! m)) * unat (fa_page_size a)"
    using address_for_range [OF wf i(1)] i(2) rs by (metis length_mk_ranges)
  then have "p \<in> run_pages (fa_page_size a) (xs ! m)"
    using mk_ranges_nth [OF m(1), of 0] by (auto simp: run_pages_def rs)
  then show "p \<in> (\<Union>x\<in>set xs. run_pages (fa_page_size a) x)" using m(1) by auto
next
  fix p
  assume "p \<in> (\<Union>x\<in>set xs. run_pages (fa_page_size a) x)"
  then obtain m k where m: "m < length xs" "k < unat (snd (xs ! m))"
    "p = unat (fst (xs ! m)) + k * unat (fa_page_size a)"
    by (auto simp: run_pages_def in_set_conv_nth)
  let ?r = "fa_ranges a ! m"
  have r: "?r \<in> set (fa_ranges a)" "fr_base ?r = fst (xs ! m)" "fr_count ?r = unat (snd (xs ! m))"
    using m mk_ranges_nth [OF m(1), of 0] by (auto simp: rs)
  note at = address_for_in [OF wf r(1), of "fr_first ?r + k"]
  have bound: "unat (fr_base ?r) + k * unat (fa_page_size a) < 2 ^ 64"
  proof -
    have "ranges_ok (fa_page_size a) 0 0 (fa_ranges a)" using wf by (simp add: fa_ranges_wf_def)
    then have "unat (fr_base ?r) + fr_count ?r * unat (fa_page_size a) < 2 ^ 64"
      using ranges_ok_nth m(1) rs by (metis length_mk_ranges)
    moreover have "k * unat (fa_page_size a) \<le> fr_count ?r * unat (fa_page_size a)"
      using m(2) r(3) by (intro mult_right_mono) simp_all
    ultimately show ?thesis by linarith
  qed
  have "0 < unat (fa_page_size a)" using wf by (simp add: fa_ranges_wf_def unat_gt_0)
  then have "unat (address_for a (fr_first ?r + k)) = p"
    using at m r bound by (simp add: unat_add_mult)
  then show "p \<in> managed a" using at(1) m(2) r(3) by (force simp: managed_def)
qed

section \<open>Histories and handles\<close>

text \<open>The public operations that change the allocator, and what each makes of it.\<close>

datatype frame_op =
    Initialize "memory_region list" usize "uptr \<times> usize"
  | Allocate
  | Allocate_charged charge_account
  | Allocate_contiguous nat charge_account usize
  | Release physical_frame
  | Release_charged physical_frame charge_account
  | Release_contiguous physical_frame nat charge_account

fun fa_apply :: "frame_op \<Rightarrow> frame_allocator \<Rightarrow> frame_allocator" where
  "fa_apply (Initialize rs ps metadata) a = snd (fa_initialize a rs ps metadata)"
| "fa_apply Allocate a = snd (fa_allocate a)"
| "fa_apply (Allocate_charged acc) a = fst (snd (fa_allocate_charged a acc))"
| "fa_apply (Allocate_contiguous n acc alignment) a = fst (snd (fa_allocate_contiguous a n acc alignment))"
| "fa_apply (Release f) a = snd (fa_release a f)"
| "fa_apply (Release_charged f acc) a = fst (snd (fa_release_charged a f acc))"
| "fa_apply (Release_contiguous f n acc) a = fst (snd (fa_release_contiguous a f n acc))"

definition fa_run :: "frame_op list \<Rightarrow> frame_allocator \<Rightarrow> frame_allocator" where
  "fa_run ops a = fold fa_apply ops a"

text \<open>
  \<open>allocate()\<close> stops when the 64-bit generation counter has wrapped to zero, contiguous
  allocation does not. \<open>counter_open\<close> says of a history that every contiguous allocation in
  it is made while the counter is not zero; property \<open>contiguous_after_exhaustion\<close> shows what
  happens otherwise.
\<close>

definition op_open :: "frame_op \<Rightarrow> frame_allocator \<Rightarrow> bool" where
  "op_open op a = (case op of Allocate_contiguous n acc alignment \<Rightarrow> fa_next_generation a \<noteq> 0 | _ \<Rightarrow> True)"

fun counter_open :: "frame_op list \<Rightarrow> frame_allocator \<Rightarrow> bool" where
  "counter_open [] a = True"
| "counter_open (op # ops) a = (op_open op a \<and> counter_open ops (fa_apply op a))"

definition open_step :: "frame_allocator \<Rightarrow> frame_allocator \<Rightarrow> bool" where
  "open_step a b \<longleftrightarrow> (\<exists>op. op_open op a \<and> b = fa_apply op a)"

lemma fa_run_append: "fa_run (xs @ ys) a = fa_run ys (fa_run xs a)"
  by (simp add: fa_run_def)

lemma counter_open_append: "counter_open (xs @ ys) a \<longleftrightarrow> counter_open xs a \<and> counter_open ys (fa_run xs a)"
  by (induction xs arbitrary: a) (simp_all add: fa_run_def)

lemma open_run: "counter_open ops a \<Longrightarrow> open_step\<^sup>*\<^sup>* a (fa_run ops a)"
proof (induction ops arbitrary: a)
  case (Cons op ops)
  then have "open_step a (fa_apply op a)" by (auto simp: open_step_def)
  then show ?case using Cons by (simp add: fa_run_def converse_rtranclp_into_rtranclp)
qed (simp add: fa_run_def)

lemma fa_allocate_charged_state:
  "fst (snd (fa_allocate_charged a acc)) = a \<or> fst (snd (fa_allocate_charged a acc)) = snd (fa_allocate a)"
  by (auto simp: fa_allocate_charged_def split: prod.splits sum.splits)

lemma fa_release_charged_state:
  "fst (snd (fa_release_charged a f acc)) = a \<or> fst (snd (fa_release_charged a f acc)) = snd (fa_release a f)"
  by (auto simp: fa_release_charged_def split: prod.splits)

lemma follows_contiguous:
  assumes wf: "fa_wf a" and g: "fa_next_generation a \<noteq> 0"
  shows "follows a (fst (snd (fa_allocate_contiguous a n acc alignment)))"
proof (cases rule: fa_allocate_contiguous_cases [OF wf g, of n acc alignment])
  case (1 e)
  then show ?thesis using follows_refl [OF wf] by simp
next
  case (2 r x)
  then show ?thesis using take_run_spec [OF wf g 2(4)] window_frames [OF wf 2(1,3,2)] by simp
qed

lemma follows_release_contiguous:
  assumes wf: "fa_wf a"
  shows "follows a (fst (snd (fa_release_contiguous a f n acc)))"
proof (cases rule: fa_release_contiguous_cases [OF wf, of f n acc])
  case (1 e)
  then show ?thesis using follows_refl [OF wf] by simp
next
  case 2
  then show ?thesis using follows_after_release [OF wf 2(3,4)] by simp
qed

lemma open_step_follows:
  assumes "open_step a b" and wf: "fa_wf a"
  shows "follows a b"
proof -
  obtain op where op: "op_open op a" and b: "b = fa_apply op a" using assms(1) by (auto simp: open_step_def)
  show ?thesis
  proof (cases op)
    case (Allocate_charged acc)
    then show ?thesis using fa_allocate_charged_state [of a acc] follows_refl [OF wf] follows_allocate [OF wf] b
      by (metis fa_apply.simps(3))
  next
    case (Release_charged f acc)
    then show ?thesis using fa_release_charged_state [of a f acc] follows_refl [OF wf] follows_release [OF wf] b
      by (metis fa_apply.simps(6))
  qed (use op in \<open>simp_all add: b wf op_open_def follows_initialize follows_allocate follows_contiguous
        follows_release follows_release_contiguous\<close>)
qed

text \<open>How far one operation can move the counter, and how long a history stays open for sure.\<close>

fun frames_asked :: "frame_op \<Rightarrow> nat" where
  "frames_asked Allocate = 1"
| "frames_asked (Allocate_charged acc) = 1"
| "frames_asked (Allocate_contiguous n acc alignment) = n"
| "frames_asked _ = 0"

lemma allocate_advance:
  "fa_next_generation (snd (fa_allocate a)) = fa_next_generation a \<or>
   fa_next_generation (snd (fa_allocate a)) = fa_next_generation a + 1"
  by (simp add: fa_allocate_def Let_def case_prod_beta fa_simps split: option.splits)

lemma next_generation_advance:
  "fa_next_generation (fa_apply op a) = fa_next_generation a \<or>
   fa_next_generation (fa_apply op a) = fa_next_generation a + of_nat (frames_asked op)"
proof (cases op)
  case (Initialize rs ps metadata)
  then show ?thesis by (cases rule: fa_initialize_cases [of a rs ps metadata]) simp_all
next
  case (Allocate_contiguous n acc alignment)
  then show ?thesis
    by (auto simp: fa_allocate_contiguous_def Let_def fa_simps split: option.splits prod.splits)
next
  case (Allocate_charged acc)
  then show ?thesis using allocate_advance [of a] fa_allocate_charged_state [of a acc] by auto
qed (use allocate_advance [of a] in \<open>auto simp: fa_release_eq fa_release_charged_def fa_release_contiguous_def
      Let_def fa_simps simp flip: free_run_def split: prod.splits\<close>)

lemma counter_open_asked:
  assumes "fa_next_generation a \<noteq> 0" and "unat (fa_next_generation a) + sum_list (map frames_asked ops) < 2 ^ 64"
  shows "counter_open ops a"
  using assms
proof (induction ops arbitrary: a)
  case (Cons op ops)
  let ?g = "fa_next_generation a" and ?h = "fa_next_generation (fa_apply op a)"
  have "unat ?h \<le> unat ?g + frames_asked op \<and> ?h \<noteq> 0"
  proof (cases "?h = ?g")
    case False
    then have h: "?h = ?g + of_nat (frames_asked op)" using next_generation_advance [of op a] by simp
    have "unat (of_nat (frames_asked op) :: u64) = frames_asked op" using Cons.prems by (intro unat_of_nat_small) simp
    then have "unat ?h = unat ?g + frames_asked op" unfolding h using Cons.prems by (subst unat_add_headroom) simp_all
    then show ?thesis using Cons.prems(1) by (metis add_is_0 le_refl unat_0 unat_eq_zero)
  qed (use Cons.prems in simp)
  then have "counter_open ops (fa_apply op a)" using Cons.prems by (intro Cons.IH) simp_all
  then show ?case using Cons.prems(1) by (simp add: op_open_def split: frame_op.split)
qed simp

interpretation frames: generational fa_wf open_step exact "\<lambda>a f. last_issued a" "\<lambda>f. unat (pf_generation f)"
proof unfold_locales
  fix a b f
  assume wf: "fa_wf a"
  show "exact a f \<Longrightarrow> unat (pf_generation f) \<le> last_issued a" by (rule exact_issued [OF wf])
  assume step: "open_step a b"
  note fol = open_step_follows [OF step wf, unfolded follows_def]
  show "fa_wf b" and "last_issued a \<le> last_issued b" using fol by blast+
  show "exact b f \<Longrightarrow> \<not> exact a f \<Longrightarrow> last_issued a < unat (pf_generation f)" using fol by blast
qed

section \<open>Lookup in both directions\<close>

lemma index_of_Inr:
  assumes wf: "fa_ranges_wf a" and x: "index_of a x = Inr i"
  shows "i < fa_frame_count a \<and> address_for a i = x"
proof -
  let ?rs = "fa_ranges a" and ?ps = "fa_page_size a"
  have ok: "ranges_ok ?ps 0 0 ?rs" and P: "0 < unat ?ps"
    using wf by (auto simp: fa_ranges_wf_def unat_gt_0)
  obtain m where m: "bsearch (address_probe ?rs ?ps x) 0 (length ?rs) = Some m"
    "(x - fr_base (?rs ! m)) mod ?ps = 0" "i = fr_first (?rs ! m) + unat ((x - fr_base (?rs ! m)) div ?ps)"
    using x by (auto simp: index_of_def Let_def split: if_splits option.splits)
  let ?r = "?rs ! m" and ?k = "unat ((x - fr_base (?rs ! m)) div ?ps)"
  have ml: "m < length ?rs" and "address_probe ?rs ?ps x m = Probe_here"
    using m(1) by (auto simp: bsearch_eq_Some [OF address_probe_sorted [OF ok P]])
  then have k: "?k < fr_count ?r" by (auto simp: address_probe_def Let_def split: if_splits)
  note at = address_for_in [OF wf nth_mem [OF ml], of i]
  have "of_nat ?k * ?ps = x - fr_base ?r" using m(2) div_mult_mod_eq [of "x - fr_base ?r" ?ps] by simp
  then show ?thesis using at k m(3) by simp
qed

section \<open>Accounting\<close>

text \<open>Charged operations on one account.\<close>

inductive charged_step ::
    "frame_allocator \<times> charge_account \<Rightarrow> frame_allocator \<times> charge_account \<Rightarrow> bool" where
  init: "charged_step (a, acc) (snd (fa_initialize a rs ps metadata), acc)"
| alloc: "charged_step (a, acc) (snd (fa_allocate_charged a acc))"
| contiguous: "charged_step (a, acc) (snd (fa_allocate_contiguous a n acc alignment))"
| release: "charged_step (a, acc) (snd (fa_release_charged a f acc))"
| release_contiguous: "charged_step (a, acc) (snd (fa_release_contiguous a f n acc))"

inductive_cases charged_stepE: "charged_step (a, acc) q"

definition balanced :: "frame_allocator \<times> charge_account \<Rightarrow> bool" where
  "balanced p \<longleftrightarrow> fa_counted (fst p) \<and> used_units (snd p) = fa_used_count (fst p)"

lemma fa_allocate_count:
  assumes ct: "fa_counted a"
  shows "fa_used_count (snd (fa_allocate a)) = fa_used_count a + (if result_ok (fst (fa_allocate a)) then 1 else 0)"
    and "fa_counted (snd (fa_allocate a))" and "\<not> result_ok (fst (fa_allocate a)) \<Longrightarrow> snd (fa_allocate a) = a"
proof -
  show "fa_counted (snd (fa_allocate a))"
  proof (cases "fa_used_count a < fa_frame_count a \<and> fa_next_generation a \<noteq> 0")
    case True
    then obtain i where "i < fa_frame_count a" "\<not> fa_used a i" "fa_allocate a = (Inr (fst (fa_take a i)),
        (snd (fa_take a i))\<lparr>fa_hint := (if i + 1 < fa_frame_count a then i + 1 else 0)\<rparr>)"
      using fa_allocate_success [OF ct] by metis
    then show ?thesis using fa_counted_take [OF ct] by (simp add: fa_simps)
  qed (simp add: fa_allocate_errors [OF ct] ct)
  show "fa_used_count (snd (fa_allocate a)) = fa_used_count a + (if result_ok (fst (fa_allocate a)) then 1 else 0)"
    by (simp add: fa_allocate_def Let_def case_prod_beta fa_simps split: option.splits)
  show "snd (fa_allocate a) = a" if "\<not> result_ok (fst (fa_allocate a))"
    using that by (simp add: fa_allocate_def Let_def case_prod_beta split: option.splits if_splits)
qed

lemma balanced_init:
  assumes "balanced (a, acc)"
  shows "balanced (snd (fa_initialize a rs ps metadata), acc)"
proof (cases "fst (fa_initialize a rs ps metadata) = S_ok")
  case True
  note init = fa_initialize_fresh [OF True]
  show ?thesis using fa_wf_counted [OF init(1)] init(10,11) assms by (simp add: balanced_def)
next
  case False
  then have "snd (fa_initialize a rs ps metadata) = a"
    by (cases rule: fa_initialize_cases [of a rs ps metadata]) auto
  then show ?thesis using assms by simp
qed

lemma balanced_alloc:
  assumes "balanced (a, acc)"
  shows "balanced (snd (fa_allocate_charged a acc))"
proof (cases "fst (charge acc 1) = S_ok")
  case True
  have ct: "fa_counted a" and u: "used_units acc = fa_used_count a" using assms by (auto simp: balanced_def)
  note cnt = fa_allocate_count [OF ct]
  have up: "used_units (snd (charge acc 1)) = fa_used_count a + 1" using ca.take_ok [OF True] u by simp
  have undo: "used_units (snd (uncharge (snd (charge acc 1)) 1)) = fa_used_count a" using ca.rollback(2) [OF True] u by simp
  show ?thesis
    using assms True cnt up undo
    by (auto simp: fa_allocate_charged_def balanced_def result_ok_def split: prod.splits sum.splits)
next
  case False
  then show ?thesis using assms ca.take_failed [OF False]
    by (auto simp: fa_allocate_charged_def balanced_def split: prod.splits)
qed

lemma counted_unat_count: "fa_counted a \<Longrightarrow> n \<le> fa_frame_count a \<Longrightarrow> unat (of_nat n :: usize) = n"
  by (intro unat_of_nat_small) (auto simp: fa_counted_def fa_shape_def)

lemmas unat_count = counted_unat_count [OF fa_wf_counted]

lemma take_run_count: "fa_used_count (take_run a first n) = fa_used_count a + n"
  by (induction n) (simp_all add: take_run_Suc fa_simps)

lemma balanced_contiguous:
  assumes "balanced (a, acc)"
  shows "balanced (snd (fa_allocate_contiguous a n acc alignment))"
proof -
  have ct: "fa_counted a" and sh: "fa_shape a" and u: "used_units acc = fa_used_count a"
    using assms by (auto simp: balanced_def fa_counted_def)
  show ?thesis
  proof (cases rule: fa_allocate_contiguous_effect [OF sh, of n acc alignment])
    case (1 e)
    then show ?thesis using assms(1) by simp
  next
    case (2 r x)
    note win = counted_window_frames [OF ct 2(1,3,2)]
    show ?thesis
      using 2(6) ca.take_ok [OF 2(5)] u counted_unat_count [OF ct, of n] take_run_counted [OF ct win(1,2)] win(1)
      by (simp add: balanced_def take_run_count)
  qed
qed

lemma balanced_release_contiguous:
  assumes "balanced (a, acc)"
  shows "balanced (snd (fa_release_contiguous a f n acc))"
proof -
  have ct: "fa_counted a" and u: "used_units acc = fa_used_count a" using assms by (auto simp: balanced_def)
  show ?thesis
  proof (cases rule: counted_release_contiguous_cases [OF ct, of f n acc])
    case (1 e)
    then show ?thesis using assms(1) by simp
  next
    case 2
    then show ?thesis
      using fa_counted_after_release(1) [OF ct 2(3,4)] ca.give_ok [of "of_nat n" acc] u counted_unat_count [OF ct, of n]
      by (simp add: balanced_def fa_simps)
  qed
qed

lemma balanced_release:
  assumes "balanced (a, acc)"
  shows "balanced (snd (fa_release_charged a f acc))"
proof (cases "exact a f \<and> fa_used a (pf_index f) \<and> ca_used acc \<noteq> 0")
  case True
  have ct: "fa_counted a" and u: "used_units acc = fa_used_count a" using assms by (auto simp: balanced_def)
  have "pf_index f < fa_frame_count a" "pf_index f \<in> used_set a"
    using True counted_exact_used [OF ct] by (auto simp: exact_def)
  then have "fa_counted (snd (fa_release a f))"
    using True fa_counted_after_release(1) [OF ct, of "pf_index f" 1] by (simp add: fa_release_eq)
  moreover have "fa_used_count (snd (fa_release a f)) = fa_used_count a - 1" "fst (fa_release a f) = S_ok"
    using True by (simp_all add: fa_release_eq fa_simps)
  moreover have "used_units (snd (uncharge acc 1)) = used_units acc - 1"
    using True ca.give_ok [of 1 acc] by (simp add: Suc_le_eq unat_gt_0)
  ultimately show ?thesis using True u by (auto simp: fa_release_charged_def balanced_def split: prod.splits)
next
  case False
  then show ?thesis using assms by (auto simp: fa_release_charged_def)
qed

lemma balanced_step: "charged_step p q \<Longrightarrow> balanced p \<Longrightarrow> balanced q"
  by (induction rule: charged_step.induct)
    (simp_all add: balanced_init balanced_alloc balanced_contiguous balanced_release balanced_release_contiguous)

lemma balanced_steps: "charged_step\<^sup>*\<^sup>* p q \<Longrightarrow> balanced p \<Longrightarrow> balanced q"
  by (induction rule: rtranclp_induct) (auto intro: balanced_step)

section \<open>Properties\<close>

text \<open>A machine with five pages of RAM from 0x1000 on, and its allocator.\<close>

definition ram5 :: "memory_region list" where
  "ram5 = [\<lparr>mr_base = 0x1000, mr_size = 0x5800, mr_type = Usable\<rparr>]"

definition alloc5 :: frame_allocator where
  "alloc5 = snd (fa_initialize (frame_allocator_new 7) ram5 0x1000 (0x100000, 0x1000))"

lemma alloc5_ok: "fst (fa_initialize (frame_allocator_new 7) ram5 0x1000 (0x100000, 0x1000)) = S_ok"
  by code_simp

lemmas alloc5_init = fa_initialize_fresh [OF alloc5_ok, folded alloc5_def]

lemma alloc5_fields:
  "fa_frame_count alloc5 = 5" "fa_next_generation alloc5 = 1" "fa_used_count alloc5 = 0"
  "fa_page_size alloc5 = 0x1000" "map (address_for alloc5) [0..<5] = [0x1000, 0x2000, 0x3000, 0x4000, 0x5000]"
  by code_simp+

text \<open>
  C11: A successful initialization manages exactly the aligned pages that consist of usable
  bytes no other region claims, with no frame in use; the previous frames must all be free,
  the page size a power of two, and no region may wrap.
\<close>

theorem initialize_manages_usable_pages:
  assumes "fst (fa_initialize a rs ps metadata) = S_ok"
  shows "fa_wf (snd (fa_initialize a rs ps metadata))
    \<and> used_set (snd (fa_initialize a rs ps metadata)) = {}
    \<and> managed (snd (fa_initialize a rs ps metadata))
      = {p. unat ps dvd p \<and> (\<forall>b. p \<le> b \<and> b < p + unat ps \<longrightarrow> free_byte rs b)}"
proof -
  note i = fa_initialize_fresh [OF assms]
  have "fa_ranges_wf (snd (fa_initialize a rs ps metadata))" using i(1) by (simp add: fa_wf_def fa_shape_def)
  from managed_ranges [OF this i(5)] show ?thesis
    using i(1,2,6) usable_runs_pages [OF i(8,9)] by simp
qed

theorem initialize_manages_usable_pages_witness:
  "fst (fa_initialize (frame_allocator_new 7) ram5 0x1000 (0x100000, 0x1000)) = S_ok \<and>
   managed alloc5 = {p. unat (0x1000 :: usize) dvd p \<and>
     (\<forall>b. p \<le> b \<and> b < p + unat (0x1000 :: usize) \<longrightarrow> free_byte ram5 b)}"
  using initialize_manages_usable_pages [OF alloc5_ok] alloc5_ok by (simp add: alloc5_def)

text \<open>
  Frame indices and frame addresses are in bijection: looking up the address of a managed
  frame gives back its index, and an address that is found is the address of that frame.
\<close>

lemma frame_lookup_inverse:
  assumes "fa_wf a"
  shows "index_of a x = Inr i \<longleftrightarrow> i < fa_frame_count a \<and> address_for a i = x"
proof -
  have "fa_ranges_wf a" using assms by (simp add: fa_wf_def fa_shape_def)
  then show ?thesis using index_of_Inr index_of_address_for by metis
qed

text \<open>
  C14: \<open>allocate()\<close> on a well-formed allocator fails only when it is not initialized, when
  every frame is in use, or when the generation sequence is exhausted, and then changes
  nothing. Otherwise it hands out a frame that was free, at that frame's address, under a
  generation never issued before; every other handle keeps its meaning.
\<close>

theorem allocate_correct:
  assumes wf: "fa_wf a"
  shows "case fa_allocate a of
      (Inl e, a') \<Rightarrow> a' = a \<and> (e = S_not_initialized \<and> fa_frame_count a = 0
          \<or> e = S_no_memory \<and> used_set a = {..<fa_frame_count a}
          \<or> e = S_overflow \<and> fa_next_generation a = 0)
    | (Inr f, a') \<Rightarrow> fa_wf a' \<and> exact a' f \<and> pf_index f \<notin> used_set a
        \<and> used_set a' = insert (pf_index f) (used_set a)
        \<and> pf_address f = address_for a (pf_index f) \<and> last_issued a < unat (pf_generation f)
        \<and> (\<forall>g. pf_index g \<noteq> pf_index f \<longrightarrow> exact a' g = exact a g)"
proof (cases "fa_used_count a < fa_frame_count a \<and> fa_next_generation a \<noteq> 0")
  case True
  have sh: "fa_shape a" using wf by (simp add: fa_wf_def)
  obtain i where i: "i < fa_frame_count a" "\<not> fa_used a i"
    and eq: "fa_allocate a = (Inr (fst (fa_take a i)),
      (snd (fa_take a i))\<lparr>fa_hint := (if i + 1 < fa_frame_count a then i + 1 else 0)\<rparr>)"
    using True by (blast intro: fa_allocate_success [OF fa_wf_counted [OF wf]])
  have g: "fa_next_generation a \<noteq> 0" using True by simp
  let ?f = "fst (fa_take a i)" and ?b = "snd (fa_take a i)"
  have f: "pf_index ?f = i" "pf_address ?f = address_for a i"
    by (simp_all add: fst_fa_take frame_at_def address_for_take)
  have "exact ?b ?f" using exact_take [OF sh i(1)] f g by simp
  moreover from this have "last_issued a < unat (pf_generation ?f)"
    using follows_take [OF wf i g] exact_used [OF wf, of ?f] i(2) f by (auto simp: follows_def used_set_def)
  moreover have "i \<notin> used_set a" using i(2) by (simp add: used_set_def)
  ultimately show ?thesis
    using fa_wf_take [OF wf i g] f used_set_take [OF sh i(1)] exact_take [OF sh i(1)] by (simp add: eq fa_simps)
next
  case False
  have "fa_used_count a = fa_frame_count a \<Longrightarrow> used_set a = {..<fa_frame_count a}"
    using wf card_subset_eq [of "{..<fa_frame_count a}" "used_set a"] by (auto simp: fa_wf_def used_set_def)
  then show ?thesis using fa_allocate_errors [OF fa_wf_counted [OF wf] False] False fa_wf_used_le [OF wf] by auto
qed

theorem allocate_correct_witness:
  "fa_wf alloc5 \<and> map_sum id pf_address (fst (fa_allocate alloc5)) = Inr 0x1000
   \<and> fa_wf (snd (fa_allocate alloc5)) \<and> card (used_set (snd (fa_allocate alloc5))) = 1"
proof -
  have r: "map_sum id pf_address (fst (fa_allocate alloc5)) = Inr 0x1000" by code_simp
  then obtain f a' where f: "fa_allocate alloc5 = (Inr f, a')" by (cases "fa_allocate alloc5", cases "fst (fa_allocate alloc5)") auto
  show ?thesis using allocate_correct [OF alloc5_init(1)] alloc5_init(1,2) r by (simp add: f)
qed

end
