(* ===== verification/OK_Frame_Safety.thy ===== *)
theory OK_Frame_Safety
  imports OK_Frame_Props
begin

text \<open>
  Contiguous runs, accounting and handle safety of the frame allocator as properties over
  its public operations, the placement of its metadata, and what happens once the
  generation sequence is exhausted.
\<close>

section \<open>Contiguous runs\<close>

text \<open>
  C15: \<open>allocate_contiguous\<close> on a well-formed allocator whose generations are not exhausted
  either changes nothing, or hands out \<open>n\<close> free frames of one range at consecutive addresses
  from an aligned one, charges \<open>n\<close> units and marks exactly these frames. It fails on a valid
  request that the account can pay only if no such run exists.
\<close>

theorem allocate_contiguous_correct:
  assumes wf: "fa_wf a" and g: "fa_next_generation a \<noteq> 0"
  shows "case fa_allocate_contiguous a n acc alignment of
      (Inl e, a', acc') \<Rightarrow> a' = a \<and> acc' = acc
        \<and> (0 < n \<and> alignment AND (alignment - 1) = 0 \<and> n \<le> unat (- 1 - fa_next_generation a)
            \<and> fst (charge acc (of_nat n)) = S_ok \<longrightarrow>
            (\<forall>r\<in>set (fa_ranges a). \<forall>x. \<not> window a n alignment r x))
    | (Inr f, a', acc') \<Rightarrow> fa_wf a' \<and> exact a' f
        \<and> (\<exists>r\<in>set (fa_ranges a). window a n alignment r (pf_index f))
        \<and> (\<forall>i < n. address_for a (pf_index f + i) = pf_address f + of_nat i * fa_page_size a)
        \<and> {pf_index f..<pf_index f + n} \<inter> used_set a = {}
        \<and> used_set a' = used_set a \<union> {pf_index f..<pf_index f + n}
        \<and> used_units acc' = used_units acc + n"
proof (cases rule: fa_allocate_contiguous_cases [OF wf g, of n acc alignment])
  case (1 e)
  have "\<not> window a n alignment r x" if "0 < n" "alignment AND (alignment - 1) = 0"
    "n \<le> unat (- 1 - fa_next_generation a)" "fst (charge acc (of_nat n)) = S_ok" "r \<in> set (fa_ranges a)" for r x
    using fa_allocate_contiguous_complete [OF wf g that(3,1,2,5) _ that(4), of x] 1 by auto
  then show ?thesis using 1 by auto
next
  case (2 r x)
  note win = window_frames [OF wf 2(1,3,2)] and run = take_run_spec [OF wf g 2(4)]
  have "exact (take_run a x n) (frame_at (take_run a x n) x)"
    using run win 2(2) by (metis add_0_right)
  moreover have "pf_index (frame_at (take_run a x n) x) = x"
    "pf_address (frame_at (take_run a x n) x) = address_for a x"
    by (simp_all add: frame_at_def address_for_take_run)
  moreover have "used_units (snd (charge acc (of_nat n))) = used_units acc + n"
    using ca.take_ok [OF 2(5)] unat_count [OF wf, of n] win(1) by simp
  ultimately show ?thesis using run [OF win(1,2)] win 2 by (auto simp: follows_def)
qed

theorem allocate_contiguous_correct_witness:
  "fa_wf alloc5 \<and> fa_next_generation alloc5 \<noteq> 0 \<and>
   map_sum id pf_address (fst (fa_allocate_contiguous alloc5 2 (account_new 8) 0x2000)) = Inr 0x2000 \<and>
   used_units (snd (snd (fa_allocate_contiguous alloc5 2 (account_new 8) 0x2000))) = 2"
proof -
  have g: "fa_next_generation alloc5 \<noteq> 0" by (simp add: alloc5_fields)
  have r: "map_sum id pf_address (fst (fa_allocate_contiguous alloc5 2 (account_new 8) 0x2000)) = Inr 0x2000"
    by code_simp
  then obtain f p where "fa_allocate_contiguous alloc5 2 (account_new 8) 0x2000 = (Inr f, p)"
    by (cases "fa_allocate_contiguous alloc5 2 (account_new 8) 0x2000"; cases "fst (fa_allocate_contiguous alloc5 2 (account_new 8) 0x2000)") auto
  then show ?thesis
    using allocate_contiguous_correct [OF alloc5_init(1) g, where n = 2 and acc = "account_new 8" and alignment = "0x2000"] alloc5_init(1) g r
    by (cases p) (simp add: account_new_def)
qed

text \<open>
  C21: Giving a contiguous run back undoes taking it, if it was taken while the generation
  counter was not zero: the frames in use and the units charged are what they were before, and
  the handle is dead.
\<close>

theorem contiguous_roundtrip:
  assumes wf: "fa_wf a" and g: "fa_next_generation a \<noteq> 0"
    and alloc: "fa_allocate_contiguous a n acc alignment = (Inr f, a', acc')"
  shows "case fa_release_contiguous a' f n acc' of (st, a'', acc'') \<Rightarrow>
    st = S_ok \<and> fa_wf a'' \<and> used_set a'' = used_set a \<and> used_units acc'' = used_units acc \<and> \<not> exact a'' f"
proof -
  obtain r x where rx: "r \<in> set (fa_ranges a)" "0 < n" "window a n alignment r x"
      "n \<le> unat (- 1 - fa_next_generation a)" "fst (charge acc (of_nat n)) = S_ok"
    and f: "f = frame_at (take_run a x n) x" and a': "a' = take_run a x n" and acc': "acc' = snd (charge acc (of_nat n))"
    using alloc by (cases rule: fa_allocate_contiguous_cases [OF wf g, of n acc alignment]) auto
  note win = window_frames [OF wf rx(1,3,2)] and run = take_run_spec [OF wf g rx(4)]
  note taken = run [OF win(1,2), folded a']
  have run': "fa_wf a'" "used_set a' = used_set a \<union> {x..<x + n}" using taken by (simp_all add: follows_def)
  have live: "exact a' f" using taken rx(2) by (metis add_0_right a' f)
  have fx: "pf_index f = x" "pf_address f = address_for a x" by (simp_all add: f frame_at_def address_for_take_run)
  have n: "unat (of_nat n :: usize) = n" using unat_count [OF wf] win(1) by simp
  have u: "used_units acc' = used_units acc + n" using ca.take_ok [OF rx(5)] n by (simp add: acc')
  have used: "fa_used a' (x + i)" if "i < n" for i
  proof -
    have "x + i \<in> used_set a'" using that by (simp add: run'(2))
    then show ?thesis by (simp add: used_set_def)
  qed
  have ok: "fst (fa_release_contiguous a' f n acc') = S_ok"
  proof -
    have "\<not> list_ex (\<lambda>i. \<not> fa_used a' (pf_index f + i)
        \<or> address_for a' (pf_index f + i) \<noteq> pf_address f + of_nat i * fa_page_size a') [1..<n]"
      using used win(4) by (simp add: list_ex_iff fx a' address_for_take_run fa_simps)
    moreover have "\<not> ca_used acc' < of_nat n" using u n by (simp add: word_less_nat_alt)
    moreover have "\<not> n > fa_frame_count a' - pf_index f" using win(1) by (simp add: a' fx fa_simps)
    ultimately show ?thesis using live rx(2) by (simp add: fa_release_contiguous_def Let_def)
  qed
  show ?thesis
  proof (cases rule: fa_release_contiguous_cases [OF run'(1), of f n acc'])
    case (1 e)
    then show ?thesis using ok by simp
  next
    case 2
    have "used_set a' - {x..<x + n} = used_set a" using win(2) by (auto simp: run'(2))
    moreover have "fa_shape a'" using run'(1) by (simp add: fa_wf_def)
    ultimately show ?thesis
      using fa_wf_after_release [OF run'(1) 2(3,4)] ca.give_ok [of "of_nat n" acc'] u n rx(2)
        exact_after_release [OF _ 2(3)] by (simp add: 2(6) fx(1))
  qed
qed

theorem contiguous_roundtrip_witness:
  "case fa_allocate_contiguous alloc5 2 (account_new 8) 0x2000 of
     (Inr f, a', acc') \<Rightarrow> used_set (fst (snd (fa_release_contiguous a' f 2 acc'))) = {}
   | (Inl e, _) \<Rightarrow> False"
proof -
  have g: "fa_next_generation alloc5 \<noteq> 0" by (simp add: alloc5_fields)
  have "result_ok (fst (fa_allocate_contiguous alloc5 2 (account_new 8) 0x2000))" by code_simp
  then obtain f a' acc' where eq: "fa_allocate_contiguous alloc5 2 (account_new 8) 0x2000 = (Inr f, a', acc')"
    by (cases "fa_allocate_contiguous alloc5 2 (account_new 8) 0x2000"; cases "fst (fa_allocate_contiguous alloc5 2 (account_new 8) 0x2000)") auto
  then show ?thesis using contiguous_roundtrip [OF alloc5_init(1) g eq] alloc5_init(2) by (auto simp: case_prod_beta)
qed

section \<open>Handles and accounts\<close>

text \<open>
  C1: A frame handle that was live and has been released never becomes live again, whatever
  allocator operations follow, reinitialization included, in every history whose contiguous
  allocations are made while the 64-bit generation counter has not wrapped to zero
  (\<open>counter_open\<close>). By \<open>counter_open_asked\<close> that holds of every history in which the
  current generation and the number of frames asked for add up to less than 2^64; \<open>contiguous_after_exhaustion\<close>
  shows that the condition is needed.
\<close>

theorem released_frame_stays_dead:
  assumes "fa_wf a" and "exact a f" and "\<not> exact (fa_run xs a) f" and "counter_open (xs @ ys) a"
  shows "\<not> fa_live (fa_run (xs @ ys) a) f"
proof -
  have "open_step\<^sup>*\<^sup>* a (fa_run xs a)" "open_step\<^sup>*\<^sup>* (fa_run xs a) (fa_run (xs @ ys) a)"
    using assms(4) by (simp_all add: counter_open_append fa_run_append open_run)
  then show ?thesis
    using frames.released_stays_dead [OF assms(1,2) _ assms(3)] by (simp add: fa_live_def fa_descriptor_def)
qed

definition frame0 :: physical_frame where
  "frame0 = \<lparr>pf_address = 0x1000, pf_index = 0, pf_owner = Some 7, pf_generation = 1\<rparr>"

theorem released_frame_stays_dead_witness:
  "exact (snd (fa_allocate alloc5)) frame0 \<and>
   \<not> fa_live (fa_run ([Release frame0] @ [Allocate, Allocate_contiguous 2 (account_new 8) 0x2000])
      (snd (fa_allocate alloc5))) frame0"
proof -
  let ?a = "snd (fa_allocate alloc5)" and ?xs = "[Release frame0]"
    and ?ys = "[Allocate, Allocate_contiguous 2 (account_new 8) 0x2000]"
  have wf: "fa_wf ?a" using follows_allocate [OF alloc5_init(1)] by (simp add: follows_def)
  have live: "exact ?a frame0" by code_simp
  have dead: "\<not> exact (fa_run ?xs ?a) frame0" by code_simp
  have g: "fa_next_generation ?a = 2" by code_simp
  then have "counter_open (?xs @ ?ys) ?a" by (intro counter_open_asked) simp_all
  with released_frame_stays_dead [OF wf live dead] live show ?thesis by blast
qed

text \<open>
  C18: As long as all frames are taken and given back through one account, the account is
  charged for exactly the frames marked used, and the allocator's own counter counts them,
  after every sequence of charged operations and reinitializations; this holds even after
  the generation counter has wrapped.
\<close>

theorem charges_match_frames:
  assumes "fa_counted a" and "used_units acc = fa_used_count a" and "charged_step\<^sup>*\<^sup>* (a, acc) (b, acc')"
  shows "fa_counted b \<and> used_units acc' = card (used_set b) \<and> fa_used_count b = card (used_set b)"
  using balanced_steps [OF assms(3)] assms(1,2) by (auto simp: balanced_def fa_counted_def)

theorem charges_match_frames_witness:
  "fa_counted alloc5 \<and> used_units (account_new 8) = fa_used_count alloc5 \<and>
   used_units (snd (snd (fa_allocate_charged alloc5 (account_new 8))))
     = card (used_set (fst (snd (fa_allocate_charged alloc5 (account_new 8)))))"
proof -
  let ?q = "snd (fa_allocate_charged alloc5 (account_new 8))"
  have "charged_step\<^sup>*\<^sup>* (alloc5, account_new 8) (fst ?q, snd ?q)"
    by (auto intro: charged_step.alloc)
  then show ?thesis
    using charges_match_frames [of alloc5 "account_new 8" "fst ?q" "snd ?q"] fa_wf_counted [OF alloc5_init(1)]
    by (simp add: alloc5_fields account_new_def)
qed

section \<open>Exhausted generations\<close>

lemma take_run_gen:
  assumes sh: "fa_shape a" and "first + n \<le> fa_frame_count a" and "j < n"
  shows "gen_at (take_run a first n) (first + j) = fa_next_generation a + of_nat j"
  using assms(2,3)
proof (induction n)
  case (Suc n)
  have "length (fa_descriptors (take_run a first n)) = fa_frame_count a"
    using sh by (induction n) (simp_all add: take_run_Suc fa_simps fa_shape_def)
  then have len: "first + n < length (fa_descriptors (take_run a first n))" using Suc.prems by simp
  show ?case
  proof (cases "j = n")
    case False
    then show ?thesis using Suc by (simp add: take_run_Suc gen_at_take [OF len])
  qed (simp add: take_run_Suc gen_at_take [OF len] fa_simps)
qed simp

text \<open>
  C40: Once the last generation has been issued and the counter has wrapped to zero,
  \<open>allocate()\<close> refuses, but \<open>allocate_contiguous\<close> does not. On a request for \<open>n\<close> frames that
  fit and can be paid it takes \<open>n\<close> free frames and charges them, yet reports \<open>not_found\<close>. In the
  state it leaves no handle makes \<open>release()\<close> free the first of them, and the \<open>k\<close>-th of the
  others carries generation \<open>k\<close> again, so that a handle to it from the first round of the
  counter is live whoever held it.
\<close>

theorem contiguous_after_exhaustion:
  assumes ct: "fa_counted a" and g: "fa_next_generation a = 0"
    and n: "0 < n" "alignment AND (alignment - 1) = 0"
    and fits: "r \<in> set (fa_ranges a)" "window a n alignment r x" and pay: "fst (charge acc (of_nat n)) = S_ok"
  shows "fst (fa_allocate a) = Inl S_overflow
    \<and> (case fa_allocate_contiguous a n acc alignment of (res, a', acc') \<Rightarrow>
      res = Inl S_not_found \<and> used_units acc' = used_units acc + n
      \<and> (\<exists>i. {i..<i + n} \<inter> used_set a = {} \<and> used_set a' = used_set a \<union> {i..<i + n}
          \<and> (\<forall>f. pf_index f = i \<longrightarrow> fst (fa_release a' f) \<noteq> S_ok)
          \<and> (\<forall>k. 0 < k \<and> k < n \<longrightarrow> exact a' \<lparr>pf_address = address_for a (i + k), pf_index = i + k,
                pf_owner = Some (fa_self a), pf_generation = of_nat k\<rparr>)))"
proof -
  have sh: "fa_shape a" using ct by (simp add: fa_counted_def)
  obtain i where i: "find_run_ranges a n alignment (fa_ranges a) = Some i"
    using find_run_ranges_None [OF _ n(1) fits(1)] fits(2) by (cases "find_run_ranges a n alignment (fa_ranges a)") auto
  obtain q where q: "q \<in> set (fa_ranges a)" "window a n alignment q i" using find_run_ranges_Some [OF i n(1)] by auto
  note win = counted_window_frames [OF ct q n(1)]
  let ?b = "take_run a i n"
  note gen = take_run_gen [OF sh win(1)]
  have lt: "n < 2 ^ 64" "fa_used_count a < fa_frame_count a"
    using win(1,3) sh n(1) by (auto simp: fa_shape_def)
  have g0: "gen_at ?b i = 0" using gen [of 0] n(1) g by simp
  then have dead: "\<not> exact ?b f" if "pf_index f = i" for f using that by (auto simp: exact_gen_at)
  have "handle_at ?b i = Inl S_not_found" using g0 by (simp add: handle_at_def gen_at_def)
  moreover have "n \<le> unat (- 1 - fa_next_generation a)" unfolding g unat_max_minus using lt(1) by simp
  ultimately have eq: "fa_allocate_contiguous a n acc alignment = (Inl S_not_found, ?b, snd (charge acc (of_nat n)))"
    using lt(2) n win(3) i pay by (simp add: fa_allocate_contiguous_alt [OF sh] case_prod_beta Let_def)
  have "of_nat k \<noteq> (0 :: u64)" if "0 < k" "k < n" for k
    using that lt(1) unat_of_nat_small [of k, where 'a = 64] by auto
  then have revived: "exact ?b \<lparr>pf_address = address_for a (i + k), pf_index = i + k,
      pf_owner = Some (fa_self a), pf_generation = of_nat k\<rparr>" if "0 < k" "k < n" for k
    using that gen [of k] g win(1) by (simp add: exact_gen_at fa_simps address_for_take_run)
  have "used_units (snd (charge acc (of_nat n))) = used_units acc + n"
    using ca.take_ok [OF pay] counted_unat_count [OF ct, of n] win(1) by simp
  then show ?thesis unfolding eq prod.case
    using lt(2) g take_run_counted [OF ct win(1,2)] win(2) dead revived
    by (intro conjI exI [of _ i]) (simp_all add: fa_allocate_def fa_release_eq)
qed

theorem contiguous_after_exhaustion_witness:
  "fst (fa_allocate (alloc5\<lparr>fa_next_generation := 0\<rparr>)) = Inl S_overflow \<and>
   fst (fa_allocate_contiguous (alloc5\<lparr>fa_next_generation := 0\<rparr>) 2 (account_new 8) 0) = Inl S_not_found"
proof -
  let ?a = "alloc5\<lparr>fa_next_generation := 0\<rparr>"
  have ct: "fa_counted ?a" using fa_wf_counted [OF alloc5_init(1)]
    by (simp add: fa_counted_def fa_shape_def fa_ranges_wf_def gen_at_def used_set_def fa_simps)
  have run: "find_run_ranges ?a 2 0 (fa_ranges ?a) = Some 0" by code_simp
  obtain r where r: "r \<in> set (fa_ranges ?a)" "window ?a 2 0 r 0" using find_run_ranges_Some [OF run] by auto
  have pay: "fst (charge (account_new 8) (of_nat 2)) = S_ok" by code_simp
  show ?thesis using contiguous_after_exhaustion [OF ct _ _ _ r pay] by (auto simp: case_prod_beta)
qed

section \<open>Metadata placement\<close>

lemma emit_all_ranges:
  "emit_all count_emit xs t = (S_ok, t') \<Longrightarrow> st_ranges t' = st_ranges t + of_nat (length xs)"
  by (induction xs arbitrary: t) (auto simp: count_emit_def split: if_splits)

lemma runs_sorted_total:
  "runs_sorted ps lo xs \<Longrightarrow> lo \<le> 2 ^ 64 \<Longrightarrow> lo + run_frames xs * unat ps \<le> 2 ^ 64"
proof (induction xs arbitrary: lo)
  case (Cons x xs)
  then show ?case using Cons.IH [of "Suc (run_end ps x)"] by (simp add: run_end_def algebra_simps)
qed simp

lemma runs_sorted_length: "runs_sorted ps lo xs \<Longrightarrow> length xs \<le> run_frames xs"
  by (induction xs arbitrary: lo) (force simp: word_less_nat_alt)+

lemma count_usable_bounds:
  assumes t: "count_usable rs ps = Inr t" and ps: "64 \<le> unat ps"
  shows "unat (st_ranges t) \<le> unat (st_frames t)" and "unat (st_frames t) \<le> 2 ^ 58"
proof -
  note c = count_usable_Inr [OF t]
  note sorted = usable_runs_sorted [OF c(1,2)]
  have "sweep_usable rs ps count_emit \<lparr>st_frames = 0, st_ranges = 0\<rparr> = (S_ok, t)"
    using t by (auto simp: count_usable_def split: prod.splits if_splits)
  then have eq: "st_ranges t = of_nat (length (usable_runs rs ps))"
    using emit_all_ranges [of _ "\<lparr>st_frames = 0, st_ranges = 0\<rparr>" t] by (simp add: sweep_usable_emits [OF c(1,2)])
  have le: "length (usable_runs rs ps) \<le> unat (st_frames t)"
    using runs_sorted_length [OF sorted] c(3) by simp
  then have "length (usable_runs rs ps) < 2 ^ LENGTH(64)" by (rule le_less_trans) simp
  then show "unat (st_ranges t) \<le> unat (st_frames t)" using le by (simp only: eq unat_of_nat_small)
  have "unat (st_frames t) * 64 \<le> unat (st_frames t) * unat ps" using ps by (intro mult_left_mono) simp_all
  also have "\<dots> \<le> 2 ^ 64" using runs_sorted_total [OF sorted] c(3) by simp
  finally show "unat (st_frames t) \<le> 2 ^ 58" by simp
qed

lemma metadata_words:
  fixes frames ranges :: usize
  assumes "unat ranges \<le> unat frames" and "unat frames \<le> 2 ^ 58"
  shows "unat ((frames + 63) div 64 * 8) = (unat frames + 63) div 64 * 8"
    and "unat (frames * sizeof_page_descriptor) = unat frames * 16"
    and "unat (ranges * sizeof_frame_range) = unat ranges * 24"
    and "unat (metadata_bytes_for frames ranges) =
      (unat frames + 63) div 64 * 8 + unat frames * 16 + unat ranges * 24 + 7"
proof -
  have d: "(unat frames + 63) div 64 \<le> 2 ^ 52 + 1" using assms(2) by simp
  have "unat (frames + 63) = unat frames + 63" using assms(2) by (subst unat_add_headroom) simp_all
  then have "unat ((frames + 63) div 64) = (unat frames + 63) div 64" by (simp add: unat_div)
  then show a: "unat ((frames + 63) div 64 * 8) = (unat frames + 63) div 64 * 8"
    using d by (subst unat_mult_small) simp_all
  show b: "unat (frames * sizeof_page_descriptor) = unat frames * 16"
    using assms by (subst unat_mult_small) (simp_all add: sizeof_page_descriptor_def)
  show c: "unat (ranges * sizeof_frame_range) = unat ranges * 24"
    using assms by (subst unat_mult_small) (simp_all add: sizeof_frame_range_def)
  have "metadata_bytes_for frames ranges =
      (frames + 63) div 64 * 8 + frames * sizeof_page_descriptor + ranges * sizeof_frame_range + 7"
    by (simp add: metadata_bytes_for_def metadata_alignment_def)
  then show "unat (metadata_bytes_for frames ranges) =
      (unat frames + 63) div 64 * 8 + unat frames * 16 + unat ranges * 24 + 7"
    using assms d a b c by (simp add: unat_add_headroom)
qed

text \<open>
  C37: When the storage is as large as \<open>metadata_bytes_for\<close> asks for the swept regions, the
  bitmap, the descriptors and the ranges lie inside it one after the other, 8-byte aligned,
  with no overlap and no arithmetic wrap-around, for every page size of at least 64 bytes.
\<close>

theorem metadata_layout_fits:
  assumes t: "count_usable rs ps = Inr t" and ps: "64 \<le> unat ps"
    and size: "metadata_bytes_for (st_frames t) (st_ranges t) \<le> bytes"
    and span: "unat start + unat bytes < 2 ^ 64"
  shows "case metadata_layout start (st_frames t) (st_ranges t) of (bitmap, descriptors, ranges) \<Rightarrow>
    unat start \<le> unat bitmap \<and> 8 dvd unat bitmap
    \<and> unat descriptors = unat bitmap + (unat (st_frames t) + 63) div 64 * 8
    \<and> unat ranges = unat descriptors + unat (st_frames t) * 16
    \<and> unat ranges + unat (st_ranges t) * 24 \<le> unat start + unat bytes"
proof -
  note w = metadata_words [OF count_usable_bounds [OF t ps]]
  let ?F = "unat (st_frames t)" and ?R = "unat (st_ranges t)" and ?S = "unat start"
  let ?al = "(start + metadata_alignment - 1) AND NOT (metadata_alignment - 1)"
  have fit: "?S + ((?F + 63) div 64 * 8 + ?F * 16 + ?R * 24 + 7) \<le> ?S + unat bytes"
    using size by (simp add: word_le_nat_alt w(4))
  have "start + metadata_alignment - 1 = start + 7" "metadata_alignment - 1 = mask 3"
    by (simp_all add: metadata_alignment_def mask_eq_exp_minus_1)
  moreover have "unat (start + 7) = ?S + 7" using fit span by (subst unat_add_headroom) simp_all
  ultimately have al: "unat ?al = (?S + 7) - (?S + 7) mod 8" by (simp only: unat_and_not_mask) simp
  have lo: "?S \<le> unat ?al" "unat ?al \<le> ?S + 7" "8 dvd unat ?al"
    using round_down_nat [of 8 "?S + 7"] dvd_minus_mod [of 8 "?S + 7"] unfolding al by linarith+
  have d: "unat (?al + (st_frames t + 63) div 64 * 8) = unat ?al + (?F + 63) div 64 * 8"
    using fit span lo(2) w(1) by (subst unat_add_headroom) simp_all
  have r: "unat (?al + (st_frames t + 63) div 64 * 8 + st_frames t * sizeof_page_descriptor)
      = unat ?al + (?F + 63) div 64 * 8 + ?F * 16"
    using fit span lo(2) w(2) d by (subst unat_add_headroom) simp_all
  show ?thesis unfolding metadata_layout_def Let_def prod.case using lo d r fit
    by (intro conjI) (assumption | linarith)+
qed

theorem metadata_layout_fits_witness:
  "case metadata_layout 0x100001 5 1 of (bitmap, descriptors, ranges) \<Rightarrow>
     8 dvd unat bitmap \<and> unat ranges + 24 \<le> 0x101001"
proof -
  have t: "count_usable ram5 0x1000 = Inr \<lparr>st_frames = 5, st_ranges = 1\<rparr>" by code_simp
  have "metadata_bytes_for 5 1 \<le> (0x1000 :: usize)" by code_simp
  then show ?thesis using metadata_layout_fits [OF t, of "0x1000" "0x100001"] by (auto simp: case_prod_beta)
qed

end
