(* ===== verification/OK_Physmap.thy ===== *)
theory OK_Physmap
  imports OK_Sweep
begin

text \<open>
  The physical memory map, \<^verbatim>\<open>include/ok/memory/physical_map.hpp\<close> and
  \<^verbatim>\<open>src/memory/physical_map.cpp\<close>: discovered regions in, sorted page-aligned usable
  ranges out. Region lists stand for the filled prefix of the fixed arrays; a range whose
  end wraps to address 0 reaches the top of the address space.
\<close>

section \<open>Data\<close>

datatype map_source = Src_synthetic | Src_e820 | Src_fdt | Src_board_table | Src_linker

record discovered_region =
  dr_region :: memory_region
  dr_source :: map_source

definition max_discovered_regions :: nat where
  "max_discovered_regions = 64"

record physical_map =
  pm_inputs :: "discovered_region list"
  pm_usable :: "memory_region list"
  pm_normalized :: bool

definition pm_new :: physical_map where
  "pm_new = \<lparr>pm_inputs = [], pm_usable = [], pm_normalized = False\<rparr>"

definition pm_reset :: "physical_map \<Rightarrow> physical_map" where
  "pm_reset m = m\<lparr>pm_inputs := [], pm_usable := [], pm_normalized := False\<rparr>"

section \<open>Adding regions\<close>

definition range_end :: "uptr \<Rightarrow> usize \<Rightarrow> uptr option" where
  "range_end base sz =
     (if sz = 0 then None
      else if base > - 1 - (sz - 1) then None
      else if base + (sz - 1) \<ge> base then Some (base + sz) else None)"

definition align_down :: "uptr \<Rightarrow> usize \<Rightarrow> uptr" where
  "align_down x alignment = x AND NOT (alignment - 1)"

text \<open>The second component is the overflow flag.\<close>

definition align_up_checked :: "uptr \<Rightarrow> usize \<Rightarrow> uptr \<times> bool" where
  "align_up_checked x alignment =
     (let mask = alignment - 1 in
      if x > - 1 - mask then (x, True) else ((x + mask) AND NOT mask, False))"

definition pm_add :: "physical_map \<Rightarrow> memory_region \<Rightarrow> map_source \<Rightarrow> status_code \<times> physical_map" where
  "pm_add m r src =
     (if mr_size r = 0 then (S_ok, m)
      else (case range_end (mr_base r) (mr_size r) of
          None \<Rightarrow> (S_invalid_argument, m)
        | Some _ \<Rightarrow>
            if length (pm_inputs m) = max_discovered_regions then (S_overflow, m)
            else (S_ok, m\<lparr>pm_inputs := pm_inputs m @ [\<lparr>dr_region = r, dr_source = src\<rparr>], pm_normalized := False\<rparr>)))"

definition pm_reserve :: "physical_map \<Rightarrow> uptr \<Rightarrow> usize \<Rightarrow> region_type \<Rightarrow> status_code \<times> physical_map" where
  "pm_reserve m base sz ty =
     (if ty = Usable then (S_invalid_argument, m)
      else pm_add m \<lparr>mr_base = base, mr_size = sz, mr_type = ty\<rparr> Src_linker)"

section \<open>Normalization\<close>

text \<open>One usable input, aligned.\<close>

definition candidate :: "usize \<Rightarrow> memory_region \<Rightarrow> memory_region option" where
  "candidate ps r =
     (if mr_type r \<noteq> Usable then None
      else (case align_up_checked (mr_base r) ps of (start, overflow) \<Rightarrow>
        if overflow then None
        else (let last_byte = mr_base r + (mr_size r - 1); end_aligned = align_down last_byte ps in
          if end_aligned < start then None
          else Some \<lparr>mr_base = start, mr_size = (end_aligned - start) + ps, mr_type = Usable\<rparr>)))"

primrec collect :: "usize \<Rightarrow> memory_region list \<Rightarrow> memory_region list \<Rightarrow> memory_region list result" where
  "collect ps [] work = Inr work"
| "collect ps (r # rs) work =
     (case candidate ps r of
        None \<Rightarrow> collect ps rs work
      | Some c \<Rightarrow>
          if length work = max_discovered_regions then Inl S_overflow else collect ps rs (work @ [c]))"

text \<open>A reservation rounded out: its first byte, its end, and whether it reaches the top.\<close>

record cut =
  cut_start :: uptr
  cut_end :: uptr
  cut_top :: bool

definition cut_of :: "usize \<Rightarrow> memory_region \<Rightarrow> cut" where
  "cut_of ps r =
     (case align_up_checked (mr_base r + (mr_size r - 1)) ps of (rend, overflow) \<Rightarrow>
        \<lparr>cut_start = align_down (mr_base r) ps, cut_end = rend, cut_top = (overflow \<or> rend = 0)\<rparr>)"

definition misses :: "cut \<Rightarrow> memory_region \<Rightarrow> bool" where
  "misses c w \<longleftrightarrow> (region_end w \<noteq> 0 \<and> region_end w \<le> cut_start c) \<or> (\<not> cut_top c \<and> cut_end c \<le> mr_base w)"

definition left_piece :: "cut \<Rightarrow> memory_region \<Rightarrow> memory_region list" where
  "left_piece c w =
     (if cut_start c > mr_base w
      then [\<lparr>mr_base = mr_base w, mr_size = cut_start c - mr_base w, mr_type = Usable\<rparr>] else [])"

definition right_piece :: "cut \<Rightarrow> memory_region \<Rightarrow> memory_region list" where
  "right_piece c w =
     (if \<not> cut_top c \<and> (region_end w = 0 \<or> cut_end c < region_end w)
      then [\<lparr>mr_base = cut_end c,
             mr_size = (if region_end w = 0 then 0 - cut_end c else region_end w - cut_end c), mr_type = Usable\<rparr>]
      else [])"

lemma left_piece_misses: "p \<in> set (left_piece c w) \<Longrightarrow> misses c p"
  by (auto simp: left_piece_def misses_def region_end_def split: if_splits)

lemma right_piece_misses: "p \<in> set (right_piece c w) \<Longrightarrow> misses c p"
  by (auto simp: right_piece_def misses_def split: if_splits)

definition remove_nth :: "nat \<Rightarrow> 'a list \<Rightarrow> 'a list" where
  "remove_nth w xs = take w xs @ drop (Suc w) xs"

lemma count_remove_nth:
  "w < length xs \<Longrightarrow> count_if P xs = count_if P (remove_nth w xs) + (if P (xs ! w) then 1 else 0)"
  using count_if_split [of w xs P] by (simp add: remove_nth_def)

text \<open>
  The subtraction loop of one reservation over the work list. After a split the scan starts
  over; it ends because every split leaves one overlapping entry less.
\<close>

function subtract_loop :: "cut \<Rightarrow> memory_region list \<Rightarrow> nat \<Rightarrow> memory_region list result" where
  "subtract_loop c work w =
     (if w < length work then
        (if misses c (work ! w) then subtract_loop c work (w + 1)
         else (let rest = remove_nth w work; l = left_piece c (work ! w); r = right_piece c (work ! w) in
           if l \<noteq> [] \<and> length rest = max_discovered_regions then Inl S_overflow
           else if r \<noteq> [] \<and> length (rest @ l) = max_discovered_regions then Inl S_overflow
           else subtract_loop c (rest @ l @ r) 0))
      else Inr work)"
  by pat_completeness auto
termination
proof (relation "measures [\<lambda>(c, work, w). count_if (\<lambda>r. \<not> misses c r) work, \<lambda>(c, work, w). length work - w]")
  fix c :: cut and work :: "memory_region list" and w rest l r
  assume w: "w < length work" and hit: "\<not> misses c (work ! w)"
    and eqs: "rest = remove_nth w work" "l = left_piece c (work ! w)" "r = right_piece c (work ! w)"
  have "count_if (\<lambda>r. \<not> misses c r) l = 0" "count_if (\<lambda>r. \<not> misses c r) r = 0"
    by (auto simp: eqs count_if_zero_iff left_piece_misses right_piece_misses)
  then have "count_if (\<lambda>r. \<not> misses c r) (rest @ l @ r) < count_if (\<lambda>r. \<not> misses c r) work"
    using count_remove_nth [OF w, of "\<lambda>r. \<not> misses c r"] hit by (simp add: eqs)
  then show "((c, rest @ l @ r, 0), (c, work, w))
      \<in> measures [\<lambda>(c, work, w). count_if (\<lambda>r. \<not> misses c r) work, \<lambda>(c, work, w). length work - w]"
    by simp
qed auto

declare subtract_loop.simps [simp del]

primrec subtract_all :: "usize \<Rightarrow> memory_region list \<Rightarrow> memory_region list \<Rightarrow> memory_region list result" where
  "subtract_all ps [] work = Inr work"
| "subtract_all ps (r # rs) work =
     (if mr_type r = Usable then subtract_all ps rs work
      else (case subtract_loop (cut_of ps r) work 0 of Inl e \<Rightarrow> Inl e | Inr work' \<Rightarrow> subtract_all ps rs work'))"

text \<open>Insertion sort by base, on the array.\<close>

primrec sift_down :: "memory_region \<Rightarrow> nat \<Rightarrow> memory_region list \<Rightarrow> memory_region list" where
  "sift_down key 0 work = work[0 := key]"
| "sift_down key (Suc j) work =
     (if mr_base (work ! j) > mr_base key then sift_down key j (work[Suc j := work ! j])
      else work[Suc j := key])"

definition sort_regions :: "memory_region list \<Rightarrow> memory_region list" where
  "sort_regions work = fold (\<lambda>i work. sift_down (work ! i) i work) [1..<length work] work"

text \<open>Merging neighbours; the last entry of \<open>out\<close> is \<open>usable_[usable_count_ - 1]\<close>.\<close>

definition merge_step :: "memory_region \<Rightarrow> memory_region list \<Rightarrow> memory_region list" where
  "merge_step r out =
     (if out \<noteq> [] \<and> region_end (last out) \<noteq> 0 \<and> mr_base r \<le> region_end (last out)
      then (if region_end r = 0 \<or> region_end r > region_end (last out)
            then butlast out @ [(last out)\<lparr>mr_size :=
                   (if region_end r = 0 then 0 - mr_base (last out) else region_end r - mr_base (last out))\<rparr>]
            else out)
      else out @ [r])"

definition merge_regions :: "memory_region list \<Rightarrow> memory_region list" where
  "merge_regions work = fold merge_step work []"

definition pm_normalize :: "physical_map \<Rightarrow> usize \<Rightarrow> status_code \<times> physical_map" where
  "pm_normalize m ps =
     (if ps = 0 \<or> \<not> power_of_two_or_zero ps then (S_invalid_argument, m)
      else (let inputs = map dr_region (pm_inputs m) in
        case collect ps inputs [] of Inl e \<Rightarrow> (e, m)
        | Inr work \<Rightarrow>
            (case subtract_all ps inputs work of Inl e \<Rightarrow> (e, m)
             | Inr work' \<Rightarrow>
                 (S_ok, m\<lparr>pm_usable := merge_regions (sort_regions work'), pm_normalized := True\<rparr>))))"

section \<open>Queries\<close>

definition usable_bytes :: "physical_map \<Rightarrow> usize" where
  "usable_bytes m = fold (\<lambda>r total. total + mr_size r) (pm_usable m) 0"

definition usable_pages :: "physical_map \<Rightarrow> usize \<Rightarrow> usize" where
  "usable_pages m ps = (if ps \<noteq> 0 then usable_bytes m div ps else 0)"

definition product_grade :: "physical_map \<Rightarrow> bool" where
  "product_grade m \<longleftrightarrow> pm_normalized m \<and> pm_usable m \<noteq> [] \<and>
     list_all (\<lambda>d. \<not> (mr_type (dr_region d) = Usable \<and> dr_source d = Src_synthetic)) (pm_inputs m)"

end
