(* ===== verification/OK_Physmap_Proofs.thy ===== *)
theory OK_Physmap_Proofs
  imports OK_Physmap
begin

text \<open>
  Normalization, byte by byte: what the code removes and keeps, the order and separation of
  its result, exactness on page-aligned input, the result on arbitrary input, and ranges that
  reach the top of the address space.
\<close>

section \<open>The bytes of a range\<close>

definition span_end :: "memory_region \<Rightarrow> nat" where
  "span_end r = (if region_end r = 0 then 2 ^ 64 else unat (region_end r))"

definition bytes :: "memory_region \<Rightarrow> nat set" where
  "bytes r = {unat (mr_base r)..<span_end r}"

definition bytes_of :: "memory_region list \<Rightarrow> nat set" where
  "bytes_of rs = (\<Union>r\<in>set rs. bytes r)"

lemma bytes_of_simps [simp]:
  "bytes_of [] = {}" "bytes_of (r # rs) = bytes r \<union> bytes_of rs" "bytes_of (rs @ qs) = bytes_of rs \<union> bytes_of qs"
  by (auto simp: bytes_of_def)

lemma bytes_of_set: "set rs = set qs \<Longrightarrow> bytes_of rs = bytes_of qs"
  by (simp add: bytes_of_def)

definition proper :: "memory_region \<Rightarrow> bool" where
  "proper r \<longleftrightarrow> unat (mr_base r) < span_end r"

lemma span_end_le: "span_end r \<le> 2 ^ 64"
  by (simp add: span_end_def less_imp_le)

definition cut_bytes :: "cut \<Rightarrow> nat set" where
  "cut_bytes c = {unat (cut_start c)..<(if cut_top c then 2 ^ 64 else unat (cut_end c))}"

lemma misses_bytes: "misses c r \<Longrightarrow> bytes r \<inter> cut_bytes c = {}"
  by (auto simp: misses_def bytes_def cut_bytes_def span_end_def word_le_nat_alt)

lemma left_piece_bytes:
  assumes "\<not> misses c w"
  shows "bytes_of (left_piece c w) = bytes w \<inter> {..<unat (cut_start c)}"
    and "p \<in> set (left_piece c w) \<Longrightarrow> proper p"
proof -
  have hit: "region_end w = 0 \<or> unat (cut_start c) < unat (region_end w)"
    using assms by (auto simp: misses_def word_le_nat_alt)
  have "unat (cut_start c) \<le> span_end w" using hit by (auto simp: span_end_def less_imp_le)
  moreover have "region_end \<lparr>mr_base = mr_base w, mr_size = cut_start c - mr_base w, mr_type = Usable\<rparr> = cut_start c"
    by (simp add: region_end_def)
  ultimately show "bytes_of (left_piece c w) = bytes w \<inter> {..<unat (cut_start c)}"
    and "p \<in> set (left_piece c w) \<Longrightarrow> proper p"
    by (auto simp: left_piece_def bytes_def span_end_def proper_def word_less_nat_alt split: if_splits)
qed

lemma right_piece_bytes:
  assumes "\<not> misses c w"
  shows "bytes_of (right_piece c w) = (if cut_top c then {} else bytes w \<inter> {unat (cut_end c)..})"
    and "p \<in> set (right_piece c w) \<Longrightarrow> proper p"
proof -
  let ?p = "\<lparr>mr_base = cut_end c, mr_size = (if region_end w = 0 then 0 - cut_end c else region_end w - cut_end c), mr_type = Usable\<rparr>"
  have e: "region_end ?p = region_end w" by (simp add: region_end_def)
  have hit: "cut_top c \<or> unat (mr_base w) < unat (cut_end c)" using assms by (auto simp: misses_def word_le_nat_alt)
  show "bytes_of (right_piece c w) = (if cut_top c then {} else bytes w \<inter> {unat (cut_end c)..})"
    using hit e by (auto simp: right_piece_def bytes_def span_end_def word_less_nat_alt)
  show "p \<in> set (right_piece c w) \<Longrightarrow> proper p"
    using e by (auto simp: right_piece_def proper_def span_end_def word_less_nat_alt split: if_splits)
qed

lemma split_bytes:
  assumes "\<not> misses c w"
  shows "bytes_of (left_piece c w @ right_piece c w) = bytes w - cut_bytes c"
proof -
  have "span_end w \<le> 2 ^ 64" by (rule span_end_le)
  then show ?thesis
    by (auto simp: left_piece_bytes [OF assms] right_piece_bytes [OF assms] cut_bytes_def bytes_def)
qed

lemma set_remove_nth: "w < length xs \<Longrightarrow> set xs = insert (xs ! w) (set (remove_nth w xs))"
  using id_take_nth_drop [of w xs] unfolding remove_nth_def
  by (metis Un_insert_right list.simps(15) set_append)

lemma bytes_remove_nth: "w < length xs \<Longrightarrow> bytes_of xs = bytes (xs ! w) \<union> bytes_of (remove_nth w xs)"
  unfolding bytes_of_def by (simp add: set_remove_nth)

section \<open>Subtraction\<close>

text \<open>A property of ranges that both pieces inherit.\<close>

definition inherited :: "(memory_region \<Rightarrow> bool) \<Rightarrow> cut \<Rightarrow> bool" where
  "inherited P c \<longleftrightarrow> (\<forall>w p. P w \<and> \<not> misses c w \<and> p \<in> set (left_piece c w @ right_piece c w) \<longrightarrow> P p)"

lemma subtract_loop_spec:
  assumes "subtract_loop c work w = Inr work'" and "\<forall>k < w. k < length work \<longrightarrow> misses c (work ! k)"
    and "inherited P c" and "\<forall>r\<in>set work. P r"
  shows "bytes_of work' = bytes_of work - cut_bytes c \<and> (\<forall>r\<in>set work'. P r)"
  using assms
proof (induction c work w rule: subtract_loop.induct)
  case (1 c work w)
  show ?case
  proof (cases "w < length work")
    case False
    then have "work' = work" using "1.prems"(1) by (simp add: subtract_loop.simps)
    moreover have "\<forall>r\<in>set work. misses c r" using "1.prems"(2) False by (auto simp: in_set_conv_nth)
    ultimately show ?thesis using "1.prems"(4) misses_bytes by (fastforce simp: bytes_of_def)
  next
    case w: True
    show ?thesis
    proof (cases "misses c (work ! w)")
      case True
      then show ?thesis using 1(1) [OF w True] "1.prems" w
        by (subst (asm) (2) subtract_loop.simps) (auto simp: less_Suc_eq)
    next
      case hit: False
      let ?l = "left_piece c (work ! w)" and ?r = "right_piece c (work ! w)" and ?rest = "remove_nth w work"
      have rec: "subtract_loop c (?rest @ ?l @ ?r) 0 = Inr work'"
        and ok: "\<not> (?l \<noteq> [] \<and> length ?rest = max_discovered_regions)"
          "\<not> (?r \<noteq> [] \<and> length (?rest @ ?l) = max_discovered_regions)"
        using "1.prems"(1) w hit by (auto simp: subtract_loop.simps [of c work w] Let_def split: if_splits)
      have all: "\<forall>r\<in>set (?rest @ ?l @ ?r). P r"
        using "1.prems"(3,4) hit set_remove_nth [OF w] w by (auto simp: inherited_def)
      have "bytes_of work' = bytes_of (?rest @ ?l @ ?r) - cut_bytes c \<and> (\<forall>r\<in>set work'. P r)"
        by (rule 1(2) [OF w hit refl refl refl ok rec _ "1.prems"(3) all]) simp
      moreover have "bytes_of (?rest @ ?l @ ?r) - cut_bytes c = bytes_of work - cut_bytes c"
        using split_bytes [OF hit] unfolding bytes_remove_nth [OF w] bytes_of_simps by blast
      ultimately show ?thesis by simp
    qed
  qed
qed

lemma subtract_all_spec:
  assumes "subtract_all ps rs work = Inr work'"
    and "\<And>r. r \<in> set rs \<Longrightarrow> mr_type r \<noteq> Usable \<Longrightarrow> inherited P (cut_of ps r)" and "\<forall>r\<in>set work. P r"
  shows "bytes_of work' = bytes_of work - (\<Union>r\<in>{r \<in> set rs. mr_type r \<noteq> Usable}. cut_bytes (cut_of ps r))
    \<and> (\<forall>r\<in>set work'. P r)"
  using assms
proof (induction rs arbitrary: work)
  case (Cons r rs)
  show ?case
  proof (cases "mr_type r = Usable")
    case True
    moreover have "{q \<in> set (r # rs). mr_type q \<noteq> Usable} = {q \<in> set rs. mr_type q \<noteq> Usable}" using True by auto
    ultimately show ?thesis using Cons by simp
  next
    case False
    then obtain mid where mid: "subtract_loop (cut_of ps r) work 0 = Inr mid" "subtract_all ps rs mid = Inr work'"
      using Cons.prems(1) by (auto split: sum.splits)
    have m: "bytes_of mid = bytes_of work - cut_bytes (cut_of ps r) \<and> (\<forall>r\<in>set mid. P r)"
      using Cons.prems(2) [of r] Cons.prems(3) False by (intro subtract_loop_spec [OF mid(1)]) simp_all
    have "{q \<in> set (r # rs). mr_type q \<noteq> Usable} = insert r {q \<in> set rs. mr_type q \<noteq> Usable}" using False by auto
    then show ?thesis using Cons.IH [OF mid(2)] Cons.prems(2) m by (simp add: Diff_eq Int_assoc)
  qed
qed simp


section \<open>Collection\<close>

lemma collect_spec:
  "collect ps rs work = Inr work' \<Longrightarrow> work' = work @ List.map_filter (candidate ps) rs"
proof (induction rs arbitrary: work)
  case (Cons r rs)
  show ?case
  proof (cases "candidate ps r")
    case None
    then show ?thesis using Cons by (simp add: map_filter_simps)
  next
    case (Some c)
    then have "collect ps rs (work @ [c]) = Inr work'" using Cons.prems by (simp split: if_splits)
    from Cons.IH [OF this] Some show ?thesis by (simp add: map_filter_simps)
  qed
qed (simp add: map_filter_simps)

section \<open>Sorting\<close>

lemma length_sift_down [simp]: "length (sift_down key j work) = length work"
  by (induction j arbitrary: work) auto

primrec ins_region :: "memory_region \<Rightarrow> memory_region list \<Rightarrow> memory_region list" where
  "ins_region key [] = [key]"
| "ins_region key (x # xs) = (if mr_base x \<le> mr_base key then x # ins_region key xs else key # x # xs)"

lemma set_ins_region [simp]: "set (ins_region key xs) = insert key (set xs)"
  by (induction xs) auto

lemma length_ins_region [simp]: "length (ins_region key xs) = Suc (length xs)"
  by (induction xs) auto

lemma sorted_ins_region: "sorted (map mr_base xs) \<Longrightarrow> sorted (map mr_base (ins_region key xs))"
  by (induction xs) auto

lemma ins_region_last:
  "\<forall>x\<in>set xs. mr_base x \<le> mr_base key \<Longrightarrow> ins_region key xs = xs @ [key]"
  "mr_base key < mr_base y \<Longrightarrow> ins_region key (xs @ [y]) = ins_region key xs @ [y]"
  by (induction xs) auto

lemma sift_down_ins:
  assumes "j < length work" and "sorted (map mr_base (take j work))"
  shows "sift_down key j work = ins_region key (take j work) @ drop (Suc j) work"
  using assms
proof (induction j arbitrary: work)
  case 0
  then show ?case by (cases work) auto
next
  case (Suc j)
  have tk: "take (Suc j) work = take j work @ [work ! j]" using Suc.prems(1) by (simp add: take_Suc_conv_app_nth)
  have sj: "sorted (map mr_base (take j work))" "\<forall>x\<in>set (take j work). mr_base x \<le> mr_base (work ! j)"
    using Suc.prems(2) by (auto simp: tk sorted_append)
  show ?case
  proof (cases "mr_base (work ! j) > mr_base key")
    case True
    let ?w = "work[Suc j := work ! j]"
    have "drop (Suc j) ?w = work ! j # drop (Suc (Suc j)) work"
      using Suc.prems(1) by (simp add: drop_update_swap flip: Cons_nth_drop_Suc)
    then show ?thesis using True Suc.IH [of ?w] Suc.prems(1) sj by (simp add: tk ins_region_last(2))
  next
    case False
    then have "ins_region key (take (Suc j) work) = take (Suc j) work @ [key]"
      using sj(2) by (intro ins_region_last(1)) (auto simp: tk)
    then show ?thesis using False Suc.prems(1) by (simp add: upd_conv_take_nth_drop)
  qed
qed

lemma sort_prefix:
  assumes "sorted (map mr_base (take i work))" and "i \<le> length work"
  shows "sorted (map mr_base (fold (\<lambda>i work. sift_down (work ! i) i work) [i..<length work] work))
    \<and> set (fold (\<lambda>i work. sift_down (work ! i) i work) [i..<length work] work) = set work
    \<and> length (fold (\<lambda>i work. sift_down (work ! i) i work) [i..<length work] work) = length work"
  using assms
proof (induction "length work - i" arbitrary: i work)
  case (Suc d)
  have i: "i < length work" using Suc.hyps(2) by simp
  let ?w = "sift_down (work ! i) i work"
  have w: "?w = ins_region (work ! i) (take i work) @ drop (Suc i) work" using sift_down_ins [OF i Suc.prems(1)] .
  have len: "length ?w = length work" by simp
  have "set work = set ?w"
    unfolding w by (subst id_take_nth_drop [OF i]) auto
  moreover have "sorted (map mr_base (take (Suc i) ?w))"
    using sorted_ins_region [OF Suc.prems(1)] i unfolding w by simp
  ultimately show ?case
    using Suc.hyps(1) [of ?w "Suc i"] Suc.hyps(2) i len by (simp add: upt_conv_Cons)
qed simp

lemma sort_regions_spec:
  "sorted (map mr_base (sort_regions work))" "set (sort_regions work) = set work"
proof -
  have "sorted (map mr_base (take (min 1 (length work)) work))" by (cases work) auto
  moreover have "[1..<length work] = [min 1 (length work)..<length work]" by (cases work) auto
  ultimately show "sorted (map mr_base (sort_regions work))" "set (sort_regions work) = set work"
    using sort_prefix [of "min 1 (length work)" work] unfolding sort_regions_def by simp_all
qed

section \<open>Merging\<close>

lemma merged_region:
  assumes "region_end prev \<noteq> 0" and "mr_base r \<le> region_end prev" and "mr_base prev \<le> mr_base r"
    and "region_end r = 0 \<or> region_end r > region_end prev" and "proper prev" and "proper r"
  defines "q \<equiv> prev\<lparr>mr_size := (if region_end r = 0 then 0 - mr_base prev else region_end r - mr_base prev)\<rparr>"
  shows "region_end q = region_end r" and "bytes q = bytes prev \<union> bytes r" and "proper q" and "span_end q = span_end r"
proof -
  show e: "region_end q = region_end r" by (simp add: q_def region_end_def)
  then show se: "span_end q = span_end r" by (simp add: span_end_def)
  have b: "unat (mr_base prev) \<le> unat (mr_base r)" "unat (mr_base r) \<le> span_end prev" "span_end prev \<le> span_end r"
    using assms(1-4) by (auto simp: span_end_def word_le_nat_alt word_less_nat_alt less_imp_le)
  show "bytes q = bytes prev \<union> bytes r"
    unfolding bytes_def se using b assms(5,6) by (auto simp: q_def proper_def)
  show "proper q" using b assms(6) by (simp add: proper_def se) (simp add: q_def)
qed

lemma bytes_of_last: "out \<noteq> [] \<Longrightarrow> bytes_of out = bytes_of (butlast out) \<union> bytes (last out)"
  using bytes_of_simps(3) [of "butlast out" "[last out]"] by simp

lemma merge_step_cases:
  obtains "merge_step r out = out @ [r]" and "out = [] \<or> region_end (last out) = 0 \<or> region_end (last out) < mr_base r"
  | "merge_step r out = out" and "out \<noteq> []" and "region_end (last out) \<noteq> 0" and "region_end r \<noteq> 0"
      and "region_end r \<le> region_end (last out)" and "mr_base r \<le> region_end (last out)"
  | "merge_step r out = butlast out @ [(last out)\<lparr>mr_size :=
        (if region_end r = 0 then 0 - mr_base (last out) else region_end r - mr_base (last out))\<rparr>]"
      and "out \<noteq> []" and "region_end (last out) \<noteq> 0" and "mr_base r \<le> region_end (last out)"
      and "region_end r = 0 \<or> region_end r > region_end (last out)"
proof (cases "out \<noteq> [] \<and> region_end (last out) \<noteq> 0 \<and> mr_base r \<le> region_end (last out)")
  case False
  then show ?thesis by (intro that(1)) (auto simp: merge_step_def not_le)
next
  case m: True
  show ?thesis
  proof (cases "region_end r = 0 \<or> region_end r > region_end (last out)")
    case True
    with m show ?thesis by (intro that(3)) (simp_all add: merge_step_def)
  next
    case False
    with m show ?thesis by (intro that(2)) (simp_all add: merge_step_def not_less leD)
  qed
qed

definition tidy :: "memory_region list \<Rightarrow> bool" where
  "tidy out \<longleftrightarrow> (\<forall>x\<in>set out. proper x)"

lemma merge_step_bytes:
  assumes "tidy out" and "proper r" and "out \<noteq> [] \<Longrightarrow> mr_base (last out) \<le> mr_base r"
  shows "bytes_of (merge_step r out) = bytes_of out \<union> bytes r \<and> tidy (merge_step r out)
    \<and> merge_step r out \<noteq> [] \<and> mr_base (last (merge_step r out)) \<le> mr_base r"
proof (cases rule: merge_step_cases [of r out])
  case 1
  then show ?thesis using assms by (simp add: tidy_def)
next
  case 2
  have "span_end r \<le> span_end (last out)" using 2(3-5) by (simp add: span_end_def word_le_nat_alt)
  then have "bytes r \<subseteq> bytes (last out)" using assms(3) 2(2) by (auto simp: bytes_def word_le_nat_alt)
  then show ?thesis using 2 assms bytes_of_last [OF 2(2)] by auto
next
  case 3
  have prev: "proper (last out)" using assms(1) 3(2) by (simp add: tidy_def)
  note q = merged_region [OF 3(3,4) assms(3) [OF 3(2)] 3(5) prev assms(2)]
  show ?thesis using q assms 3(2) bytes_of_last [OF 3(2)] unfolding 3(1)
    by (auto simp: tidy_def dest: in_set_butlastD)
qed

lemma merge_fold_bytes:
  assumes "sorted (map mr_base work)" and "\<forall>r\<in>set work. proper r" and "tidy out"
    and "out \<noteq> [] \<Longrightarrow> \<forall>r\<in>set work. mr_base (last out) \<le> mr_base r"
  shows "bytes_of (fold merge_step work out) = bytes_of out \<union> bytes_of work \<and> tidy (fold merge_step work out)"
  using assms
proof (induction work arbitrary: out)
  case (Cons r work)
  have s: "bytes_of (merge_step r out) = bytes_of out \<union> bytes r" "tidy (merge_step r out)"
    "mr_base (last (merge_step r out)) \<le> mr_base r"
    using merge_step_bytes [of out r] Cons.prems by auto
  have "\<forall>q\<in>set work. mr_base (last (merge_step r out)) \<le> mr_base q"
    using s(3) Cons.prems(1) by (auto intro: order_trans)
  then show ?case using Cons.IH [of "merge_step r out"] Cons.prems s by auto
qed simp

text \<open>Strictly ascending ranges with a gap between neighbours, none reaching the top.\<close>

definition gapped :: "memory_region list \<Rightarrow> bool" where
  "gapped out \<longleftrightarrow> sorted_wrt (\<lambda>a b. span_end a < unat (mr_base b)) out \<and> (\<forall>x\<in>set out. region_end x \<noteq> 0)"

lemma merge_step_gapped:
  assumes "tidy out" and "proper r" and "out \<noteq> [] \<Longrightarrow> mr_base (last out) \<le> mr_base r"
    and gap: "gapped out" and top: "region_end r \<noteq> 0"
  shows "gapped (merge_step r out)"
proof (cases rule: merge_step_cases [of r out])
  case 1
  show ?thesis
  proof (cases "out = []")
    case False
    have last: "span_end (last out) < unat (mr_base r)" "proper (last out)"
      using 1(2) False gap assms(1) by (auto simp: gapped_def span_end_def word_less_nat_alt tidy_def)
    have "span_end x < unat (mr_base r)" if "x \<in> set out" for x
    proof (cases "x = last out")
      case neq: False
      then have "x \<in> set (butlast out)"
        using that False by (metis append_butlast_last_id rotate1.simps(2) set_ConsD set_rotate1)
      moreover have "sorted_wrt (\<lambda>a b. span_end a < unat (mr_base b)) (butlast out @ [last out])"
        using gap False by (simp add: gapped_def)
      ultimately have "span_end x < unat (mr_base (last out))" by (simp add: sorted_wrt_append)
      then show ?thesis using last by (simp add: proper_def)
    qed (use last in simp)
    then show ?thesis using 1(1) gap top by (simp add: gapped_def sorted_wrt_append)
  qed (use 1(1) top in \<open>simp add: gapped_def\<close>)
next
  case 2
  then show ?thesis using gap by simp
next
  case 3
  have prev: "proper (last out)" using assms(1) 3(2) by (simp add: tidy_def)
  note q = merged_region [OF 3(3,4) assms(3) [OF 3(2)] 3(5) prev assms(2)]
  have "sorted_wrt (\<lambda>a b. span_end a < unat (mr_base b)) (butlast out @ [last out])"
    using gap 3(2) by (simp add: gapped_def)
  then show ?thesis unfolding 3(1) gapped_def using q(1) gap top
    by (auto simp: sorted_wrt_append gapped_def dest: in_set_butlastD)
qed

lemma merge_fold_gapped:
  assumes "sorted (map mr_base work)" and "\<forall>r\<in>set work. proper r \<and> region_end r \<noteq> 0" and "tidy out"
    and "out \<noteq> [] \<Longrightarrow> \<forall>r\<in>set work. mr_base (last out) \<le> mr_base r" and "gapped out"
  shows "gapped (fold merge_step work out)"
  using assms
proof (induction work arbitrary: out)
  case (Cons r work)
  have s: "tidy (merge_step r out)" "mr_base (last (merge_step r out)) \<le> mr_base r" "gapped (merge_step r out)"
    using merge_step_bytes [of out r] merge_step_gapped [of out r] Cons.prems by auto
  have "\<forall>q\<in>set work. mr_base (last (merge_step r out)) \<le> mr_base q"
    using s(2) Cons.prems(1) by (auto intro: order_trans)
  then show ?case using Cons.IH [of "merge_step r out"] Cons.prems s by auto
qed simp

section \<open>Alignment\<close>

lemma mod_unique_nat: "x = r + P * q \<Longrightarrow> r < P \<Longrightarrow> x mod P = (r :: nat)"
  by simp

lemma align_nat:
  fixes A P :: nat
  assumes "P dvd A" and "0 < P"
  shows "(A + P - 1) - (A + P - 1) mod P = A" and "0 < A \<Longrightarrow> (A - 1) - (A - 1) mod P = A - P"
    and "0 < A \<Longrightarrow> 1 < P \<Longrightarrow> (A - 1 + P - 1) - (A - 1 + P - 1) mod P = A"
proof -
  obtain q where q: "A = P * q" using assms(1) ..
  have "(A + P - 1) mod P = P - 1" using assms(2) by (intro mod_unique_nat [of _ _ _ q]) (simp_all add: q)
  then show "(A + P - 1) - (A + P - 1) mod P = A" using assms(2) by simp
  show "(A - 1) - (A - 1) mod P = A - P" if pos: "0 < A"
  proof -
    obtain r where r: "q = Suc r" using pos q by (cases q) auto
    have "(A - 1) mod P = P - 1" using assms(2) by (intro mod_unique_nat [of _ _ _ r]) (simp_all add: q r)
    then show ?thesis using assms(2) by (simp add: q r)
  qed
  show "(A - 1 + P - 1) - (A - 1 + P - 1) mod P = A" if pos: "0 < A" "1 < P"
  proof -
    have "(A - 1 + P - 1) mod P = P - 2"
      using pos q by (intro mod_unique_nat [of _ _ _ q]) linarith+
    then show ?thesis using pos by linarith
  qed
qed

lemma page_size_mask:
  assumes "page_size_ok ps"
  obtains k where "k < 64" and "ps - 1 = mask k" and "unat ps = 2 ^ k"
proof -
  obtain k where k: "k < 64" "ps = 2 ^ k"
    using assms power_of_two_word [of ps] by (auto simp: page_size_ok_def power_of_two_or_zero_def)
  have "unat (of_nat (2 ^ k) :: 64 word) = 2 ^ k" using power_strict_increasing [OF k(1), of "2 :: nat"] by (intro unat_of_nat_small) simp
  then have "unat ps = 2 ^ k" by (simp add: k(2))
  then show ?thesis using k by (intro that [of k]) (simp_all add: mask_eq_exp_minus_1)
qed

lemma unat_align_down:
  assumes "page_size_ok ps"
  shows "unat (align_down x ps) = unat x - unat x mod unat ps"
proof -
  obtain k where "ps - 1 = mask k" "unat ps = 2 ^ k" using assms by (rule page_size_mask)
  then show ?thesis by (simp add: align_down_def unat_and_not_mask)
qed

lemma align_up_checked_cases:
  assumes "page_size_ok ps"
  shows "unat x + unat ps - 1 \<ge> 2 ^ 64 \<Longrightarrow> align_up_checked x ps = (x, True)"
    and "unat x + unat ps - 1 < 2 ^ 64 \<Longrightarrow> \<not> snd (align_up_checked x ps)
      \<and> unat (fst (align_up_checked x ps)) = (unat x + unat ps - 1) - (unat x + unat ps - 1) mod unat ps"
proof -
  obtain k where k: "ps - 1 = mask k" "unat ps = 2 ^ k" using assms by (rule page_size_mask)
  have "unat (ps - 1) = unat ps - 1" using assms by (simp add: unat_minus_one page_size_ok_def)
  then have m: "unat (mask k :: usize) = unat ps - 1" by (simp only: k(1))
  have pos: "0 < unat ps" using k by simp
  have guard: "x > - 1 - mask k \<longleftrightarrow> 2 ^ 64 \<le> unat x + unat ps - 1"
    unfolding headroom_exceeded_iff m len64 using pos by (intro iffI) linarith+
  then show "unat x + unat ps - 1 \<ge> 2 ^ 64 \<Longrightarrow> align_up_checked x ps = (x, True)"
    by (simp add: align_up_checked_def k(1) Let_def)
  assume lt: "unat x + unat ps - 1 < 2 ^ 64"
  then have "unat (x + mask k) = unat x + unat ps - 1" using m pos by (subst unat_add_headroom) simp_all
  then show "\<not> snd (align_up_checked x ps)
      \<and> unat (fst (align_up_checked x ps)) = (unat x + unat ps - 1) - (unat x + unat ps - 1) mod unat ps"
    using guard lt by (simp add: align_up_checked_def k Let_def unat_and_not_mask not_le)
qed

section \<open>Page-aligned input\<close>

definition page_aligned :: "usize \<Rightarrow> memory_region \<Rightarrow> bool" where
  "page_aligned ps r \<longleftrightarrow> mr_size r \<noteq> 0 \<and> unat ps dvd unat (mr_base r) \<and> unat ps dvd unat (mr_size r)
     \<and> unat (mr_base r) + unat (mr_size r) \<le> 2 ^ 64"

definition on_pages :: "usize \<Rightarrow> memory_region \<Rightarrow> bool" where
  "on_pages ps r \<longleftrightarrow> unat ps dvd unat (mr_base r) \<and> unat ps dvd span_end r \<and> mr_type r = Usable"

lemma span_end_aligned:
  assumes "mr_size r \<noteq> 0" and "unat (mr_base r) + unat (mr_size r) \<le> 2 ^ 64"
  shows "span_end r = unat (mr_base r) + unat (mr_size r)"
proof (cases "unat (mr_base r) + unat (mr_size r) = 2 ^ 64")
  case True
  then have "unat (region_end r) = 0" by (simp add: region_end_def unat_word_ariths)
  then show ?thesis using True by (simp add: span_end_def unat_eq_0)
next
  case False
  then have "unat (region_end r) = unat (mr_base r) + unat (mr_size r)"
    using assms(2) by (simp add: region_end_def unat_add_headroom)
  moreover from this have "region_end r \<noteq> 0" using assms(1) by (auto simp: unat_eq_0)
  ultimately show ?thesis by (simp add: span_end_def)
qed

lemma bytes_aligned: "page_aligned ps r \<Longrightarrow> bytes r = {a. covers r a}"
  by (auto simp: bytes_def covers_def page_aligned_def span_end_aligned)

lemma last_byte:
  assumes "page_aligned ps r"
  shows "unat (mr_base r + (mr_size r - 1)) = unat (mr_base r) + unat (mr_size r) - 1"
proof -
  have p: "0 < unat (mr_size r)" "unat (mr_base r) + unat (mr_size r) \<le> 2 ^ 64"
    using assms by (auto simp: page_aligned_def unat_gt_0)
  have "unat (mr_size r - 1) = unat (mr_size r) - 1" using assms by (simp add: page_aligned_def unat_minus_one)
  moreover from this have "unat (mr_base r) + unat (mr_size r - 1) < 2 ^ LENGTH(64)"
    unfolding len64 using p by linarith
  ultimately show ?thesis using p by (simp add: unat_add_headroom)
qed

lemma page_size_dvd: "page_size_ok ps \<Longrightarrow> unat ps dvd 2 ^ 64"
proof -
  assume "page_size_ok ps"
  then obtain k where k: "k < 64" "unat ps = 2 ^ k" by (rule page_size_mask)
  show ?thesis unfolding k(2) using k(1) by (intro le_imp_power_dvd) simp
qed

lemma page_multiple_room:
  "unat ps dvd unat x \<Longrightarrow> page_size_ok ps \<Longrightarrow> unat x + unat ps \<le> 2 ^ 64" for x :: uptr
proof -
  assume d: "unat ps dvd unat x" and ps: "page_size_ok ps"
  show ?thesis using dvd_gap [OF d page_size_dvd [OF ps]] by simp
qed

lemma candidate_aligned:
  assumes ps: "page_size_ok ps" and al: "page_aligned ps r" and us: "mr_type r = Usable"
  shows "candidate ps r = Some r"
proof -
  let ?B = "unat (mr_base r)" and ?S = "unat (mr_size r)" and ?P = "unat ps"
  have P: "0 < ?P" using ps by (simp add: page_size_ok_def unat_gt_0)
  have d: "?P dvd ?B" "?P dvd ?S" "0 < ?S" using al by (auto simp: page_aligned_def unat_gt_0)
  then have le: "?P \<le> ?S" by (simp add: dvd_imp_le)
  have "?B + ?P \<le> 2 ^ 64" using page_multiple_room [OF d(1) ps] .
  then have up: "\<not> snd (align_up_checked (mr_base r) ps)" "unat (fst (align_up_checked (mr_base r) ps)) = ?B"
    using align_up_checked_cases(2) [OF ps, of "mr_base r"] align_nat(1) [OF d(1) P] P by simp_all
  let ?e = "align_down (mr_base r + (mr_size r - 1)) ps"
  have e: "unat ?e = ?B + ?S - ?P"
    using align_nat(2) [of ?P "?B + ?S"] d P by (simp add: unat_align_down [OF ps] last_byte [OF al])
  have start: "fst (align_up_checked (mr_base r) ps) = mr_base r" using up(2) by (simp add: word_unat_eq_iff)
  have "unat (?e - mr_base r) = ?S - ?P" using e le by (subst unat_sub) (simp_all add: word_le_nat_alt)
  then have "?e - mr_base r + ps = mr_size r"
    using le by (simp add: word_unat_eq_iff unat_word_ariths)
  moreover have "\<not> ?e < mr_base r" using e le by (simp add: word_less_nat_alt)
  ultimately show ?thesis using up start us by (simp add: candidate_def case_prod_beta Let_def)
qed

lemma cut_aligned:
  assumes ps: "page_size_ok ps" "ps \<noteq> 1" and al: "page_aligned ps r"
  shows "cut_bytes (cut_of ps r) = {a. covers r a}" and "unat ps dvd unat (cut_start (cut_of ps r))"
    and "\<not> cut_top (cut_of ps r) \<Longrightarrow> unat ps dvd unat (cut_end (cut_of ps r))"
proof -
  let ?B = "unat (mr_base r)" and ?S = "unat (mr_size r)" and ?P = "unat ps"
  have "?P \<noteq> 1" using ps(2) by (simp add: word_unat_eq_iff)
  moreover have "0 < ?P" using ps(1) by (simp add: page_size_ok_def unat_gt_0)
  ultimately have P: "1 < ?P" by linarith
  have d: "?P dvd ?B" "?P dvd ?S" "0 < ?S" "?B + ?S \<le> 2 ^ 64" using al by (auto simp: page_aligned_def unat_gt_0)
  have start: "cut_start (cut_of ps r) = mr_base r"
    using d(1) by (simp add: cut_of_def case_prod_beta word_unat_eq_iff unat_align_down [OF ps(1)])
  then show "?P dvd unat (cut_start (cut_of ps r))" using d by simp
  let ?l = "mr_base r + (mr_size r - 1)"
  note l = last_byte [OF al]
  have "cut_bytes (cut_of ps r) = {?B..<?B + ?S} \<and> (\<not> cut_top (cut_of ps r) \<longrightarrow> ?P dvd unat (cut_end (cut_of ps r)))"
  proof (cases "?B + ?S = 2 ^ 64")
    case True
    then have "align_up_checked ?l ps = (?l, True)"
      using align_up_checked_cases(1) [OF ps(1), of ?l] l P by simp
    then show ?thesis using True start by (simp add: cut_of_def cut_bytes_def)
  next
    case False
    have "?B + ?S + ?P \<le> 2 ^ 64"
      using dvd_gap [OF _ page_size_dvd [OF ps(1)], of "?B + ?S"] d False by simp
    then have e: "\<not> snd (align_up_checked ?l ps)" "unat (fst (align_up_checked ?l ps)) = ?B + ?S"
      using align_up_checked_cases(2) [OF ps(1), of ?l] l P d align_nat(3) [of ?P "?B + ?S"] by simp_all
    then have "fst (align_up_checked ?l ps) \<noteq> 0" using d(3) by (auto simp: unat_eq_0)
    then show ?thesis using e start d by (simp add: cut_of_def cut_bytes_def case_prod_beta)
  qed
  moreover have "{?B..<?B + ?S} = {a. covers r a}" by (auto simp: covers_def)
  ultimately show "cut_bytes (cut_of ps r) = {a. covers r a}"
    and "\<not> cut_top (cut_of ps r) \<Longrightarrow> ?P dvd unat (cut_end (cut_of ps r))" by blast+
qed

section \<open>The whole normalization\<close>

text \<open>What every work entry satisfies when no usable input reaches the top.\<close>

definition work_ok :: "usize \<Rightarrow> memory_region \<Rightarrow> bool" where
  "work_ok ps r \<longleftrightarrow> proper r \<and> region_end r \<noteq> 0 \<and> on_pages ps r"

lemma piece_fields:
  "p \<in> set (left_piece c w) \<Longrightarrow> mr_base p = mr_base w \<and> region_end p = cut_start c \<and> cut_start c \<noteq> 0 \<and> mr_type p = Usable"
  "p \<in> set (right_piece c w) \<Longrightarrow> mr_base p = cut_end c \<and> region_end p = region_end w \<and> \<not> cut_top c \<and> mr_type p = Usable"
  by (auto simp: left_piece_def right_piece_def region_end_def split: if_splits)

lemma work_ok_inherited:
  assumes "unat ps dvd unat (cut_start c)" and "\<not> cut_top c \<Longrightarrow> unat ps dvd unat (cut_end c)"
  shows "inherited (work_ok ps) c"
  unfolding inherited_def
proof (intro allI impI)
  fix w p
  assume a: "work_ok ps w \<and> \<not> misses c w \<and> p \<in> set (left_piece c w @ right_piece c w)"
  then have hit: "\<not> misses c w" and w: "work_ok ps w" by auto
  consider "p \<in> set (left_piece c w)" | "p \<in> set (right_piece c w)" using a by auto
  then show "work_ok ps p"
  proof cases
    case 1
    then show ?thesis using left_piece_bytes(2) [OF hit 1] piece_fields(1) [OF 1] w assms(1)
      by (simp add: work_ok_def on_pages_def span_end_def)
  next
    case 2
    then show ?thesis using right_piece_bytes(2) [OF hit 2] piece_fields(2) [OF 2] w assms(2)
      by (auto simp: work_ok_def on_pages_def span_end_def)
  qed
qed

lemma merge_step_on_pages:
  assumes "tidy out" and "proper r" and "out \<noteq> [] \<Longrightarrow> mr_base (last out) \<le> mr_base r"
    and "\<forall>x\<in>set out. on_pages ps x" and "on_pages ps r"
  shows "\<forall>x\<in>set (merge_step r out). on_pages ps x"
proof (cases rule: merge_step_cases [of r out])
  case 3
  have prev: "proper (last out)" "on_pages ps (last out)" using assms(1,4) 3(2) by (simp_all add: tidy_def)
  note q = merged_region(4) [OF 3(3,4) assms(3) [OF 3(2)] 3(5) prev(1) assms(2)]
  show ?thesis unfolding 3(1) using assms(4,5) prev(2) q by (auto simp: on_pages_def dest: in_set_butlastD)
qed (use assms in auto)

lemma merge_fold_on_pages:
  assumes "sorted (map mr_base work)" and "\<forall>r\<in>set work. proper r \<and> on_pages ps r" and "tidy out"
    and "out \<noteq> [] \<Longrightarrow> \<forall>r\<in>set work. mr_base (last out) \<le> mr_base r" and "\<forall>x\<in>set out. on_pages ps x"
  shows "\<forall>x\<in>set (fold merge_step work out). on_pages ps x"
  using assms
proof (induction work arbitrary: out)
  case (Cons r work)
  have s: "tidy (merge_step r out)" "mr_base (last (merge_step r out)) \<le> mr_base r"
    "\<forall>x\<in>set (merge_step r out). on_pages ps x"
    using merge_step_bytes [of out r] merge_step_on_pages [of out r ps] Cons.prems by auto
  have "\<forall>q\<in>set work. mr_base (last (merge_step r out)) \<le> mr_base q"
    using s(2) Cons.prems(1) by (auto intro: order_trans)
  then show ?case using Cons.IH [of "merge_step r out"] Cons.prems s by auto
qed simp

lemma if_not_Inl:
  "(b \<Longrightarrow> x \<noteq> y) \<Longrightarrow> (\<not> b \<Longrightarrow> z \<noteq> y) \<Longrightarrow> (if b then x else z) \<noteq> y"
  by simp

lemma pm_normalize_ok:
  assumes "fst (pm_normalize m ps) = S_ok"
  obtains work where "page_size_ok ps"
    and "subtract_all ps (map dr_region (pm_inputs m)) (List.map_filter (candidate ps) (map dr_region (pm_inputs m))) = Inr work"
    and "pm_usable (snd (pm_normalize m ps)) = merge_regions (sort_regions work)"
proof -
  have ne: "collect ps rs w \<noteq> Inl S_ok" for rs w
    by (induction rs arbitrary: w) (auto split: option.splits)
  have ne2: "subtract_all ps rs w \<noteq> Inl S_ok" for rs w
  proof (induction rs arbitrary: w)
    case (Cons r rs)
    have "subtract_loop c v i \<noteq> Inl S_ok" for c v i
    proof (induction c v i rule: subtract_loop.induct)
      case (1 c v i)
      show ?case unfolding subtract_loop.simps [of c v i] Let_def
        by (intro if_not_Inl) (rule 1(1) 1(2) [OF _ _ refl refl refl] | assumption | simp)+
    qed
    then show ?case using Cons by (auto split: sum.splits)
  qed simp
  let ?rs = "map dr_region (pm_inputs m)"
  have ps: "page_size_ok ps" using assms by (auto simp: pm_normalize_def page_size_ok_def split: if_splits)
  then obtain w0 where w0: "collect ps ?rs [] = Inr w0"
    using assms ne by (cases "collect ps ?rs []") (auto simp: pm_normalize_def Let_def page_size_ok_def)
  then obtain work where work: "subtract_all ps ?rs w0 = Inr work"
    using assms ne2 ps by (cases "subtract_all ps ?rs w0") (auto simp: pm_normalize_def Let_def page_size_ok_def)
  show ?thesis using ps w0 work collect_spec [OF w0]
    by (intro that [of work]) (simp_all add: pm_normalize_def Let_def page_size_ok_def)
qed

lemma set_map_filter: "set (List.map_filter f xs) = {y. \<exists>x\<in>set xs. f x = Some y}"
  by (force simp: map_filter_def image_iff)

text \<open>
  C6: On page-aligned regions of which no usable one reaches the top of the address space,
  for a page size above one byte, a successful normalization yields exactly the bytes that
  are usable and not claimed by any other region, as page-aligned ranges in ascending order
  with a gap between neighbours. Properties \<open>normalize_bytes\<close> and \<open>normalize_top_overlap\<close> say
  what happens on other inputs.
\<close>

theorem normalize_exact:
  assumes ps: "page_size_ok ps" "ps \<noteq> 1" and ok: "fst (pm_normalize m ps) = S_ok"
    and al: "\<forall>d\<in>set (pm_inputs m). page_aligned ps (dr_region d)"
    and top: "\<forall>d\<in>set (pm_inputs m). mr_type (dr_region d) = Usable \<longrightarrow> region_end (dr_region d) \<noteq> 0"
  shows "bytes_of (pm_usable (snd (pm_normalize m ps))) = {a. free_byte (map dr_region (pm_inputs m)) a}
    \<and> gapped (pm_usable (snd (pm_normalize m ps)))
    \<and> (\<forall>r\<in>set (pm_usable (snd (pm_normalize m ps))). on_pages ps r)"
proof -
  let ?rs = "map dr_region (pm_inputs m)"
  obtain work where work: "subtract_all ps ?rs (List.map_filter (candidate ps) ?rs) = Inr work"
    and us: "pm_usable (snd (pm_normalize m ps)) = merge_regions (sort_regions work)"
    by (rule pm_normalize_ok [OF ok])
  let ?c = "List.map_filter (candidate ps) ?rs"
  have cand: "candidate ps r = (if mr_type r = Usable then Some r else None)" if "r \<in> set ?rs" for r
    using that al candidate_aligned [OF ps(1)] by (auto simp: candidate_def)
  have cset: "set ?c = {r \<in> set ?rs. mr_type r = Usable}"
    using cand by (auto simp: set_map_filter split: if_splits)
  have wok: "\<forall>r\<in>set ?c. work_ok ps r"
  proof
    fix r
    assume "r \<in> set ?c"
    then have r: "page_aligned ps r" "mr_type r = Usable" "region_end r \<noteq> 0" using al top unfolding cset by auto
    then show "work_ok ps r"
      by (auto simp: work_ok_def on_pages_def proper_def span_end_aligned page_aligned_def unat_gt_0)
  qed
  have inh: "inherited (work_ok ps) (cut_of ps r)" if "r \<in> set ?rs" for r
    using that al cut_aligned(2,3) [OF ps] by (intro work_ok_inherited) auto
  have sub: "bytes_of work = bytes_of ?c - (\<Union>r\<in>{r \<in> set ?rs. mr_type r \<noteq> Usable}. cut_bytes (cut_of ps r))"
    "\<forall>r\<in>set work. work_ok ps r"
    using subtract_all_spec [OF work inh wok] by auto
  have cb: "bytes_of ?c = {a. \<exists>r\<in>set ?rs. mr_type r = Usable \<and> covers r a}"
    using al bytes_aligned unfolding bytes_of_def cset by fastforce
  have rb: "(\<Union>r\<in>{r \<in> set ?rs. mr_type r \<noteq> Usable}. cut_bytes (cut_of ps r))
      = {a. \<exists>r\<in>set ?rs. mr_type r \<noteq> Usable \<and> covers r a}"
    using al cut_aligned(1) [OF ps] by fastforce
  note srt = sort_regions_spec [of work]
  have pr: "\<forall>r\<in>set (sort_regions work). proper r \<and> region_end r \<noteq> 0" "\<forall>r\<in>set (sort_regions work). proper r \<and> on_pages ps r"
    using sub(2) unfolding srt(2) work_ok_def by auto
  have "bytes_of (merge_regions (sort_regions work)) = bytes_of work"
    using merge_fold_bytes [OF srt(1), of "[]"] pr bytes_of_set [OF srt(2)] by (simp add: merge_regions_def tidy_def)
  moreover have "gapped (merge_regions (sort_regions work))"
    using merge_fold_gapped [OF srt(1) pr(1), of "[]"] by (simp add: merge_regions_def tidy_def gapped_def)
  moreover have "\<forall>r\<in>set (merge_regions (sort_regions work)). on_pages ps r"
    using merge_fold_on_pages [OF srt(1) pr(2), of "[]"] by (simp add: merge_regions_def tidy_def)
  ultimately show ?thesis unfolding us sub(1) cb rb by (auto simp: free_byte_def)
qed

definition aligned_map :: physical_map where
  "aligned_map = \<lparr>pm_inputs =
     [\<lparr>dr_region = \<lparr>mr_base = 0x4000, mr_size = 0x2000, mr_type = Usable\<rparr>, dr_source = Src_e820\<rparr>,
      \<lparr>dr_region = \<lparr>mr_base = 0x1000, mr_size = 0x4000, mr_type = Usable\<rparr>, dr_source = Src_e820\<rparr>,
      \<lparr>dr_region = \<lparr>mr_base = 0x2000, mr_size = 0x1000, mr_type = Kernel_image\<rparr>, dr_source = Src_linker\<rparr>],
     pm_usable = [], pm_normalized = False\<rparr>"

theorem normalize_exact_witness:
  "pm_usable (snd (pm_normalize aligned_map 0x1000)) =
     [\<lparr>mr_base = 0x1000, mr_size = 0x1000, mr_type = Usable\<rparr>, \<lparr>mr_base = 0x3000, mr_size = 0x3000, mr_type = Usable\<rparr>]
   \<and> bytes_of (pm_usable (snd (pm_normalize aligned_map 0x1000)))
     = {a. free_byte (map dr_region (pm_inputs aligned_map)) a}"
proof -
  have "page_size_ok 0x1000" "(0x1000 :: usize) \<noteq> 1"
    by (simp_all add: page_size_ok_def power_of_two_or_zero_def)
  moreover have "fst (pm_normalize aligned_map 0x1000) = S_ok" by code_simp
  moreover have "\<forall>d\<in>set (pm_inputs aligned_map). page_aligned 0x1000 (dr_region d)"
    by (simp add: aligned_map_def page_aligned_def)
  moreover have "\<forall>d\<in>set (pm_inputs aligned_map). mr_type (dr_region d) = Usable \<longrightarrow> region_end (dr_region d) \<noteq> 0"
    by (simp add: aligned_map_def region_end_def)
  ultimately have "bytes_of (pm_usable (snd (pm_normalize aligned_map 0x1000)))
     = {a. free_byte (map dr_region (pm_inputs aligned_map)) a}"
    using normalize_exact by blast
  moreover have "pm_usable (snd (pm_normalize aligned_map 0x1000)) =
     [\<lparr>mr_base = 0x1000, mr_size = 0x1000, mr_type = Usable\<rparr>, \<lparr>mr_base = 0x3000, mr_size = 0x3000, mr_type = Usable\<rparr>]"
    by code_simp
  ultimately show ?thesis by simp
qed

section \<open>Arbitrary input\<close>

















section \<open>The top of the address space\<close>

text \<open>All memory from \<open>b\<close> to the top of the address space.\<close>

definition to_top :: "uptr \<Rightarrow> memory_region" where
  "to_top b = \<lparr>mr_base = b, mr_size = 0 - b, mr_type = Usable\<rparr>"

lemma to_top_aligned:
  assumes "b \<noteq> 0" and "page_size_ok ps" and "unat ps dvd unat b"
  shows "page_aligned ps (to_top b)" and "region_end (to_top b) = 0" and "bytes (to_top b) = {unat b..<2 ^ 64}"
proof -
  have b: "0 < unat b" "unat b < 2 ^ 64" using assms(1) unsigned_less [of b, where ?'a = nat] by (simp_all add: unat_gt_0)
  have "unat ((- 1 - b) + 1) = unat (- 1 - b) + 1"
    using b unfolding unat_max_minus by (subst unat_add_headroom) (simp_all add: unat_max_minus)
  then have "unat (- b) = 2 ^ 64 - 1 - unat b + 1" unfolding unat_max_minus by simp
  then have u: "unat (- b) = 2 ^ 64 - unat b" using b by linarith
  have fit: "unat b + unat (- b) \<le> 2 ^ 64" using u b by linarith
  have "unat ps dvd unat (- b)" unfolding u by (intro dvd_diff_nat page_size_dvd assms)
  then show "page_aligned ps (to_top b)"
    using assms(1,3) fit by (simp add: page_aligned_def to_top_def)
  show e: "region_end (to_top b) = 0" by (simp add: region_end_def to_top_def)
  then show "bytes (to_top b) = {unat b..<2 ^ 64}" by (simp add: bytes_def span_end_def) (simp add: to_top_def)
qed

text \<open>
  C39: Usable ranges that reach the top of the address space are not merged. For any two distinct
  page-aligned addresses, adding the memory from each of them up to the top gives a normalized
  map of two overlapping ranges, and \<open>usable_bytes()\<close> counts the upper one twice.
\<close>

theorem normalize_top_overlap:
  assumes "page_size_ok ps" and "unat ps dvd unat low" and "unat ps dvd unat high" and "0 < low" and "low < high"
  shows "let m = snd (pm_normalize (snd (pm_add (snd (pm_add pm_new (to_top low) src)) (to_top high) src')) ps) in
    pm_normalized m \<and> pm_usable m = [to_top low, to_top high]
    \<and> bytes (to_top high) \<noteq> {} \<and> bytes (to_top high) \<subseteq> bytes (to_top low)
    \<and> usable_bytes m = mr_size (to_top low) + mr_size (to_top high)"
proof -
  have ne: "low \<noteq> 0" "high \<noteq> 0" using assms(4,5) by auto
  note lo = to_top_aligned [OF ne(1) assms(1,2)] and hi = to_top_aligned [OF ne(2) assms(1,3)]
  have add: "range_end b (- b) \<noteq> None" if "b \<noteq> 0" for b :: uptr
  proof -
    have "b + (- b - 1) = - 1" "- 1 - (- b - 1) = b" by simp_all
    then show ?thesis using that by (simp add: range_end_def)
  qed
  let ?m = "snd (pm_add (snd (pm_add pm_new (to_top low) src)) (to_top high) src')"
  have inp: "map dr_region (pm_inputs ?m) = [to_top low, to_top high]"
    using add [OF ne(1)] add [OF ne(2)] ne by (auto simp: pm_add_def pm_new_def to_top_def max_discovered_regions_def)
  have us: "mr_type (to_top b) = Usable" "mr_base (to_top b) = b" for b by (simp_all add: to_top_def)
  have "collect ps [to_top low, to_top high] [] = Inr [to_top low, to_top high]"
    using candidate_aligned [OF assms(1) lo(1) us(1)] candidate_aligned [OF assms(1) hi(1) us(1)]
    by (simp add: max_discovered_regions_def)
  moreover have "sort_regions [to_top low, to_top high] = [to_top low, to_top high]"
    using assms(5) by (simp add: sort_regions_def us)
  moreover have "merge_regions [to_top low, to_top high] = [to_top low, to_top high]"
    using lo(2) by (simp add: merge_regions_def merge_step_def)
  ultimately have "snd (pm_normalize ?m ps) = ?m\<lparr>pm_usable := [to_top low, to_top high], pm_normalized := True\<rparr>"
    using assms(1) by (simp add: pm_normalize_def Let_def inp us page_size_ok_def)
  then show ?thesis using lo(3) hi(3) assms(5) unsigned_less [of high, where ?'a = nat]
    by (auto simp: Let_def usable_bytes_def word_less_nat_alt)
qed

theorem normalize_top_overlap_witness:
  "page_size_ok 0x1000 \<and> (let m = snd (pm_normalize (snd (pm_add (snd (pm_add pm_new (to_top 0xFFFFFFFFFFFFE000) Src_e820))
      (to_top 0xFFFFFFFFFFFFF000) Src_e820)) 0x1000) in usable_bytes m = 0x3000)"
proof -
  have ps: "page_size_ok 0x1000" by (simp add: page_size_ok_def power_of_two_or_zero_def)
  show ?thesis
    using normalize_top_overlap [OF ps, of "0xFFFFFFFFFFFFE000" "0xFFFFFFFFFFFFF000" Src_e820 Src_e820] ps
    by (simp add: Let_def to_top_def)
qed

end
