(* ===== verification/OK_Memory_Manager.thy ===== *)
theory OK_Memory_Manager
  imports OK_Physmap OK_Frame_Props
begin

text \<open>
  The memory manager, \<^verbatim>\<open>include/ok/memory/memory.hpp\<close> and the \<open>MemoryManager\<close> part of
  \<^verbatim>\<open>src/memory/memory.cpp\<close>: it carves the frame allocator's metadata out of the highest
  usable range that can hold it and hands the rest to the allocator. The object allocator it
  also owns is not part of this theory.
\<close>

datatype translation_mode = Linear | Paged | Higher_half

record vm_area =
  va_base :: uptr
  va_length :: usize
  va_permissions :: usize

definition va_contains :: "vm_area \<Rightarrow> uptr \<Rightarrow> usize \<Rightarrow> bool" where
  "va_contains v address sz \<longleftrightarrow>
     address \<ge> va_base v \<and> sz \<le> va_length v \<and> address - va_base v \<le> va_length v - sz"

record memory_manager =
  mm_mode :: translation_mode
  mm_frames :: frame_allocator
  mm_metadata_region :: memory_region

definition empty_region :: memory_region where
  "empty_region = \<lparr>mr_base = 0, mr_size = 0, mr_type = Reserved\<rparr>"

definition mm_new :: "nat \<Rightarrow> memory_manager" where
  "mm_new self = \<lparr>mm_mode = Linear, mm_frames = frame_allocator_new self, mm_metadata_region = empty_region\<rparr>"

definition mm_set_translation_mode :: "memory_manager \<Rightarrow> translation_mode \<Rightarrow> memory_manager" where
  "mm_set_translation_mode mm mode = mm\<lparr>mm_mode := mode\<rparr>"

text \<open>The model form: the caller owns the metadata storage.\<close>

definition mm_initialize ::
    "memory_manager \<Rightarrow> memory_region list \<Rightarrow> usize \<Rightarrow> uptr \<times> usize \<Rightarrow> status_code \<times> memory_manager" where
  "mm_initialize mm rs ps metadata =
     (case fa_initialize (mm_frames mm) rs ps metadata of (st, frames) \<Rightarrow>
        if st \<noteq> S_ok then (st, mm\<lparr>mm_frames := frames\<rparr>)
        else (S_ok, mm\<lparr>mm_frames := frames, mm_metadata_region := empty_region\<rparr>))"

text \<open>The usable ranges at their direct-map addresses.\<close>

primrec direct_regions :: "uptr \<Rightarrow> memory_region list \<Rightarrow> memory_region list result" where
  "direct_regions off [] = Inr []"
| "direct_regions off (u # us) =
     (if mr_base u > - 1 - off \<or> mr_size u > - 1 - (mr_base u + off) then Inl S_overflow
      else (case direct_regions off us of Inl e \<Rightarrow> Inl e
        | Inr rs \<Rightarrow> Inr (\<lparr>mr_base = mr_base u + off, mr_size = mr_size u, mr_type = Usable\<rparr> # rs)))"

text \<open>The carve from the top of the highest range larger than it.\<close>

definition carve_from :: "memory_region list \<Rightarrow> usize \<Rightarrow> memory_region option" where
  "carve_from rs carve =
     (case find (\<lambda>r. \<not> mr_size r \<le> carve) (rev rs) of
        None \<Rightarrow> None
      | Some r \<Rightarrow> Some \<lparr>mr_base = mr_base r + mr_size r - carve, mr_size = carve, mr_type = Reserved\<rparr>)"

definition mm_initialize_boot ::
    "memory_manager \<Rightarrow> physical_map \<Rightarrow> usize \<Rightarrow> uptr \<Rightarrow> status_code \<times> memory_manager" where
  "mm_initialize_boot mm m ps off =
     (if \<not> pm_normalized m then (S_not_initialized, mm)
      else if ps = 0 \<or> \<not> power_of_two_or_zero ps then (S_invalid_argument, mm)
      else (case direct_regions off (pm_usable m) of Inl e \<Rightarrow> (e, mm)
        | Inr rs \<Rightarrow>
            (case metadata_bytes rs ps of Inl e \<Rightarrow> (e, mm)
             | Inr required \<Rightarrow>
                 (let carve = (required + ps - 1) AND NOT (ps - 1) in
                  case carve_from rs carve of
                    None \<Rightarrow> (S_no_memory, mm)
                  | Some metadata \<Rightarrow>
                      (case fa_initialize (mm_frames mm) (rs @ [metadata]) ps (mr_base metadata, mr_size metadata) of
                        (st, frames) \<Rightarrow>
                          if st \<noteq> S_ok then (st, mm\<lparr>mm_frames := frames\<rparr>)
                          else (S_ok, mm\<lparr>mm_frames := frames, mm_metadata_region := metadata\<rparr>))))))"

section \<open>Properties\<close>

lemma direct_regions_set:
  "direct_regions off us = Inr rs \<Longrightarrow> r \<in> set rs \<Longrightarrow>
   \<exists>u\<in>set us. mr_size r = mr_size u \<and> mr_type r = Usable \<and> unat (mr_base r) = unat (mr_base u) + unat off
     \<and> unat (mr_base r) + unat (mr_size r) < 2 ^ 64"
proof (induction us arbitrary: rs)
  case (Cons u us)
  then obtain qs where qs: "direct_regions off us = Inr qs"
    "rs = \<lparr>mr_base = mr_base u + off, mr_size = mr_size u, mr_type = Usable\<rparr> # qs"
    and no: "\<not> mr_base u > - 1 - off" "\<not> mr_size u > - 1 - (mr_base u + off)"
    by (auto split: if_splits sum.splits)
  have "unat (mr_base u) + unat off < 2 ^ LENGTH(64)" using no(1) unfolding headroom_exceeded_iff by linarith
  then have base: "unat (mr_base u + off) = unat (mr_base u) + unat off" by (rule unat_add_headroom)
  have fit: "unat (mr_base u + off) + unat (mr_size u) < 2 ^ 64"
    using no(2) unfolding headroom_exceeded_iff len64 by linarith
  consider "r = \<lparr>mr_base = mr_base u + off, mr_size = mr_size u, mr_type = Usable\<rparr>" | "r \<in> set qs"
    using Cons.prems(2) qs(2) by auto
  then show ?case
  proof cases
    case 1
    then show ?thesis using base fit by (intro bexI [of _ u]) simp_all
  next
    case 2
    from Cons.IH [OF qs(1) 2] show ?thesis by auto
  qed
qed simp

lemma mm_initialize_boot_ok:
  assumes "fst (mm_initialize_boot mm m ps off) = S_ok"
  obtains rs metadata where "direct_regions off (pm_usable m) = Inr rs"
    and "\<exists>r\<in>set rs. mr_size metadata < mr_size r \<and> mr_base metadata = region_end r - mr_size metadata"
    and "mr_type metadata = Reserved"
    and "mm_metadata_region (snd (mm_initialize_boot mm m ps off)) = metadata"
    and "fst (fa_initialize (mm_frames mm) (rs @ [metadata]) ps (mr_base metadata, mr_size metadata)) = S_ok"
    and "mm_frames (snd (mm_initialize_boot mm m ps off)) =
      snd (fa_initialize (mm_frames mm) (rs @ [metadata]) ps (mr_base metadata, mr_size metadata))"
proof -
  have ne1: "direct_regions off us \<noteq> Inl S_ok" for us by (induction us) (auto split: sum.splits)
  have pre: "pm_normalized m" "\<not> (ps = 0 \<or> \<not> power_of_two_or_zero ps)"
    using assms by (auto simp: mm_initialize_boot_def split: if_splits)
  note unf = mm_initialize_boot_def [of mm m ps off] if_not_P [OF pre(2)]
  obtain rs where rs: "direct_regions off (pm_usable m) = Inr rs"
    using assms ne1 [of "pm_usable m"] pre by (cases "direct_regions off (pm_usable m)") (simp_all add: unf)
  have ne2: "metadata_bytes rs ps \<noteq> Inl S_ok"
    using count_usable_not_ok [of rs ps] by (cases "count_usable rs ps") (simp_all add: metadata_bytes_def)
  obtain req where req: "metadata_bytes rs ps = Inr req"
    using assms rs ne2 pre by (cases "metadata_bytes rs ps") (simp_all add: unf)
  let ?carve = "(req + ps - 1) AND NOT (ps - 1)"
  obtain md where md: "carve_from rs ?carve = Some md"
    using assms rs req pre by (cases "carve_from rs ?carve") (simp_all add: unf)
  then obtain r where r: "find (\<lambda>r. \<not> mr_size r \<le> ?carve) (rev rs) = Some r"
    "md = \<lparr>mr_base = mr_base r + mr_size r - ?carve, mr_size = ?carve, mr_type = Reserved\<rparr>"
    by (simp add: carve_from_def split: option.splits)
  have rr: "r \<in> set rs" "?carve < mr_size r" using find_SomeD [OF r(1)] by (simp_all add: not_le)
  let ?fi = "fa_initialize (mm_frames mm) (rs @ [md]) ps (mr_base md, mr_size md)"
  have eq: "mm_initialize_boot mm m ps off = (if fst ?fi \<noteq> S_ok then (fst ?fi, mm\<lparr>mm_frames := snd ?fi\<rparr>)
      else (S_ok, mm\<lparr>mm_frames := snd ?fi, mm_metadata_region := md\<rparr>))"
    using pre rs req md by (simp add: unf Let_def case_prod_beta)
  have fi: "fst ?fi = S_ok" using assms unfolding eq by (simp split: if_splits)
  show ?thesis
  proof (rule that [OF rs])
    show "\<exists>r\<in>set rs. mr_size md < mr_size r \<and> mr_base md = region_end r - mr_size md"
      using rr r(2) by (intro bexI [of _ r]) (simp_all add: region_end_def)
  qed (simp_all add: fi eq, simp add: r(2))
qed

text \<open>
  C17: After a successful boot initialization the frame allocator is well formed with every
  frame free, its frames lie in usable ranges of the map at their direct-map addresses, and
  no byte of a managed frame belongs to the allocator's own metadata.
\<close>

theorem boot_initialize_protects_metadata:
  assumes ok: "fst (mm_initialize_boot mm m ps off) = S_ok"
  shows "let mm' = snd (mm_initialize_boot mm m ps off) in
    fa_wf (mm_frames mm') \<and> used_set (mm_frames mm') = {}
    \<and> (\<forall>p\<in>managed (mm_frames mm'). unat ps dvd p \<and> (\<forall>b. p \<le> b \<and> b < p + unat ps \<longrightarrow>
        \<not> covers (mm_metadata_region mm') b \<and> (\<exists>u\<in>set (pm_usable m). unat off \<le> b \<and> covers u (b - unat off))))"
proof -
  let ?mm = "snd (mm_initialize_boot mm m ps off)"
  obtain rs md where rs: "direct_regions off (pm_usable m) = Inr rs" and ty: "mr_type md = Reserved"
    and md: "mm_metadata_region ?mm = md"
    and fi: "fst (fa_initialize (mm_frames mm) (rs @ [md]) ps (mr_base md, mr_size md)) = S_ok"
    and fr: "mm_frames ?mm = snd (fa_initialize (mm_frames mm) (rs @ [md]) ps (mr_base md, mr_size md))"
    by (rule mm_initialize_boot_ok [OF ok])
  note i = fa_initialize_fresh [OF fi, folded fr]
  have "fa_ranges_wf (mm_frames ?mm)" using i(1) by (simp add: fa_wf_def fa_shape_def)
  then have man: "managed (mm_frames ?mm)
      = {p. unat ps dvd p \<and> (\<forall>b. p \<le> b \<and> b < p + unat ps \<longrightarrow> free_byte (rs @ [md]) b)}"
    using managed_ranges i(5,6) usable_runs_pages [OF i(8,9)] by simp
  have "\<not> covers md b \<and> (\<exists>u\<in>set (pm_usable m). unat off \<le> b \<and> covers u (b - unat off))"
    if fb: "free_byte (rs @ [md]) b" for b
  proof -
    obtain r where r: "r \<in> set rs" "covers r b" "\<not> covers md b"
      using fb ty by (auto simp: free_byte_def)
    obtain u where u: "u \<in> set (pm_usable m)" "mr_size r = mr_size u" "unat (mr_base r) = unat (mr_base u) + unat off"
      using direct_regions_set [OF rs r(1)] by auto
    have "unat off \<le> b" "covers u (b - unat off)" using r(2) u by (auto simp: covers_def)
    then show ?thesis using r(3) u(1) by blast
  qed
  then show ?thesis using i(1,2) man md by (auto simp: Let_def)
qed

definition boot_map :: physical_map where
  "boot_map = snd (pm_normalize (snd (pm_add pm_new
     \<lparr>mr_base = 0x1000, mr_size = 0x6000, mr_type = Usable\<rparr> Src_e820)) 0x1000)"

theorem boot_initialize_protects_metadata_witness:
  "fst (mm_initialize_boot (mm_new 1) boot_map 0x1000 0x80000000) = S_ok
   \<and> fa_frame_count (mm_frames (snd (mm_initialize_boot (mm_new 1) boot_map 0x1000 0x80000000))) = 5
   \<and> used_set (mm_frames (snd (mm_initialize_boot (mm_new 1) boot_map 0x1000 0x80000000))) = {}"
proof -
  have ok: "fst (mm_initialize_boot (mm_new 1) boot_map 0x1000 0x80000000) = S_ok" by code_simp
  have "fa_frame_count (mm_frames (snd (mm_initialize_boot (mm_new 1) boot_map 0x1000 0x80000000))) = 5" by code_simp
  then show ?thesis
    using boot_initialize_protects_metadata [OF ok] ok by (simp add: Let_def)
qed

end
