(* ===== verification/OK_Epoch.thy ===== *)
theory OK_Epoch
  imports OK_Prelude
begin

text \<open>
  Wall-clock time: \<^verbatim>\<open>include/ok/time/epoch.hpp\<close> (calendar arithmetic and the one-time boot
  anchor), \<^verbatim>\<open>include/ok/time/realtime_clock.hpp\<close> (the active clock) and
  \<^verbatim>\<open>include/ok/time/rtc.hpp\<close> (the three RTC readers). Signed seconds are integers, which the
  guards keep inside 64 bits; calendar fields and nanoseconds are natural numbers; monotonic
  time and generations are 64-bit words.
\<close>

section \<open>Calendar\<close>

definition nanoseconds_per_second :: nat where
  "nanoseconds_per_second = 1000000000"

record epoch_time =
  et_seconds :: int
  et_nanoseconds :: nat

record calendar =
  cal_year :: nat
  cal_month :: nat
  cal_day :: nat
  cal_hour :: nat
  cal_minute :: nat
  cal_second :: nat

definition leap_year :: "nat \<Rightarrow> bool" where
  "leap_year y \<longleftrightarrow> y mod 4 = 0 \<and> (y mod 100 \<noteq> 0 \<or> y mod 400 = 0)"

definition month_lengths :: "nat list" where
  "month_lengths = [31, 28, 31, 30, 31, 30, 31, 31, 30, 31, 30, 31]"

definition month_days :: "nat \<Rightarrow> nat \<Rightarrow> nat" where
  "month_days year month = month_lengths ! (month - 1) + (if month = 2 \<and> leap_year year then 1 else 0)"

definition calendar_epoch :: "calendar \<Rightarrow> epoch_time result" where
  "calendar_epoch c =
     (if cal_year c = 0 \<or> cal_year c > 9999 \<or> cal_month c = 0 \<or> cal_month c > 12
        \<or> cal_day c = 0 \<or> cal_hour c > 23 \<or> cal_minute c > 59 \<or> cal_second c > 59 then Inl S_invalid_argument
      else if cal_day c > month_days (cal_year c) (cal_month c) then Inl S_invalid_argument
      else (let years = int (cal_year c - 1);
                days0 = years * 365 + years div 4 - years div 100 + years div 400;
                days1 = fold (\<lambda>month days. days + int (month_days (cal_year c) month)) [1..<cal_month c] days0;
                days = days1 + int (cal_day c - 1) - 719162
            in Inr \<lparr>et_seconds = days * 86400 + int (cal_hour c) * 3600 + int (cal_minute c) * 60 + int (cal_second c),
                   et_nanoseconds = 0\<rparr>))"

definition max_seconds :: int where
  "max_seconds = 2 ^ 63 - 1"

definition add_elapsed :: "epoch_time \<Rightarrow> u64 \<Rightarrow> epoch_time result" where
  "add_elapsed e elapsed =
     (if et_nanoseconds e \<ge> nanoseconds_per_second then Inl S_invalid_argument
      else (let fraction = et_nanoseconds e + unat elapsed mod nanoseconds_per_second;
                seconds = int (unat elapsed div nanoseconds_per_second + fraction div nanoseconds_per_second)
            in if et_seconds e > max_seconds - seconds then Inl S_overflow
               else Inr \<lparr>et_seconds = et_seconds e + seconds, et_nanoseconds = fraction mod nanoseconds_per_second\<rparr>))"

section \<open>The boot anchor\<close>

record monotonic_point =
  mp_nanoseconds :: u64
  mp_generation :: u64

datatype epoch_source = Es_unavailable | Es_pl031 | Es_goldfish | Es_ls7a

datatype anchor_state = Uninitialized | Unavailable | Ready | Invalidated

record epoch_reading =
  er_time :: epoch_time
  er_source :: epoch_source
  er_resolution_ns :: u64

record epoch_anchor =
  ea_state :: anchor_state
  ea_source :: epoch_source
  ea_resolution_ns :: u64
  ea_span_ns :: u64
  ea_generation :: u64
  ea_epoch :: epoch_time
  ea_anchor_ns :: u64
  ea_last_ns :: u64
  ea_failure :: status_code

definition zero_time :: epoch_time where
  "zero_time = \<lparr>et_seconds = 0, et_nanoseconds = 0\<rparr>"

definition anchor_new :: epoch_anchor where
  "anchor_new = \<lparr>ea_state = Uninitialized, ea_source = Es_unavailable, ea_resolution_ns = 0, ea_span_ns = 0,
     ea_generation = 0, ea_epoch = zero_time, ea_anchor_ns = 0, ea_last_ns = 0, ea_failure = S_not_initialized\<rparr>"

definition maximum_acquisition_ns :: u64 where
  "maximum_acquisition_ns = 100000000"

definition anchor_status :: "epoch_anchor \<Rightarrow> status_code" where
  "anchor_status a =
     (if ea_state a = Uninitialized then S_not_initialized
      else if ea_state a = Ready then S_ok else ea_failure a)"

definition anchor_reject :: "epoch_anchor \<Rightarrow> status_code \<Rightarrow> status_code \<times> epoch_anchor" where
  "anchor_reject a reason =
     (if ea_state a \<noteq> Uninitialized then (anchor_status a, a)
      else (let failure = (if reason = S_ok then S_invalid_argument else reason) in
        (failure, a\<lparr>ea_failure := failure, ea_state := Unavailable\<rparr>)))"

definition anchor_initialize ::
    "epoch_anchor \<Rightarrow> epoch_reading \<Rightarrow> monotonic_point \<Rightarrow> monotonic_point \<Rightarrow> status_code \<times> epoch_anchor" where
  "anchor_initialize a reading before after =
     (if ea_state a \<noteq> Uninitialized then (anchor_status a, a)
      else if et_nanoseconds (er_time reading) \<ge> nanoseconds_per_second \<or> er_source reading = Es_unavailable
        \<or> er_resolution_ns reading = 0 \<or> er_resolution_ns reading > of_nat nanoseconds_per_second
        \<or> mp_generation before = 0 \<or> mp_generation before \<noteq> mp_generation after
        \<or> mp_nanoseconds after < mp_nanoseconds before
      then anchor_reject a S_invalid_argument
      else (let span = mp_nanoseconds after - mp_nanoseconds before in
        if span > maximum_acquisition_ns then anchor_reject a S_io_error
        else (S_ok, a\<lparr>ea_epoch := er_time reading, ea_anchor_ns := mp_nanoseconds after,
               ea_last_ns := mp_nanoseconds after, ea_state := Ready, ea_source := er_source reading,
               ea_resolution_ns := er_resolution_ns reading, ea_span_ns := span,
               ea_generation := mp_generation after\<rparr>)))"

definition anchor_invalidate :: "epoch_anchor \<Rightarrow> status_code \<Rightarrow> status_code \<times> epoch_anchor" where
  "anchor_invalidate a reason =
     (let a' = (if ea_state a = Ready
        then a\<lparr>ea_failure := (if reason = S_ok then S_io_error else reason), ea_state := Invalidated\<rparr> else a)
      in (anchor_status a', a'))"

definition anchor_read :: "epoch_anchor \<Rightarrow> monotonic_point \<Rightarrow> epoch_time result \<times> epoch_anchor" where
  "anchor_read a p =
     (if ea_state a \<noteq> Ready then (Inl (anchor_status a), a)
      else if mp_generation p \<noteq> ea_generation a \<or> mp_nanoseconds p < ea_last_ns a
      then (case anchor_invalidate a S_io_error of (st, a') \<Rightarrow> (Inl st, a'))
      else (case add_elapsed (ea_epoch a) (mp_nanoseconds p - ea_anchor_ns a) of
          Inl e \<Rightarrow> (case anchor_invalidate a e of (st, a') \<Rightarrow> (Inl st, a'))
        | Inr t \<Rightarrow> (Inr t, a\<lparr>ea_last_ns := mp_nanoseconds p\<rparr>)))"

section \<open>The active clock\<close>

datatype realtime_origin = Origin_none | Boot_rtc | Administrator_software

record realtime_sample =
  rs_value :: epoch_time
  rs_monotonic :: monotonic_point
  rs_wall_generation :: u64
  rs_origin :: realtime_origin

definition next_wall_generation :: "u64 \<Rightarrow> u64 result" where
  "next_wall_generation current = (if current = - 1 then Inl S_overflow else Inr (current + 1))"

record realtime_clock =
  rc_boot :: epoch_anchor
  rc_state :: anchor_state
  rc_origin :: realtime_origin
  rc_wall_generation :: u64
  rc_monotonic_generation :: u64
  rc_resolution_ns :: u64
  rc_software_epoch :: epoch_time
  rc_software_anchor_ns :: u64
  rc_last :: monotonic_point
  rc_failure :: status_code

definition clock_new :: realtime_clock where
  "clock_new = \<lparr>rc_boot = anchor_new, rc_state = Uninitialized, rc_origin = Origin_none, rc_wall_generation = 0,
     rc_monotonic_generation = 0, rc_resolution_ns = 0, rc_software_epoch = zero_time, rc_software_anchor_ns = 0,
     rc_last = \<lparr>mp_nanoseconds = 0, mp_generation = 0\<rparr>, rc_failure = S_not_initialized\<rparr>"

definition clock_status :: "realtime_clock \<Rightarrow> status_code" where
  "clock_status c =
     (if rc_state c = Uninitialized then S_not_initialized
      else if rc_state c = Ready then S_ok else rc_failure c)"

definition reject_boot :: "realtime_clock \<Rightarrow> status_code \<Rightarrow> status_code \<times> realtime_clock" where
  "reject_boot c reason =
     (if ea_state (rc_boot c) \<noteq> Uninitialized then (anchor_status (rc_boot c), c)
      else (case anchor_reject (rc_boot c) reason of (st, b) \<Rightarrow>
        (st, c\<lparr>rc_boot := b, rc_state := Unavailable, rc_failure := st\<rparr>)))"

definition initialize_boot ::
    "realtime_clock \<Rightarrow> epoch_reading \<Rightarrow> monotonic_point \<Rightarrow> monotonic_point \<Rightarrow> u64 \<Rightarrow> status_code \<times> realtime_clock" where
  "initialize_boot c reading before after resolution =
     (if ea_state (rc_boot c) \<noteq> Uninitialized then (anchor_status (rc_boot c), c)
      else if resolution = 0 then reject_boot c S_io_error
      else (case anchor_initialize (rc_boot c) reading before after of (st, b) \<Rightarrow>
        if st \<noteq> S_ok then (st, c\<lparr>rc_boot := b, rc_state := Unavailable, rc_failure := st\<rparr>)
        else (S_ok, c\<lparr>rc_boot := b, rc_last := after, rc_state := Ready, rc_origin := Boot_rtc,
               rc_wall_generation := 1, rc_monotonic_generation := mp_generation after,
               rc_resolution_ns := resolution\<rparr>)))"

definition invalidate_boot :: "realtime_clock \<Rightarrow> status_code \<Rightarrow> status_code \<times> realtime_clock" where
  "invalidate_boot c reason =
     (case anchor_invalidate (rc_boot c) reason of (st, b) \<Rightarrow> (st, c\<lparr>rc_boot := b\<rparr>))"

definition clock_invalidate :: "realtime_clock \<Rightarrow> status_code \<Rightarrow> status_code \<times> realtime_clock" where
  "clock_invalidate c reason =
     (let c' = (if rc_state c = Ready
        then (let failure = (if reason = S_ok then S_io_error else reason) in
          c\<lparr>rc_failure := failure, rc_state := Invalidated,
            rc_boot := (if rc_origin c = Boot_rtc then snd (anchor_invalidate (rc_boot c) failure) else rc_boot c)\<rparr>)
        else c)
      in (clock_status c', c'))"

definition clock_set :: "realtime_clock \<Rightarrow> epoch_time \<Rightarrow> monotonic_point \<Rightarrow> u64 \<Rightarrow> status_code \<times> realtime_clock" where
  "clock_set c t p resolution =
     (if ea_state (rc_boot c) = Uninitialized then (S_not_initialized, c)
      else if rc_state c = Invalidated then (rc_failure c, c)
      else if et_nanoseconds t \<ge> nanoseconds_per_second \<or> mp_generation p = 0 \<or> resolution = 0
      then (S_invalid_argument, c)
      else if rc_state c = Ready \<and> (mp_generation p \<noteq> mp_generation (rc_last c)
        \<or> mp_nanoseconds p < mp_nanoseconds (rc_last c)) then (S_io_error, c)
      else (case next_wall_generation (rc_wall_generation c) of Inl e \<Rightarrow> (e, c)
        | Inr g \<Rightarrow> (S_ok, c\<lparr>rc_software_epoch := t, rc_software_anchor_ns := mp_nanoseconds p, rc_last := p,
            rc_state := Ready, rc_origin := Administrator_software, rc_wall_generation := g,
            rc_monotonic_generation := mp_generation p, rc_resolution_ns := resolution\<rparr>)))"

definition clock_read :: "realtime_clock \<Rightarrow> monotonic_point \<Rightarrow> realtime_sample result \<times> realtime_clock" where
  "clock_read c p =
     (if rc_state c \<noteq> Ready then (Inl (clock_status c), c)
      else if mp_generation p \<noteq> mp_generation (rc_last c) \<or> mp_nanoseconds p < mp_nanoseconds (rc_last c)
      then (case clock_invalidate c S_io_error of (st, c') \<Rightarrow> (Inl st, c'))
      else (let (r, c1) = (if rc_origin c = Boot_rtc
              then (case anchor_read (rc_boot c) p of (r, b) \<Rightarrow> (r, c\<lparr>rc_boot := b\<rparr>))
              else (add_elapsed (rc_software_epoch c) (mp_nanoseconds p - rc_software_anchor_ns c), c))
        in case r of
            Inl e \<Rightarrow> (case clock_invalidate c1 e of (st, c') \<Rightarrow> (Inl st, c'))
          | Inr t \<Rightarrow> (Inr \<lparr>rs_value = t, rs_monotonic = p, rs_wall_generation = rc_wall_generation c1,
                rs_origin = rc_origin c1\<rparr>, c1\<lparr>rc_last := p\<rparr>)))"

section \<open>RTC readers\<close>

text \<open>The device is a parameter: a read of a 32-bit register changes its state.\<close>

type_synonym 'b bus = "u32 \<Rightarrow> 'b \<Rightarrow> u32 \<times> 'b"

definition pl031_identity :: "u32 list" where
  "pl031_identity = [0x31, 0x10, 0x04, 0x00, 0x0d, 0xf0, 0x05, 0xb1]"

primrec pl031_probe :: "'b bus \<Rightarrow> nat list \<Rightarrow> 'b \<Rightarrow> bool \<times> 'b" where
  "pl031_probe rd [] b = (True, b)"
| "pl031_probe rd (i # is) b =
     (case rd (0xfe0 + 4 * of_nat i) b of (x, b') \<Rightarrow>
        if x AND (if i = 2 then 0x0f else - 1) \<noteq> pl031_identity ! i then (False, b') else pl031_probe rd is b')"

definition read_pl031 :: "'b bus \<Rightarrow> 'b \<Rightarrow> epoch_reading result \<times> 'b" where
  "read_pl031 rd b =
     (case pl031_probe rd [0..<8] b of (ok, b1) \<Rightarrow>
        if \<not> ok then (Inl S_unsupported, b1)
        else (case rd 0x0c b1 of (c1, b2) \<Rightarrow>
          if c1 AND 1 = 0 then (Inl S_io_error, b2)
          else (case rd 0 b2 of (seconds, b3) \<Rightarrow>
            (case rd 0x0c b3 of (c2, b4) \<Rightarrow>
              if c2 AND 1 = 0 then (Inl S_io_error, b4)
              else (Inr \<lparr>er_time = \<lparr>et_seconds = uint seconds, et_nanoseconds = 0\<rparr>, er_source = Es_pl031,
                er_resolution_ns = of_nat nanoseconds_per_second\<rparr>, b4)))))"

definition read_goldfish :: "'b bus \<Rightarrow> 'b \<Rightarrow> epoch_reading result \<times> 'b" where
  "read_goldfish rd b =
     (case rd 0 b of (low, b1) \<Rightarrow>
        (case rd 4 b1 of (high, b2) \<Rightarrow>
          (let x = push_bit 32 (ucast high :: u64) OR ucast low in
           (Inr \<lparr>er_time = \<lparr>et_seconds = int (unat x div nanoseconds_per_second),
               et_nanoseconds = unat x mod nanoseconds_per_second\<rparr>, er_source = Es_goldfish, er_resolution_ns = 1\<rparr>, b2))))"

definition ls7a_enabled :: u32 where
  "ls7a_enabled = push_bit 11 1 OR push_bit 8 1"

definition ls7a_calendar :: "u32 \<Rightarrow> u32 \<Rightarrow> calendar" where
  "ls7a_calendar year cal =
     \<lparr>cal_year = unat (year + 1900), cal_month = unat (drop_bit 26 cal), cal_day = unat (drop_bit 21 cal AND 31),
      cal_hour = unat (drop_bit 16 cal AND 31), cal_minute = unat (drop_bit 10 cal AND 63),
      cal_second = unat (drop_bit 4 cal AND 63)\<rparr>"

primrec ls7a_attempts :: "'b bus \<Rightarrow> nat \<Rightarrow> 'b \<Rightarrow> epoch_reading result \<times> 'b" where
  "ls7a_attempts rd 0 b = (Inl S_io_error, b)"
| "ls7a_attempts rd (Suc n) b =
     (case rd 0x30 b of (year, b1) \<Rightarrow>
      case rd 0x2c b1 of (cal0, b2) \<Rightarrow>
      case rd 0x30 b2 of (year', b3) \<Rightarrow>
      case rd 0x2c b3 of (cal1, b4) \<Rightarrow>
        (let cal = cal0 AND NOT 15; cal' = cal1 AND NOT 15 in
         if year \<noteq> year' \<or> cal \<noteq> cal' then ls7a_attempts rd n b4
         else (case rd 0x40 b4 of (ctl, b5) \<Rightarrow>
           if ctl AND ls7a_enabled \<noteq> ls7a_enabled then (Inl S_io_error, b5)
           else if year > 8099 then (Inl S_overflow, b5)
           else (case calendar_epoch (ls7a_calendar year cal) of
               Inl e \<Rightarrow> (Inl e, b5)
             | Inr t \<Rightarrow> (Inr \<lparr>er_time = t, er_source = Es_ls7a,
                 er_resolution_ns = of_nat nanoseconds_per_second\<rparr>, b5)))))"

definition read_ls7a :: "'b bus \<Rightarrow> 'b \<Rightarrow> epoch_reading result \<times> 'b" where
  "read_ls7a rd b =
     (case rd 0x40 b of (ctl, b1) \<Rightarrow>
        if ctl AND ls7a_enabled \<noteq> ls7a_enabled then (Inl S_unsupported, b1)
        else ls7a_attempts rd 64 b1)"

end
