(* ===== verification/OK_Epoch_Proofs.thy ===== *)
theory OK_Epoch_Proofs
  imports OK_Epoch
begin

text \<open>
  The calendar counts seconds since 1970; the active clock follows monotonic time and, once
  invalidated, stays so; the RTC readers decode what the registers encode.
\<close>

section \<open>Calendar\<close>

definition calendar_valid :: "calendar \<Rightarrow> bool" where
  "calendar_valid c \<longleftrightarrow> 1 \<le> cal_year c \<and> cal_year c \<le> 9999 \<and> 1 \<le> cal_month c \<and> cal_month c \<le> 12
     \<and> 1 \<le> cal_day c \<and> cal_day c \<le> month_days (cal_year c) (cal_month c)
     \<and> cal_hour c \<le> 23 \<and> cal_minute c \<le> 59 \<and> cal_second c \<le> 59"

text \<open>Days before a date, counted from the first of January of year 1.\<close>

definition day_number :: "nat \<Rightarrow> nat \<Rightarrow> nat \<Rightarrow> int" where
  "day_number y m d =
     fold (\<lambda>month days. days + int (month_days y month)) [1..<m]
       (int (y - 1) * 365 + int (y - 1) div 4 - int (y - 1) div 100 + int (y - 1) div 400) + int (d - 1)"

lemma calendar_epoch_eq:
  "calendar_epoch c = (if calendar_valid c
     then Inr \<lparr>et_seconds = (day_number (cal_year c) (cal_month c) (cal_day c) - 719162) * 86400
       + int (cal_hour c) * 3600 + int (cal_minute c) * 60 + int (cal_second c), et_nanoseconds = 0\<rparr>
     else Inl S_invalid_argument)"
  by (auto simp: calendar_epoch_def calendar_valid_def day_number_def Let_def)

lemma day_number_day: "1 \<le> d \<Longrightarrow> day_number y m (Suc d) = day_number y m d + 1"
  by (simp add: day_number_def)

lemma month_days_pos: "1 \<le> m \<Longrightarrow> m \<le> 12 \<Longrightarrow> 28 \<le> month_days y m"
proof -
  assume m: "1 \<le> m" "m \<le> 12"
  have "\<forall>k < 12. 28 \<le> month_lengths ! k"
    by (simp add: month_lengths_def less_Suc_eq numeral_eq_Suc nth_Cons')
  then have "28 \<le> month_lengths ! (m - 1)" using m by auto
  then show ?thesis by (simp add: month_days_def)
qed

lemma day_number_month:
  assumes "1 \<le> m" "m \<le> 12"
  shows "day_number y (Suc m) 1 = day_number y m (month_days y m) + 1"
  using assms month_days_pos [OF assms, of y] by (simp add: day_number_def)

lemma fold_month_sum:
  "fold (\<lambda>month days. days + int (month_days y month)) ms s = s + (\<Sum>m\<leftarrow>ms. int (month_days y m))"
  by (induction ms arbitrary: s) simp_all

lemma inclusion_exclusion:
  "(r \<Longrightarrow> q) \<Longrightarrow> (q \<Longrightarrow> p) \<Longrightarrow> l \<longleftrightarrow> p \<and> (\<not> q \<or> r) \<Longrightarrow>
   A + (if p then 1 else 0) - (B + (if q then 1 else 0)) + (C + (if r then 1 else 0))
     = A - B + C + (if l then 1 else (0::int))"
  by (cases p; cases q; cases r) simp_all

lemma leap_count:
  fixes y :: nat
  assumes "1 \<le> y"
  shows "int y div 4 - int y div 100 + int y div 400
    = int (y - 1) div 4 - int (y - 1) div 100 + int (y - 1) div 400 + (if leap_year y then 1 else 0)"
proof -
  have step: "int y div int k = int (y - 1) div int k + (if k dvd y then 1 else 0)" for k
    unfolding zdiv_int [symmetric] dvd_eq_mod_eq_0 using assms div_Suc [of "y - 1" k] by simp
  note s = step [of 4, unfolded of_nat_numeral] step [of 100, unfolded of_nat_numeral] step [of 400, unfolded of_nat_numeral]
  have d: "100 dvd y" if "400 dvd y" using that by (rule dvd_trans [rotated]) simp
  have e: "4 dvd y" if "100 dvd y" using that by (rule dvd_trans [rotated]) simp
  have l: "leap_year y \<longleftrightarrow> 4 dvd y \<and> (\<not> 100 dvd y \<or> 400 dvd y)" by (simp add: leap_year_def dvd_eq_mod_eq_0)
  show ?thesis unfolding s by (rule inclusion_exclusion [OF _ _ l]) (erule d, erule e)
qed

lemma year_days: "(\<Sum>m\<leftarrow>[1..<12]. int (month_days y m)) = 334 + (if leap_year y then 1 else 0)"
proof -
  have "[1..<12] = [1, 2, 3, 4, 5, 6, 7, 8, 9, 10, 11 :: nat]" by (simp add: upt_rec)
  then show ?thesis by (simp add: month_days_def month_lengths_def)
qed

lemma day_number_year:
  assumes "1 \<le> y"
  shows "day_number (Suc y) 1 1 = day_number y 12 31 + 1"
proof -
  have sum: "A - B + C = A' - B' + C' + k \<Longrightarrow> y = x + 1 \<Longrightarrow>
      y * 365 + A - B + C + 0 = x * 365 + A' - B' + C' + (334 + k) + 30 + 1" for A B C A' B' C' k x y :: int
    by linarith
  have "int (Suc y - 1) = int (y - 1) + 1" "int (31 - 1) = 30" "int (1 - 1) = 0" using assms by simp_all
  from sum [OF leap_count [OF assms] this(1) [unfolded diff_Suc_1]] this(2,3) show ?thesis
    unfolding day_number_def fold_month_sum year_days by (simp only: diff_Suc_1 upt_eq_Nil_conv less_irrefl list.map sum_list.Nil add_0_right) (simp only: upt_rec [of 1 1] less_irrefl if_False list.map sum_list.Nil add_0_right)
qed

text \<open>The next second on a wall calendar.\<close>

definition next_day :: "calendar \<Rightarrow> calendar" where
  "next_day c =
     (if cal_day c < month_days (cal_year c) (cal_month c) then c\<lparr>cal_day := cal_day c + 1\<rparr>
      else if cal_month c < 12 then c\<lparr>cal_month := cal_month c + 1, cal_day := 1\<rparr>
      else c\<lparr>cal_year := cal_year c + 1, cal_month := 1, cal_day := 1\<rparr>)"

definition next_second :: "calendar \<Rightarrow> calendar" where
  "next_second c =
     (if cal_second c < 59 then c\<lparr>cal_second := cal_second c + 1\<rparr>
      else if cal_minute c < 59 then c\<lparr>cal_minute := cal_minute c + 1, cal_second := 0\<rparr>
      else if cal_hour c < 23 then c\<lparr>cal_hour := cal_hour c + 1, cal_minute := 0, cal_second := 0\<rparr>
      else (next_day c)\<lparr>cal_hour := 0, cal_minute := 0, cal_second := 0\<rparr>)"

lemma month_days_12: "month_days y 12 = 31"
  by (simp add: month_days_def month_lengths_def)

lemma next_day_number:
  assumes "calendar_valid c"
  shows "day_number (cal_year (next_day c)) (cal_month (next_day c)) (cal_day (next_day c))
    = day_number (cal_year c) (cal_month c) (cal_day c) + 1"
proof -
  have v: "1 \<le> cal_year c" "1 \<le> cal_month c" "cal_month c \<le> 12" "1 \<le> cal_day c"
    "cal_day c \<le> month_days (cal_year c) (cal_month c)" using assms by (auto simp: calendar_valid_def)
  consider "cal_day c < month_days (cal_year c) (cal_month c)"
    | "cal_day c = month_days (cal_year c) (cal_month c)" "cal_month c < 12"
    | "cal_day c = month_days (cal_year c) (cal_month c)" "cal_month c = 12"
    using v by linarith
  then show ?thesis
  proof cases
    case 1
    then show ?thesis using day_number_day [OF v(4)] by (simp add: next_day_def)
  next
    case 2
    then show ?thesis using day_number_month [OF v(2,3)] by (simp add: next_day_def)
  next
    case 3
    then show ?thesis using day_number_year [OF v(1)] month_days_12 [of "cal_year c"] by (simp add: next_day_def)
  qed
qed

lemma next_second_valid:
  assumes "calendar_valid c" and "cal_year (next_second c) \<le> 9999"
  shows "calendar_valid (next_second c)"
proof -
  have v: "1 \<le> cal_month c" "cal_month c \<le> 12" using assms(1) by (auto simp: calendar_valid_def)
  have "1 \<le> month_days y m" if "1 \<le> m" "m \<le> 12" for y m using month_days_pos [OF that, of y] by linarith
  then have "1 \<le> month_days (cal_year c) (cal_month c + 1)" if "cal_month c < 12" using that v by simp
  moreover have "1 \<le> month_days (Suc (cal_year c)) 1" using month_days_pos [of 1 "Suc (cal_year c)"] by simp
  ultimately show ?thesis using assms
    by (auto simp: calendar_valid_def next_second_def next_day_def split: if_splits)
qed

lemma calendar_epoch_next:
  assumes "calendar_valid c" and "calendar_valid (next_second c)" and "calendar_epoch c = Inr t"
  shows "calendar_epoch (next_second c) = Inr (t\<lparr>et_seconds := et_seconds t + 1\<rparr>)"
proof -
  have v: "cal_hour c \<le> 23" "cal_minute c \<le> 59" "cal_second c \<le> 59" using assms(1) by (auto simp: calendar_valid_def)
  have t: "t = \<lparr>et_seconds = (day_number (cal_year c) (cal_month c) (cal_day c) - 719162) * 86400
       + int (cal_hour c) * 3600 + int (cal_minute c) * 60 + int (cal_second c), et_nanoseconds = 0\<rparr>"
    using assms(1,3) by (simp add: calendar_epoch_eq)
  consider "cal_second c < 59" | "cal_second c = 59" "cal_minute c < 59"
    | "cal_second c = 59" "cal_minute c = 59" "cal_hour c < 23" | "cal_second c = 59" "cal_minute c = 59" "cal_hour c = 23"
    using v by linarith
  then show ?thesis
  proof cases
    case 4
    then show ?thesis using assms(2) next_day_number [OF assms(1)]
      by (simp add: calendar_epoch_eq t next_second_def)
  qed (use assms(2) in \<open>simp_all add: calendar_epoch_eq t next_second_def\<close>)
qed

definition origin_1970 :: calendar where
  "origin_1970 = \<lparr>cal_year = 1970, cal_month = 1, cal_day = 1, cal_hour = 0, cal_minute = 0, cal_second = 0\<rparr>"

lemma origin_valid: "calendar_valid origin_1970"
  by (simp add: origin_1970_def calendar_valid_def month_days_def month_lengths_def)

lemma origin_epoch: "calendar_epoch origin_1970 = Inr zero_time"
  using origin_valid by (simp add: calendar_epoch_eq) (simp add: origin_1970_def day_number_def zero_time_def)

lemma next_second_year: "cal_year c \<le> cal_year (next_second c)"
  by (simp add: next_second_def next_day_def)

text \<open>
  C24: The calendar conversion counts seconds: the date and time reached by letting a wall
  calendar run for \<open>n\<close> seconds from the start of 1970 is valid and converts to exactly \<open>n\<close>,
  for every \<open>n\<close> that stays within year 9999, across all month lengths and leap years.
\<close>

theorem calendar_counts_seconds:
  assumes "cal_year ((next_second ^^ n) origin_1970) \<le> 9999"
  shows "calendar_epoch ((next_second ^^ n) origin_1970) = Inr \<lparr>et_seconds = int n, et_nanoseconds = 0\<rparr>"
proof -
  have "calendar_valid ((next_second ^^ n) origin_1970) \<and>
      calendar_epoch ((next_second ^^ n) origin_1970) = Inr \<lparr>et_seconds = int n, et_nanoseconds = 0\<rparr>"
    using assms
  proof (induction n)
    case 0
    then show ?case by (simp add: origin_valid origin_epoch zero_time_def)
  next
    case (Suc n)
    let ?c = "(next_second ^^ n) origin_1970"
    have y: "cal_year (next_second ?c) \<le> 9999" using Suc.prems by simp
    have IH: "calendar_valid ?c" "calendar_epoch ?c = Inr \<lparr>et_seconds = int n, et_nanoseconds = 0\<rparr>"
      using Suc.IH le_trans [OF next_second_year y] by simp_all
    have "calendar_valid (next_second ?c)" by (rule next_second_valid [OF IH(1) y])
    with calendar_epoch_next [OF IH(1) this IH(2)] show ?case by simp
  qed
  then show ?thesis by simp
qed

theorem calendar_counts_seconds_witness:
  "calendar_epoch ((next_second ^^ 2) origin_1970) = Inr \<lparr>et_seconds = 2, et_nanoseconds = 0\<rparr>"
proof -
  have "(next_second ^^ 2) origin_1970 = next_second (next_second origin_1970)" by (simp add: numeral_2_eq_2)
  then have "cal_year ((next_second ^^ 2) origin_1970) \<le> 9999"
    by (simp add: origin_1970_def next_second_def)
  from calendar_counts_seconds [OF this] show ?thesis by simp
qed

section \<open>Elapsed time\<close>

definition total_ns :: "epoch_time \<Rightarrow> int" where
  "total_ns t = et_seconds t * 1000000000 + int (et_nanoseconds t)"

lemma add_elapsed_Inr:
  assumes "add_elapsed e d = Inr t"
  shows "total_ns t = total_ns e + int (unat d)" and "et_nanoseconds t < nanoseconds_per_second"
    and "et_seconds t \<le> max_seconds"
proof -
  let ?N = "nanoseconds_per_second" and ?f = "et_nanoseconds e + unat d mod nanoseconds_per_second"
  have t: "t = \<lparr>et_seconds = et_seconds e + int (unat d div ?N + ?f div ?N), et_nanoseconds = ?f mod ?N\<rparr>"
    "et_seconds e \<le> max_seconds - int (unat d div ?N + ?f div ?N)"
    using assms by (auto simp: add_elapsed_def Let_def split: if_splits)
  have "unat d div ?N * ?N + unat d mod ?N = unat d" "?f div ?N * ?N + ?f mod ?N = ?f" by simp_all
  then have "(unat d div ?N + ?f div ?N) * ?N + ?f mod ?N = et_nanoseconds e + unat d"
    unfolding distrib_right by linarith
  then have "int ((unat d div ?N + ?f div ?N) * ?N + ?f mod ?N) = int (et_nanoseconds e + unat d)" by (rule arg_cong)
  then show "total_ns t = total_ns e + int (unat d)"
    unfolding total_ns_def t(1) of_nat_add of_nat_mult by (simp add: nanoseconds_per_second_def algebra_simps)
  show "et_nanoseconds t < ?N" by (simp add: t(1) nanoseconds_per_second_def)
  show "et_seconds t \<le> max_seconds" using t by simp
qed

section \<open>The active clock\<close>

datatype clock_op =
    Reject_boot status_code
  | Initialize_boot epoch_reading monotonic_point monotonic_point u64
  | Invalidate_boot status_code
  | Invalidate status_code
  | Set_clock epoch_time monotonic_point u64
  | Read_clock monotonic_point

primrec clock_exec :: "clock_op \<Rightarrow> realtime_clock \<Rightarrow> realtime_clock" where
  "clock_exec (Reject_boot st) c = snd (reject_boot c st)"
| "clock_exec (Initialize_boot r p q n) c = snd (initialize_boot c r p q n)"
| "clock_exec (Invalidate_boot st) c = snd (invalidate_boot c st)"
| "clock_exec (Invalidate st) c = snd (clock_invalidate c st)"
| "clock_exec (Set_clock t p n) c = snd (clock_set c t p n)"
| "clock_exec (Read_clock p) c = snd (clock_read c p)"

text \<open>
  A clock that left its initial state has had its boot attempt; a failure code is never a
  success; and the anchor of a ready clock lies at or before its last reading.
\<close>

definition clock_ok :: "realtime_clock \<Rightarrow> bool" where
  "clock_ok c \<longleftrightarrow>
     (rc_state c \<noteq> Uninitialized \<longrightarrow> ea_state (rc_boot c) \<noteq> Uninitialized)
     \<and> rc_failure c \<noteq> S_ok \<and> ea_failure (rc_boot c) \<noteq> S_ok
     \<and> (rc_state c = Ready \<and> rc_origin c = Boot_rtc \<longrightarrow> ea_anchor_ns (rc_boot c) \<le> mp_nanoseconds (rc_last c))
     \<and> (rc_state c = Ready \<and> rc_origin c \<noteq> Boot_rtc \<longrightarrow> rc_software_anchor_ns c \<le> mp_nanoseconds (rc_last c))"

lemma clock_ok_new: "clock_ok clock_new"
  by (simp add: clock_ok_def clock_new_def anchor_new_def)

lemma anchor_invalidate_fields:
  "ea_anchor_ns (snd (anchor_invalidate a st)) = ea_anchor_ns a"
  "ea_epoch (snd (anchor_invalidate a st)) = ea_epoch a"
  "ea_state (snd (anchor_invalidate a st)) = (if ea_state a = Ready then Invalidated else ea_state a)"
  "ea_failure a \<noteq> S_ok \<Longrightarrow> ea_failure (snd (anchor_invalidate a st)) \<noteq> S_ok"
  by (auto simp: anchor_invalidate_def Let_def)

lemma anchor_read_fields:
  "ea_anchor_ns (snd (anchor_read a p)) = ea_anchor_ns a"
  "ea_epoch (snd (anchor_read a p)) = ea_epoch a"
  "ea_state a \<noteq> Uninitialized \<Longrightarrow> ea_state (snd (anchor_read a p)) \<noteq> Uninitialized"
  "ea_failure a \<noteq> S_ok \<Longrightarrow> ea_failure (snd (anchor_read a p)) \<noteq> S_ok"
  by (auto simp: anchor_read_def case_prod_beta anchor_invalidate_fields split: sum.splits)

lemma clock_invalidate_ok: "clock_ok c \<Longrightarrow> clock_ok (snd (clock_invalidate c st))"
  by (auto simp: clock_ok_def clock_invalidate_def Let_def anchor_invalidate_fields)

lemma clock_ok_boot:
  "clock_ok c \<Longrightarrow> ea_state b \<noteq> Uninitialized \<Longrightarrow> ea_failure b \<noteq> S_ok \<Longrightarrow> ea_anchor_ns b = ea_anchor_ns (rc_boot c) \<Longrightarrow>
   clock_ok (c\<lparr>rc_boot := b\<rparr>)"
  by (simp add: clock_ok_def)

text \<open>A read, once its guards have passed.\<close>

definition clock_value :: "realtime_clock \<Rightarrow> monotonic_point \<Rightarrow> epoch_time result \<times> realtime_clock" where
  "clock_value c p = (if rc_origin c = Boot_rtc
     then (fst (anchor_read (rc_boot c) p), c\<lparr>rc_boot := snd (anchor_read (rc_boot c) p)\<rparr>)
     else (add_elapsed (rc_software_epoch c) (mp_nanoseconds p - rc_software_anchor_ns c), c))"

lemma clock_read_eq:
  "clock_read c p =
     (if rc_state c \<noteq> Ready then (Inl (clock_status c), c)
      else if mp_generation p \<noteq> mp_generation (rc_last c) \<or> mp_nanoseconds p < mp_nanoseconds (rc_last c)
      then (Inl (fst (clock_invalidate c S_io_error)), snd (clock_invalidate c S_io_error))
      else (case fst (clock_value c p) of
          Inl e \<Rightarrow> (Inl (fst (clock_invalidate (snd (clock_value c p)) e)), snd (clock_invalidate (snd (clock_value c p)) e))
        | Inr t \<Rightarrow> (Inr \<lparr>rs_value = t, rs_monotonic = p, rs_wall_generation = rc_wall_generation c, rs_origin = rc_origin c\<rparr>,
            (snd (clock_value c p))\<lparr>rc_last := p\<rparr>)))"
  by (simp add: clock_read_def clock_value_def case_prod_beta Let_def split: sum.splits)

lemma clock_value_ok: "clock_ok c \<Longrightarrow> rc_state c = Ready \<Longrightarrow> clock_ok (snd (clock_value c p))"
  by (auto simp: clock_value_def anchor_read_fields clock_ok_def)

lemma clock_value_fields:
  "rc_state (snd (clock_value c p)) = rc_state c" "rc_origin (snd (clock_value c p)) = rc_origin c"
  "rc_last (snd (clock_value c p)) = rc_last c" "rc_software_epoch (snd (clock_value c p)) = rc_software_epoch c"
  "rc_software_anchor_ns (snd (clock_value c p)) = rc_software_anchor_ns c"
  "rc_wall_generation (snd (clock_value c p)) = rc_wall_generation c"
  "ea_anchor_ns (rc_boot (snd (clock_value c p))) = ea_anchor_ns (rc_boot c)"
  "ea_epoch (rc_boot (snd (clock_value c p))) = ea_epoch (rc_boot c)"
  by (simp_all add: clock_value_def anchor_read_fields)

lemma clock_read_ok:
  assumes "clock_ok c"
  shows "clock_ok (snd (clock_read c p))"
proof (cases "rc_state c = Ready \<and> mp_generation p = mp_generation (rc_last c)
    \<and> \<not> mp_nanoseconds p < mp_nanoseconds (rc_last c)")
  case True
  note v = clock_value_ok [OF assms, of p]
  show ?thesis
  proof (cases "fst (clock_value c p)")
    case (Inl e)
    then show ?thesis using True clock_invalidate_ok v by (simp add: clock_read_eq)
  next
    case (Inr t)
    have "clock_ok ((snd (clock_value c p))\<lparr>rc_last := p\<rparr>)"
      using v True by (auto simp: clock_ok_def clock_value_fields)
    then show ?thesis using Inr True by (simp add: clock_read_eq)
  qed
next
  case False
  then show ?thesis using assms clock_invalidate_ok [OF assms, of S_io_error] by (simp add: clock_read_eq)
qed

lemma anchor_reject_fields:
  "ea_state (snd (anchor_reject a st)) \<noteq> Uninitialized"
  "ea_failure a \<noteq> S_ok \<Longrightarrow> ea_failure (snd (anchor_reject a st)) \<noteq> S_ok"
  "ea_state a = Uninitialized \<Longrightarrow> fst (anchor_reject a st) \<noteq> S_ok"
  by (auto simp: anchor_reject_def Let_def)

lemma anchor_initialize_fields:
  assumes "ea_state a = Uninitialized" "ea_failure a \<noteq> S_ok"
  shows "ea_state (snd (anchor_initialize a r p q)) \<noteq> Uninitialized"
    and "ea_failure (snd (anchor_initialize a r p q)) \<noteq> S_ok"
    and "fst (anchor_initialize a r p q) = S_ok \<Longrightarrow> ea_anchor_ns (snd (anchor_initialize a r p q)) = mp_nanoseconds q"
  using assms anchor_reject_fields [of a] by (auto simp: anchor_initialize_def Let_def)

lemma clock_exec_ok: "clock_ok c \<Longrightarrow> clock_ok (clock_exec x c)"
proof (induction x)
  case (Reject_boot st)
  then show ?case using anchor_reject_fields [of "rc_boot c" st]
    by (auto simp: reject_boot_def clock_ok_def case_prod_beta)
next
  case (Initialize_boot r p q n)
  show ?case
  proof (cases "ea_state (rc_boot c) = Uninitialized")
    case True
    have f: "ea_failure (rc_boot c) \<noteq> S_ok" using Initialize_boot by (simp add: clock_ok_def)
    show ?thesis using Initialize_boot True anchor_reject_fields [of "rc_boot c" S_io_error]
        anchor_initialize_fields [OF True f, of r p q]
      by (auto simp: initialize_boot_def reject_boot_def clock_ok_def case_prod_beta)
  qed (use Initialize_boot in \<open>simp add: initialize_boot_def\<close>)
next
  case (Invalidate_boot st)
  then show ?case by (auto simp: invalidate_boot_def case_prod_beta clock_ok_def anchor_invalidate_fields)
next
  case (Set_clock t p n)
  then show ?case by (auto simp: clock_set_def clock_ok_def split: sum.splits)
qed (simp_all add: clock_invalidate_ok clock_read_ok)

lemma clock_run_ok: "clock_ok c \<Longrightarrow> clock_ok (fold clock_exec xs c)"
  by (induction xs arbitrary: c) (simp_all add: clock_exec_ok)

text \<open>The wall time at monotonic zero that the active clock extrapolates from.\<close>

definition clock_base :: "realtime_clock \<Rightarrow> int" where
  "clock_base c = (if rc_origin c = Boot_rtc then total_ns (ea_epoch (rc_boot c)) - int (unat (ea_anchor_ns (rc_boot c)))
     else total_ns (rc_software_epoch c) - int (unat (rc_software_anchor_ns c)))"

lemma anchor_read_Inr:
  "fst (anchor_read a p) = Inr t \<Longrightarrow> add_elapsed (ea_epoch a) (mp_nanoseconds p - ea_anchor_ns a) = Inr t"
  by (auto simp: anchor_read_def case_prod_beta split: if_splits sum.splits)

lemma clock_read_Inr:
  assumes "clock_ok c" and "clock_read c p = (Inr s, c')"
  shows "total_ns (rs_value s) = clock_base c + int (unat (mp_nanoseconds p))"
    and "clock_base c' = clock_base c" and "rc_last c' = p" and "rc_state c' = Ready"
    and "mp_nanoseconds (rc_last c) \<le> mp_nanoseconds p"
    and "rs_wall_generation s = rc_wall_generation c" and "rc_wall_generation c' = rc_wall_generation c"
proof -
  have g: "rc_state c = Ready" "\<not> mp_nanoseconds p < mp_nanoseconds (rc_last c)"
    and v: "fst (clock_value c p) = Inr (rs_value s)" "c' = (snd (clock_value c p))\<lparr>rc_last := p\<rparr>"
    and w: "rs_wall_generation s = rc_wall_generation c"
    using assms(2) by (auto simp: clock_read_eq split: if_splits sum.splits)
  show "rc_last c' = p" "rc_state c' = Ready" "rc_wall_generation c' = rc_wall_generation c"
    "clock_base c' = clock_base c" using g(1) by (simp_all add: v(2) clock_value_fields clock_base_def)
  show le: "mp_nanoseconds (rc_last c) \<le> mp_nanoseconds p" using g(2) by simp
  show "rs_wall_generation s = rc_wall_generation c" by (rule w)
  define anchor where "anchor = (if rc_origin c = Boot_rtc then ea_anchor_ns (rc_boot c) else rc_software_anchor_ns c)"
  define start where "start = (if rc_origin c = Boot_rtc then ea_epoch (rc_boot c) else rc_software_epoch c)"
  have base: "clock_base c = total_ns start - int (unat anchor)" by (simp add: clock_base_def anchor_def start_def)
  have "anchor \<le> mp_nanoseconds p"
    using assms(1) g(1) le by (auto simp: anchor_def clock_ok_def intro: order_trans)
  then have sub: "int (unat (mp_nanoseconds p - anchor)) = int (unat (mp_nanoseconds p)) - int (unat anchor)"
    by (simp add: unat_sub word_le_nat_alt of_nat_diff)
  have "add_elapsed start (mp_nanoseconds p - anchor) = Inr (rs_value s)"
    using v(1) anchor_read_Inr by (simp add: clock_value_def anchor_def start_def split: if_splits)
  from add_elapsed_Inr(1) [OF this] show "total_ns (rs_value s) = clock_base c + int (unat (mp_nanoseconds p))"
    unfolding base sub by linarith
qed

lemma clock_read_Inl:
  "fst (clock_read c p) = Inl e \<Longrightarrow> rc_state (snd (clock_read c p)) \<noteq> Ready"
  by (auto simp: clock_read_eq clock_invalidate_def Let_def clock_value_fields split: if_splits sum.splits)

lemma clock_read_not_ready: "rc_state c \<noteq> Ready \<Longrightarrow> clock_read c p = (Inl (clock_status c), c)"
  by (simp add: clock_read_eq)

lemma clock_reads_keep:
  assumes "clock_ok c" and "rc_state (fold (\<lambda>q c. snd (clock_read c q)) qs c) = Ready"
  defines "d \<equiv> fold (\<lambda>q c. snd (clock_read c q)) qs c"
  shows "clock_ok d \<and> clock_base d = clock_base c \<and> rc_wall_generation d = rc_wall_generation c
    \<and> mp_nanoseconds (rc_last c) \<le> mp_nanoseconds (rc_last d) \<and> rc_state c = Ready"
  using assms(1,2) unfolding d_def
proof (induction qs arbitrary: c)
  case (Cons q qs)
  let ?c = "snd (clock_read c q)"
  have IH: "clock_ok (fold (\<lambda>q c. snd (clock_read c q)) qs ?c)"
    "clock_base (fold (\<lambda>q c. snd (clock_read c q)) qs ?c) = clock_base ?c"
    "rc_wall_generation (fold (\<lambda>q c. snd (clock_read c q)) qs ?c) = rc_wall_generation ?c"
    "mp_nanoseconds (rc_last ?c) \<le> mp_nanoseconds (rc_last (fold (\<lambda>q c. snd (clock_read c q)) qs ?c))"
    "rc_state ?c = Ready"
    using Cons.IH [of ?c] Cons.prems clock_read_ok [OF Cons.prems(1), of q] by simp_all
  obtain s where s: "fst (clock_read c q) = Inr s"
    using IH(5) clock_read_Inl [of c q] by (cases "fst (clock_read c q)") auto
  then have eq: "clock_read c q = (Inr s, ?c)" by (simp add: prod_eq_iff)
  note r = clock_read_Inr [OF Cons.prems(1) eq]
  have "rc_state c = Ready" using s clock_read_not_ready [of c q] by (cases "rc_state c = Ready") auto
  moreover have "mp_nanoseconds (rc_last c) \<le> mp_nanoseconds (rc_last (fold (\<lambda>q c. snd (clock_read c q)) qs ?c))"
    using r(5) IH(4) unfolding r(3) by (rule order_trans)
  ultimately show ?case using IH(1,2,3) r(2,7) by (simp only: fold.simps comp_apply simp_thms)
qed simp

text \<open>
  C26: Whatever has happened to the clock before, two successful reads with only reads between
  them are exactly as far apart in wall time as their monotonic points, the second point is
  not earlier, and both carry the same wall generation: the clock never jumps or runs back
  except through an explicit setting.
\<close>

theorem clock_reads_follow_monotonic:
  assumes "clock_read (fold clock_exec xs clock_new) p = (Inr s, c)"
    and "clock_read (fold (\<lambda>q c. snd (clock_read c q)) qs c) q = (Inr s', c')"
  shows "total_ns (rs_value s') - total_ns (rs_value s) = int (unat (mp_nanoseconds q)) - int (unat (mp_nanoseconds p))
    \<and> mp_nanoseconds p \<le> mp_nanoseconds q \<and> rs_wall_generation s' = rs_wall_generation s"
proof -
  let ?d = "fold (\<lambda>q c. snd (clock_read c q)) qs c"
  have ok: "clock_ok (fold clock_exec xs clock_new)" by (rule clock_run_ok [OF clock_ok_new])
  note r = clock_read_Inr [OF ok assms(1)]
  have okc: "clock_ok c" using clock_read_ok [OF ok, of p] assms(1) by simp
  have "rc_state ?d = Ready" using assms(2) clock_read_not_ready [of ?d q] by (cases "rc_state ?d = Ready") auto
  note k = clock_reads_keep [OF okc this]
  note r' = clock_read_Inr [OF k [THEN conjunct1] assms(2)]
  show ?thesis using r r' k by (auto intro: order_trans)
qed

theorem clock_reads_follow_monotonic_witness:
  "let c0 = fold clock_exec [Reject_boot S_io_error, Set_clock \<lparr>et_seconds = 5, et_nanoseconds = 7\<rparr>
         \<lparr>mp_nanoseconds = 100, mp_generation = 1\<rparr> 1] clock_new;
       r1 = clock_read c0 \<lparr>mp_nanoseconds = 110, mp_generation = 1\<rparr>;
       r2 = clock_read (snd r1) \<lparr>mp_nanoseconds = 130, mp_generation = 1\<rparr>
   in case (fst r1, fst r2) of (Inr s, Inr s') \<Rightarrow> total_ns (rs_value s') - total_ns (rs_value s) = 20 | _ \<Rightarrow> False"
proof -
  let ?xs = "[Reject_boot S_io_error, Set_clock \<lparr>et_seconds = 5, et_nanoseconds = 7\<rparr>
         \<lparr>mp_nanoseconds = 100, mp_generation = 1\<rparr> 1]"
  let ?p = "\<lparr>mp_nanoseconds = 110, mp_generation = 1\<rparr>" and ?q = "\<lparr>mp_nanoseconds = 130, mp_generation = 1\<rparr>"
  let ?r1 = "clock_read (fold clock_exec ?xs clock_new) ?p"
  let ?r2 = "clock_read (snd ?r1) ?q"
  have "result_ok (fst ?r1)" "result_ok (fst ?r2)"
    by (simp_all add: clock_new_def reject_boot_def anchor_reject_def anchor_new_def clock_set_def
        next_wall_generation_def clock_read_def add_elapsed_def max_seconds_def nanoseconds_per_second_def Let_def)
  then obtain s s' where f: "fst ?r1 = Inr s" "fst ?r2 = Inr s'"
    by (metis result_ok_simps(1) sum.exhaust)
  then have s: "?r1 = (Inr s, snd ?r1)" "?r2 = (Inr s', snd ?r2)" by (simp_all only: prod_eq_iff fst_conv snd_conv)
  have "clock_read (fold (\<lambda>q c. snd (clock_read c q)) [] (snd ?r1)) ?q = (Inr s', snd ?r2)"
    using s(2) by (simp only: fold.simps id_apply)
  from clock_reads_follow_monotonic [OF s(1) this] have "total_ns (rs_value s') - total_ns (rs_value s) = 20" by simp
  then show ?thesis by (simp only: Let_def f prod.case sum.case)
qed

lemma invalidated_step: "clock_ok c \<Longrightarrow> rc_state c = Invalidated \<Longrightarrow> rc_state (clock_exec x c) = Invalidated"
  by (cases x) (simp_all add: clock_ok_def reject_boot_def initialize_boot_def invalidate_boot_def case_prod_beta
      clock_invalidate_def Let_def clock_set_def clock_read_def)

text \<open>
  C28: Once the active clock is invalidated, no later operation revives it: it stays
  invalidated, every read fails with an error, and every setting is refused.
\<close>

theorem clock_invalidated_forever:
  assumes "rc_state (fold clock_exec xs clock_new) = Invalidated" and c: "c = fold clock_exec (xs @ ys) clock_new"
  shows "rc_state c = Invalidated \<and> (\<exists>e. e \<noteq> S_ok \<and> fst (clock_read c p) = Inl e) \<and> fst (clock_set c t p n) \<noteq> S_ok"
proof -
  have keep: "clock_ok d \<Longrightarrow> rc_state d = Invalidated \<Longrightarrow>
      clock_ok (fold clock_exec ys d) \<and> rc_state (fold clock_exec ys d) = Invalidated" for d
    by (induction ys arbitrary: d) (simp_all add: clock_exec_ok invalidated_step)
  have "clock_ok c \<and> rc_state c = Invalidated"
    unfolding c fold_append comp_apply by (rule keep [OF clock_run_ok [OF clock_ok_new] assms(1)])
  then show ?thesis by (auto simp: clock_read_def clock_status_def clock_set_def clock_ok_def)
qed

theorem clock_invalidated_forever_witness:
  "let c = fold clock_exec [Reject_boot S_io_error, Set_clock \<lparr>et_seconds = 5, et_nanoseconds = 7\<rparr>
         \<lparr>mp_nanoseconds = 100, mp_generation = 1\<rparr> 1, Read_clock \<lparr>mp_nanoseconds = 90, mp_generation = 1\<rparr>] clock_new
   in rc_state c = Invalidated \<and> fst (clock_set c zero_time \<lparr>mp_nanoseconds = 200, mp_generation = 1\<rparr> 1) \<noteq> S_ok"
proof -
  let ?xs = "[Reject_boot S_io_error, Set_clock \<lparr>et_seconds = 5, et_nanoseconds = 7\<rparr>
         \<lparr>mp_nanoseconds = 100, mp_generation = 1\<rparr> 1, Read_clock \<lparr>mp_nanoseconds = 90, mp_generation = 1\<rparr>]"
  have "rc_state (fold clock_exec ?xs clock_new) = Invalidated"
    by (simp add: clock_new_def reject_boot_def anchor_reject_def anchor_new_def clock_set_def
        next_wall_generation_def clock_read_def clock_invalidate_def nanoseconds_per_second_def Let_def)
  from clock_invalidated_forever [OF this, where ys = "[]", simplified, OF refl] show ?thesis by (simp add: Let_def)
qed

section \<open>RTC decoding\<close>

text \<open>A register file that does not change while it is read, as a stable device presents itself.\<close>

definition still :: "(u32 \<Rightarrow> u32) \<Rightarrow> 'b bus" where
  "still regs a b = (regs a, b)"

text \<open>The calendar register of the LS7A for a time, with low in the sub-second bits.\<close>

definition toy_register :: "calendar \<Rightarrow> nat \<Rightarrow> nat" where
  "toy_register c low = ((((cal_month c * 32 + cal_day c) * 32 + cal_hour c) * 64 + cal_minute c) * 64 + cal_second c) * 16 + low"

lemma digit: "d < b \<Longrightarrow> (q * b + d) div b = (q::nat)" "d < b \<Longrightarrow> (q * b + d) mod b = d"
  by (simp_all add: div_mult_self3)

lemma and_mask_unat: "unat ((w::u32) AND 31) = unat w mod 32" "unat (w AND 63) = unat w mod 64"
proof -
  have "unat (w AND mask n) = unat w mod 2 ^ n" for n
    unfolding take_bit_eq_mask [symmetric] unsigned_take_bit_eq by (rule take_bit_eq_mod)
  from this [of 5] this [of 6] show "unat (w AND 31) = unat w mod 32" "unat (w AND 63) = unat w mod 64"
    by (simp_all add: mask_eq_exp_minus_1)
qed

lemma unat_drop_bit: "unat (drop_bit n (w::u32)) = unat w div 2 ^ n"
  unfolding unat_drop_bit_eq by (rule drop_bit_eq_div)

lemma calendar_epoch_fields:
  assumes "calendar_epoch c = Inr t"
  shows "1 \<le> cal_month c" "cal_month c \<le> 12" "cal_day c \<le> 31" "cal_hour c < 24" "cal_minute c < 60" "cal_second c < 60"
proof -
  have f: "1 \<le> cal_month c \<and> cal_month c \<le> 12 \<and> cal_hour c < 24 \<and> cal_minute c < 60 \<and> cal_second c < 60
      \<and> cal_day c \<le> month_days (cal_year c) (cal_month c)"
    using assms by (auto simp: calendar_epoch_def Let_def split: if_splits)
  moreover have "month_days (cal_year c) (cal_month c) \<le> 31" if "1 \<le> cal_month c" "cal_month c \<le> 12"
  proof -
    have "month_lengths ! (cal_month c - 1) \<in> set month_lengths"
      using that by (intro nth_mem) (simp add: month_lengths_def)
    then have "month_lengths ! (cal_month c - 1) \<le> 31" by (auto simp: month_lengths_def)
    moreover have "month_lengths ! 1 = 28" by (simp add: month_lengths_def)
    ultimately show ?thesis by (cases "cal_month c = 2") (simp_all add: month_days_def)
  qed
  ultimately show "1 \<le> cal_month c" "cal_month c \<le> 12" "cal_day c \<le> 31" "cal_hour c < 24" "cal_minute c < 60"
    "cal_second c < 60" by auto
qed

lemma toy_register_decodes:
  assumes c: "calendar_epoch c = Inr t" and y: "1900 \<le> cal_year c" "cal_year c \<le> 9999" and low: "low < 16"
  shows "ls7a_calendar (of_nat (cal_year c - 1900)) (of_nat (toy_register c low) AND NOT 15) = c"
proof -
  note f = calendar_epoch_fields [OF c]
  let ?x = "toy_register c 0"
  have r: "toy_register c low = ?x + low" "16 dvd ?x" by (simp_all add: toy_register_def)
  then have m: "toy_register c low - toy_register c low mod 16 = ?x"
    using low digit(2) [of low 16 "?x div 16"] by simp
  have "toy_register c low < 2 ^ 32" using f low by (simp add: toy_register_def)
  then have u: "unat (of_nat (toy_register c low) AND NOT (mask 4) :: u32) = ?x"
    using m by (simp add: unat_and_not_mask unat_of_nat)
  have d4: "?x div 16 = (((cal_month c * 32 + cal_day c) * 32 + cal_hour c) * 64 + cal_minute c) * 64 + cal_second c"
    by (simp add: toy_register_def)
  have d10: "?x div 1024 = ((cal_month c * 32 + cal_day c) * 32 + cal_hour c) * 64 + cal_minute c"
    using div_mult2_eq [of ?x 16 64] d4 f digit(1) [of "cal_second c" 64] by simp
  have d16: "?x div 65536 = (cal_month c * 32 + cal_day c) * 32 + cal_hour c"
    using div_mult2_eq [of ?x 1024 64] d10 f digit(1) [of "cal_minute c" 64] by simp
  have d21: "?x div 2097152 = cal_month c * 32 + cal_day c"
    using div_mult2_eq [of ?x 65536 32] d16 f digit(1) [of "cal_hour c" 32] by simp
  have d26: "?x div 67108864 = cal_month c"
    using div_mult2_eq [of ?x 2097152 32] d21 f digit(1) [of "cal_day c" 32] by simp
  have year: "unat (of_nat (cal_year c - 1900) + 1900 :: u32) = cal_year c"
  proof -
    have "of_nat (cal_year c - 1900) + 1900 = (of_nat (cal_year c - 1900 + 1900) :: u32)" by simp
    then show ?thesis using y by (simp add: unat_of_nat)
  qed
  have "?x div 16 mod 64 = cal_second c" "?x div 1024 mod 64 = cal_minute c" "?x div 65536 mod 32 = cal_hour c"
    "?x div 2097152 mod 32 = cal_day c" unfolding d4 d10 d16 d21 using f by (simp_all only: digit(2))
  moreover have "unat (of_nat (toy_register c low) AND NOT 15 :: u32) = ?x" using u by (simp add: mask_eq_exp_minus_1)
  moreover have "(2::nat) ^ 4 = 16" "(2::nat) ^ 10 = 1024" "(2::nat) ^ 16 = 65536" "(2::nat) ^ 21 = 2097152"
    "(2::nat) ^ 26 = 67108864" by simp_all
  moreover have "\<lparr>cal_year = cal_year c, cal_month = cal_month c, cal_day = cal_day c, cal_hour = cal_hour c,
    cal_minute = cal_minute c, cal_second = cal_second c\<rparr> = c" by simp
  ultimately show ?thesis
    unfolding ls7a_calendar_def unat_drop_bit and_mask_unat by (simp only: d26 year)
qed

text \<open>
  C29: The LS7A reader inverts the register encoding: when the oscillator is enabled and the
  registers hold still, reading the year and calendar registers written for a valid date
  from 1900 on gives exactly that date's epoch, whatever the sub-second bits are.
\<close>

theorem ls7a_read_roundtrip:
  assumes "calendar_epoch c = Inr t" and "1900 \<le> cal_year c" and "low < 16"
    and "regs 0x30 = of_nat (cal_year c - 1900)" and "regs 0x2c = of_nat (toy_register c low)"
    and "regs 0x40 AND ls7a_enabled = ls7a_enabled"
  shows "read_ls7a (still regs) b = (Inr \<lparr>er_time = t, er_source = Es_ls7a, er_resolution_ns = 1000000000\<rparr>, b)"
proof -
  have y: "cal_year c \<le> 9999" using assms(1) by (auto simp: calendar_epoch_def split: if_splits)
  have "\<not> (8099::u32) < of_nat (cal_year c - 1900)"
    using y by (simp add: word_less_nat_alt unat_of_nat)
  moreover note toy_register_decodes [OF assms(1,2) y assms(3)]
  ultimately have "ls7a_attempts (still regs) (Suc n) b = (Inr \<lparr>er_time = t, er_source = Es_ls7a, er_resolution_ns = 1000000000\<rparr>, b)" for n
    using assms(1,6) unfolding ls7a_attempts.simps(2)
    by (simp only: still_def assms(4,5) prod.case Let_def) (simp add: nanoseconds_per_second_def)
  from this [of 63] show ?thesis using assms(6) by (simp add: read_ls7a_def still_def)
qed

theorem ls7a_read_roundtrip_witness:
  "read_ls7a (still (\<lambda>a. if a = 0x30 then 100 else if a = 0x2c then of_nat (3 * 2 ^ 26 + 7 * 2 ^ 21 + 9) else - 1)) () =
     (Inr \<lparr>er_time = \<lparr>et_seconds = 952387200, et_nanoseconds = 0\<rparr>, er_source = Es_ls7a, er_resolution_ns = 1000000000\<rparr>, ())"
  by (rule ls7a_read_roundtrip [where low = 9 and
        c = "\<lparr>cal_year = 2000, cal_month = 3, cal_day = 7, cal_hour = 0, cal_minute = 0, cal_second = 0\<rparr>"])
    (simp_all add: calendar_epoch_def month_days_def month_lengths_def leap_year_def toy_register_def upt_rec)

end
