(* ===== verification/OK_Timer.thy ===== *)
theory OK_Timer
  imports OK_Epoch
begin

text \<open>
  Timers and measuring clocks: the interval timer of \<^verbatim>\<open>time/interval_timer.hpp\<close>, the latency
  histogram of \<^verbatim>\<open>time/latency_histogram.hpp\<close>, the calibrated clock of \<^verbatim>\<open>time/clocksource.hpp\<close>
  and the public clock of \<^verbatim>\<open>time/public_clock.hpp\<close>.
\<close>

unbundle bit_operations_syntax

section \<open>Interval timer\<close>

definition timer_horizon :: u64 where
  "timer_horizon = 0x7fffffffffffffff"

definition timer_overrun_limit :: int where
  "timer_overrun_limit = 0x7fffffff"

record timer_setting =
  ts_value :: u64
  ts_interval :: u64

datatype timer_state = Disarmed | Armed | Signalled

record interval_timer =
  it_expiry :: u64
  it_interval :: u64
  it_previewed :: u64
  it_overrun :: int
  it_overrun_last :: int
  it_state :: timer_state
  it_quiet :: bool

definition timer_reset :: "bool \<Rightarrow> interval_timer" where
  "timer_reset quiet = \<lparr>it_expiry = 0, it_interval = 0, it_previewed = 0, it_overrun = - 1, it_overrun_last = 0,
     it_state = Disarmed, it_quiet = quiet\<rparr>"

definition timer_saturate :: "u64 \<Rightarrow> u64 \<Rightarrow> u64" where
  "timer_saturate base delta =
     (if base \<ge> timer_horizon \<or> delta > timer_horizon - base then timer_horizon else base + delta)"

text \<open>The headroom and the sum are taken in unsigned 64-bit arithmetic, as the casts of the code do.\<close>

definition overrun_add :: "int \<Rightarrow> u64 \<Rightarrow> int" where
  "overrun_add overrun skipped =
     (let maximum = 0x7fffffffffffffff; headroom = word_of_int maximum - (word_of_int overrun :: u64)
      in if skipped > headroom then maximum else sint (word_of_int overrun + skipped))"

definition overrun_clamp :: "int \<Rightarrow> int" where
  "overrun_clamp overrun = (if overrun > timer_overrun_limit then timer_overrun_limit else if overrun < 0 then 0 else overrun)"

definition timer_set :: "interval_timer \<Rightarrow> u64 \<Rightarrow> timer_setting \<Rightarrow> bool \<Rightarrow> interval_timer" where
  "timer_set t now nxt absolute =
     (let t1 = t\<lparr>it_overrun := - 1, it_overrun_last := 0\<rparr> in
      if ts_value nxt = 0 then t1\<lparr>it_state := Disarmed, it_interval := 0\<rparr>
      else t1\<lparr>it_interval := (if ts_interval nxt > timer_horizon then timer_horizon else ts_interval nxt),
              it_expiry := (if absolute then (if ts_value nxt > timer_horizon then timer_horizon else ts_value nxt)
                            else timer_saturate now (ts_value nxt)),
              it_state := Armed\<rparr>)"

definition timer_forward :: "interval_timer \<Rightarrow> u64 \<Rightarrow> u64 \<times> interval_timer" where
  "timer_forward t now =
     (if it_interval t = 0 \<or> now < it_expiry t then (0, t)
      else (let skipped = (now - it_expiry t) div it_interval t + 1;
                delta = (if skipped > timer_horizon div it_interval t then timer_horizon else skipped * it_interval t)
            in (skipped, t\<lparr>it_expiry := timer_saturate (it_expiry t) delta\<rparr>)))"

definition timer_count :: "u64 \<times> interval_timer \<Rightarrow> interval_timer" where
  "timer_count r = (case r of (skipped, t) \<Rightarrow> t\<lparr>it_overrun := overrun_add (it_overrun t) skipped\<rparr>)"

definition timer_get :: "interval_timer \<Rightarrow> u64 \<Rightarrow> timer_setting \<times> interval_timer" where
  "timer_get t now =
     (if it_state t = Disarmed then (\<lparr>ts_value = 0, ts_interval = 0\<rparr>, t)
      else (let t1 = (if it_interval t \<noteq> 0 \<and> (it_state t = Signalled \<or> it_quiet t)
                      then timer_count (timer_forward t now) else t)
            in (\<lparr>ts_value = (if it_expiry t1 > now then it_expiry t1 - now else if \<not> it_quiet t1 then 1 else 0),
                 ts_interval = it_interval t\<rparr>, t1)))"

definition timer_itimer :: "interval_timer \<Rightarrow> u64 \<Rightarrow> timer_setting" where
  "timer_itimer t now =
     (if it_state t \<noteq> Armed then \<lparr>ts_value = 0, ts_interval = it_interval t\<rparr>
      else \<lparr>ts_value = (if it_expiry t > now then it_expiry t - now else 1000), ts_interval = it_interval t\<rparr>)"

definition timer_expire :: "interval_timer \<Rightarrow> u64 \<Rightarrow> bool \<times> interval_timer" where
  "timer_expire t now =
     (if it_quiet t \<or> it_state t \<noteq> Armed \<or> now < it_expiry t then (False, t)
      else (True, t\<lparr>it_state := (if it_interval t \<noteq> 0 then Signalled else Disarmed), it_previewed := now\<rparr>))"

definition timer_preview :: "interval_timer \<Rightarrow> u64 \<Rightarrow> int \<times> interval_timer" where
  "timer_preview t now =
     (let t1 = t\<lparr>it_previewed := now\<rparr> in
      if it_state t \<noteq> Signalled then (0, t1)
      else (let skipped = (if now < it_expiry t then 0 else (now - it_expiry t) div it_interval t + 1)
            in (overrun_clamp (overrun_add (it_overrun t) skipped), t1)))"

definition timer_dequeued :: "interval_timer \<Rightarrow> interval_timer" where
  "timer_dequeued t =
     (if it_state t \<noteq> Signalled then t
      else (let t1 = timer_count (timer_forward t (it_previewed t))
            in t1\<lparr>it_overrun_last := it_overrun t1, it_overrun := - 1, it_state := Armed\<rparr>))"

definition timer_abandon :: "interval_timer \<Rightarrow> interval_timer" where
  "timer_abandon t = t\<lparr>it_state := Disarmed\<rparr>"

definition timer_overrun :: "interval_timer \<Rightarrow> int" where
  "timer_overrun t = overrun_clamp (it_overrun_last t)"

section \<open>Latency histogram\<close>

definition ticks_to_nanoseconds :: "u64 \<Rightarrow> u64 \<Rightarrow> u64" where
  "ticks_to_nanoseconds ticks frequency =
     (let second = 1000000000; maximum = - 1 in
      if frequency = 0 then 0
      else (let seconds = ticks div frequency; fraction = ticks mod frequency in
        if seconds > maximum div second then maximum
        else (let part = (if frequency \<le> maximum div second then fraction * second div frequency
                          else fraction div (frequency div second))
              in if seconds * second > maximum - part then maximum else seconds * second + part)))"

definition sub_buckets :: nat where
  "sub_buckets = 8"

definition maximum_exponent :: nat where
  "maximum_exponent = 31"

definition bucket_count :: nat where
  "bucket_count = sub_buckets + (maximum_exponent - 2) * sub_buckets"

record latency_histogram =
  lh_buckets :: "u32 list"
  lh_count :: u64
  lh_minimum :: u64
  lh_maximum :: u64
  lh_total :: u64

definition lh_new :: latency_histogram where
  "lh_new = \<lparr>lh_buckets = replicate bucket_count 0, lh_count = 0, lh_minimum = 0, lh_maximum = 0, lh_total = 0\<rparr>"

text \<open>The search starts at 31 and only runs for a nonzero value, so it stops at or above bit 0.\<close>

fun top_exponent :: "u32 \<Rightarrow> nat \<Rightarrow> nat" where
  "top_exponent v e = (if drop_bit e v = 0 \<and> e > 0 then top_exponent v (e - 1) else e)"

definition bucket_index :: "u64 \<Rightarrow> nat" where
  "bucket_index ns =
     (if ns < of_nat sub_buckets then unat ns
      else if ns > 0xffffffff then bucket_count - 1
      else (let v = (ucast ns :: u32); exponent = top_exponent v 31;
                mantissa = unat (drop_bit (exponent - 3) v AND (of_nat sub_buckets - 1))
            in sub_buckets + (exponent - 3) * sub_buckets + mantissa))"

text \<open>The shift is taken in 32 bits, as the unsigned int operands of the code have.\<close>

definition upper_bound :: "nat \<Rightarrow> u64" where
  "upper_bound b =
     (if b < sub_buckets then of_nat b
      else if b \<ge> bucket_count - 1 then - 1
      else (let exponent = (b - sub_buckets) div sub_buckets + 3; mantissa = (b - sub_buckets) mod sub_buckets
            in ucast (push_bit (exponent - 3) (of_nat (sub_buckets + mantissa + 1)) - 1 :: u32)))"

definition lh_record :: "latency_histogram \<Rightarrow> u64 \<Rightarrow> latency_histogram" where
  "lh_record h ns =
     (let i = bucket_index ns in
      h\<lparr>lh_buckets := (lh_buckets h)[i := lh_buckets h ! i + 1],
        lh_minimum := (if lh_count h = 0 \<or> ns < lh_minimum h then ns else lh_minimum h),
        lh_maximum := (if ns > lh_maximum h then ns else lh_maximum h),
        lh_total := (if ns > - 1 - lh_total h then - 1 else lh_total h + ns),
        lh_count := lh_count h + 1\<rparr>)"

definition lh_mean :: "latency_histogram \<Rightarrow> u64" where
  "lh_mean h = (if lh_count h \<noteq> 0 then lh_total h div lh_count h else 0)"

fun percentile_scan :: "latency_histogram \<Rightarrow> u64 \<Rightarrow> nat \<Rightarrow> u64 \<Rightarrow> u32 list \<Rightarrow> u64" where
  "percentile_scan h rank b seen [] = lh_maximum h"
| "percentile_scan h rank b seen (x # xs) =
     (let seen' = seen + ucast x in
      if seen' \<noteq> 0 \<and> seen' \<ge> rank
      then (let bound = upper_bound b
            in if bound < lh_minimum h then lh_minimum h else if bound > lh_maximum h then lh_maximum h else bound)
      else percentile_scan h rank (Suc b) seen' xs)"

definition lh_percentile :: "latency_histogram \<Rightarrow> u32 \<Rightarrow> u64" where
  "lh_percentile h per_mille =
     (if lh_count h = 0 then 0
      else percentile_scan h ((lh_count h * ucast per_mille + 999) div 1000) 0 0 (lh_buckets h))"

section \<open>Calibrated clock\<close>

text \<open>The counter backend is read through a counter value and a frequency.\<close>

record clock_source =
  cs_frequency :: u64
  cs_counter :: u64

definition cs_advance :: "clock_source \<Rightarrow> u64 \<Rightarrow> clock_source" where
  "cs_advance s ticks = s\<lparr>cs_counter := cs_counter s + ticks\<rparr>"

record calibrated_clock =
  cc_origin :: u64
  cc_initialized :: bool

definition cc_initialize :: "clock_source \<Rightarrow> calibrated_clock \<Rightarrow> status_code \<times> calibrated_clock" where
  "cc_initialize s c =
     (if cs_frequency s = 0 then (S_invalid_argument, c)
      else (S_ok, c\<lparr>cc_origin := cs_counter s, cc_initialized := True\<rparr>))"

definition monotonic_ns :: "clock_source \<Rightarrow> calibrated_clock \<Rightarrow> u64 result" where
  "monotonic_ns s c =
     (if \<not> cc_initialized c then Inl S_not_initialized
      else (let ticks = cs_counter s - cc_origin c; hz = cs_frequency s;
                seconds = ticks div hz; remainder = ticks mod hz
            in if seconds > - 1 div of_nat nanoseconds_per_second then Inl S_overflow
               else (let whole = seconds * of_nat nanoseconds_per_second in
                 if hz > - 1 div of_nat nanoseconds_per_second then Inl S_unsupported
                 else Inr (whole + remainder * of_nat nanoseconds_per_second div hz))))"

definition deadline_ticks :: "clock_source \<Rightarrow> calibrated_clock \<Rightarrow> u64 \<Rightarrow> u64 result" where
  "deadline_ticks s c relative =
     (if \<not> cc_initialized c then Inl S_not_initialized
      else (let hz = cs_frequency s; seconds = relative div of_nat nanoseconds_per_second;
                rem = relative mod of_nat nanoseconds_per_second
            in if hz \<noteq> 0 \<and> seconds > - 1 div hz then Inl S_overflow
               else (let ticks = seconds * hz + rem * hz div of_nat nanoseconds_per_second
                     in Inr (cs_counter s + ticks))))"

section \<open>Public clock\<close>

text \<open>The architecture's clocks are parameters: the realtime and monotonic readings and the resolution.\<close>

definition split_seconds :: "u64 \<Rightarrow> epoch_time" where
  "split_seconds ns = \<lparr>et_seconds = sint (ns div of_nat nanoseconds_per_second),
     et_nanoseconds = unat (ns mod of_nat nanoseconds_per_second)\<rparr>"

definition public_clock :: "epoch_time result \<Rightarrow> u64 result \<Rightarrow> u64 \<Rightarrow> u32 \<Rightarrow> bool \<Rightarrow> epoch_time result" where
  "public_clock realtime monotonic step identity resolution =
     (if identity > 1 then Inl S_invalid_argument
      else (let reading = (if identity = 0 then (case realtime of Inl e \<Rightarrow> Inl S_io_error | Inr t \<Rightarrow> Inr t)
                           else (case monotonic of Inl e \<Rightarrow> Inl S_io_error | Inr ns \<Rightarrow> Inr (split_seconds ns)))
            in case reading of Inl e \<Rightarrow> Inl e
               | Inr t \<Rightarrow> (if resolution then (if step = 0 then Inl S_io_error else Inr (split_seconds step)) else Inr t)))"

definition native_time_seconds :: "nat \<Rightarrow> epoch_time \<Rightarrow> int result" where
  "native_time_seconds word_bytes t =
     (if word_bytes = 4 \<and> (et_seconds t < - 2147483648 \<or> et_seconds t > 2147483647) then Inl S_overflow
      else if et_seconds t < 0 \<and> et_seconds t \<ge> - 4095 then Inl S_overflow
      else Inr (et_seconds t))"

end
