(* ===== verification/OK_Timer_Proofs.thy ===== *)
theory OK_Timer_Proofs
  imports OK_Timer
begin

text \<open>
  Correctness of the timers and measuring clocks: rearming of the interval timer, the bucket
  bounds and percentiles of the histogram, and the tick conversions.
\<close>

unbundle bit_operations_syntax

section \<open>Interval timer\<close>

lemma unat_horizon: "unat timer_horizon = 2 ^ 63 - 1"
  by (simp add: timer_horizon_def)

lemma overrun_add_eq:
  assumes "- 1 \<le> o'" and "o' \<le> 2 ^ 63 - 1"
  shows "overrun_add o' k = min (2 ^ 63 - 1) (o' + int (unat k))"
proof -
  let ?h = "word_of_int (2 ^ 63 - 1) - word_of_int o' :: u64"
  have "?h = word_of_int (2 ^ 63 - 1 - o')" by simp
  then have "uint ?h = take_bit 64 (2 ^ 63 - 1 - o')" by (simp only: uint_word_of_int_eq len64)
  also have "\<dots> = 2 ^ 63 - 1 - o'" using assms by (intro take_bit_int_eq_self) simp_all
  finally have h: "?h < k \<longleftrightarrow> 2 ^ 63 - 1 < o' + int (unat k)" by (simp add: word_less_def) linarith
  have s: "sint (word_of_int o' + k) = o' + int (unat k)" if "o' + int (unat k) \<le> 2 ^ 63 - 1"
  proof -
    have "word_of_int o' + k = word_of_int (o' + int (unat k))" by simp
    then have "sint (word_of_int o' + k) = signed_take_bit 63 (o' + int (unat k))"
      using sint_sbintrunc' [of "o' + int (unat k)", where 'a = 64] by (simp only: len64) simp
    also have "\<dots> = o' + int (unat k)"
    proof -
      have "0 \<le> int (unat k)" "- (2 ^ 63) \<le> (- 1 :: int)" by simp_all
      then have "- (2 ^ 63) \<le> o' + int (unat k)" "o' + int (unat k) < 2 ^ 63"
        using assms(1) that by linarith+
      then show ?thesis by (rule signed_take_bit_int_eq_self)
    qed
    finally show ?thesis .
  qed
  have "overrun_add o' k = (if ?h < k then 2 ^ 63 - 1 else sint (word_of_int o' + k))"
    by (simp add: overrun_add_def Let_def)
  then show ?thesis using h s by (auto simp: min_def)
qed

lemma timer_saturate_eq:
  assumes "base \<le> timer_horizon"
  shows "unat (timer_saturate base delta) = min (2 ^ 63 - 1) (unat base + unat delta)"
proof -
  have b: "unat base \<le> 2 ^ 63 - 1" using assms by (simp add: word_le_nat_alt unat_horizon)
  have d: "unat (timer_horizon - base) = 2 ^ 63 - 1 - unat base"
    using assms by (simp add: unat_sub unat_horizon)
  show ?thesis
  proof (cases "base \<ge> timer_horizon \<or> delta > timer_horizon - base")
    case True
    then have "2 ^ 63 - 1 \<le> unat base + unat delta" using b d by (auto simp: word_le_nat_alt word_less_nat_alt unat_horizon)
    then show ?thesis using True by (simp add: timer_saturate_def unat_horizon)
  next
    case False
    then have le: "unat base + unat delta \<le> 2 ^ 63 - 1" using b d by (auto simp: word_le_nat_alt word_less_nat_alt)
    then have "unat (base + delta) = unat base + unat delta" by (intro unat_add_headroom) simp
    then show ?thesis using False le by (simp add: timer_saturate_def)
  qed
qed

text \<open>The intervals an expiry at \<open>e\<close> has missed at \<open>now\<close>: the least number that moves it past \<open>now\<close>.\<close>

definition missed :: "nat \<Rightarrow> nat \<Rightarrow> nat \<Rightarrow> nat" where
  "missed e i now = (if now < e then 0 else (now - e) div i + 1)"

lemma missed_least:
  assumes "0 < i"
  shows "now < e + missed e i now * i" and "m < missed e i now \<Longrightarrow> e + m * i \<le> now"
proof -
  have "now - e < ((now - e) div i + 1) * i" using assms dividend_less_div_times by simp
  then show "now < e + missed e i now * i" by (auto simp: missed_def)
  show "e + m * i \<le> now" if "m < missed e i now"
  proof -
    from that have "e \<le> now" "m \<le> (now - e) div i" by (auto simp: missed_def split: if_splits)
    then have "m * i \<le> (now - e) div i * i" by (intro mult_le_mono1)
    also have "\<dots> \<le> now - e" by simp
    finally show ?thesis using \<open>e \<le> now\<close> by simp
  qed
qed

lemma timer_forward_eq:
  assumes "it_expiry t \<le> timer_horizon" "it_interval t \<noteq> 0" "now \<le> timer_horizon"
  defines "n \<equiv> missed (unat (it_expiry t)) (unat (it_interval t)) (unat now)"
  shows "timer_forward t now = (of_nat n, t\<lparr>it_expiry :=
    of_nat (min (2 ^ 63 - 1) (unat (it_expiry t) + n * unat (it_interval t)))\<rparr>) \<and> n < 2 ^ 64"
proof (cases "now < it_expiry t")
  case True
  have "unat (it_expiry t) \<le> 2 ^ 63 - 1" using assms(1) by (simp add: word_le_nat_alt unat_horizon)
  then show ?thesis using True by (simp add: timer_forward_def n_def missed_def word_less_nat_alt min_absorb2)
next
  case False
  let ?e = "unat (it_expiry t)" and ?i = "unat (it_interval t)" and ?k = "(now - it_expiry t) div it_interval t"
  have i: "0 < ?i" using assms(2) by (simp add: unat_gt_0)
  have b: "?e \<le> unat now" "unat now \<le> 2 ^ 63 - 1"
    using False assms(3) by (simp_all add: word_le_nat_alt word_less_nat_alt unat_horizon)
  have n: "n = (unat now - ?e) div ?i + 1" using b by (simp add: n_def missed_def)
  have "unat ?k = (unat now - ?e) div ?i" using False by (simp add: unat_div_distrib unat_sub)
  moreover have "(unat now - ?e) div ?i \<le> 2 ^ 63 - 1" using b by (meson diff_le_self div_le_dividend le_trans)
  ultimately have k: "unat (?k + 1) = n" and nb: "n \<le> 2 ^ 63" using n by (simp_all add: unat_add_headroom)
  then have kn: "?k + 1 = of_nat n" by (simp add: unat_eqD)
  let ?d = "if ?k + 1 > timer_horizon div it_interval t then timer_horizon else (?k + 1) * it_interval t"
  have "unat ?d = (if n > (2 ^ 63 - 1) div ?i then 2 ^ 63 - 1 else n * ?i)"
  proof -
    have "n * ?i < 2 ^ 64" if "\<not> n > (2 ^ 63 - 1) div ?i"
    proof -
      from that have "n * ?i \<le> (2 ^ 63 - 1) div ?i * ?i" by (intro mult_le_mono1) simp
      also have "\<dots> \<le> 2 ^ 63 - 1" by (rule div_times_less_eq_dividend)
      finally show ?thesis by simp
    qed
    then show ?thesis using k by (simp add: word_less_nat_alt unat_div_distrib unat_horizon unat_mult_small)
  qed
  moreover have "2 ^ 63 - 1 < n * ?i" if "n > (2 ^ 63 - 1) div ?i"
    using that i by (simp add: div_less_iff_less_mult)
  ultimately have d: "min (2 ^ 63 - 1) (?e + unat ?d) = min (2 ^ 63 - 1) (?e + n * ?i)" by (auto simp: min_def)
  have "timer_saturate (it_expiry t) ?d = of_nat (min (2 ^ 63 - 1) (?e + n * ?i))"
    by (rule unat_eqD) (simp only: timer_saturate_eq [OF assms(1)] d)
  then show ?thesis using False assms(2) nb by (simp only: timer_forward_def Let_def) (simp add: kn)
qed

datatype timer_op =
    Timer_set u64 timer_setting bool
  | Timer_get u64
  | Timer_expire u64
  | Timer_preview u64
  | Timer_dequeued
  | Timer_abandon

primrec timer_exec :: "timer_op \<Rightarrow> interval_timer \<Rightarrow> interval_timer" where
  "timer_exec (Timer_set now s absolute) t = timer_set t now s absolute"
| "timer_exec (Timer_get now) t = snd (timer_get t now)"
| "timer_exec (Timer_expire now) t = snd (timer_expire t now)"
| "timer_exec (Timer_preview now) t = snd (timer_preview t now)"
| "timer_exec Timer_dequeued t = timer_dequeued t"
| "timer_exec Timer_abandon t = timer_abandon t"

definition timer_ok :: "interval_timer \<Rightarrow> bool" where
  "timer_ok t \<longleftrightarrow> it_expiry t \<le> timer_horizon \<and> (it_state t = Signalled \<longrightarrow> it_interval t \<noteq> 0)
     \<and> - 1 \<le> it_overrun t \<and> it_overrun t \<le> 2 ^ 63 - 1"

lemma timer_saturate_le: "base \<le> timer_horizon \<Longrightarrow> timer_saturate base delta \<le> timer_horizon"
  by (simp add: word_le_nat_alt timer_saturate_eq unat_horizon)

lemma timer_saturate_any_le: "timer_saturate base delta \<le> timer_horizon"
  by (cases rule: linorder_le_cases [of base timer_horizon]) (erule timer_saturate_le, simp add: timer_saturate_def)

lemma timer_forward_fields [simp]:
  "it_interval (snd (timer_forward t now)) = it_interval t" "it_overrun (snd (timer_forward t now)) = it_overrun t"
  "it_state (snd (timer_forward t now)) = it_state t" "it_quiet (snd (timer_forward t now)) = it_quiet t"
  by (simp_all add: timer_forward_def Let_def)

lemma timer_count_ok: "timer_ok t \<Longrightarrow> timer_ok (timer_count (timer_forward t now))"
proof -
  assume t: "timer_ok t"
  have e: "it_expiry (snd (timer_forward t now)) \<le> timer_horizon"
    using t by (simp add: timer_forward_def Let_def timer_saturate_any_le timer_ok_def)
  have o: "- 1 \<le> it_overrun t" "it_overrun t \<le> 2 ^ 63 - 1" using t by (simp_all add: timer_ok_def)
  have "- 1 \<le> overrun_add (it_overrun t) k" "overrun_add (it_overrun t) k \<le> 2 ^ 63 - 1" for k
    unfolding overrun_add_eq [OF o] using o by linarith+
  then show ?thesis using t e by (simp add: timer_count_def case_prod_beta timer_ok_def)
qed

lemma timer_exec_ok: "timer_ok t \<Longrightarrow> timer_ok (timer_exec x t)"
proof (cases x)
  case (Timer_get now)
  assume t: "timer_ok t"
  show ?thesis using timer_count_ok [OF t, of now] t Timer_get by (simp add: timer_get_def Let_def)
next
  case Timer_dequeued
  assume t: "timer_ok t"
  show ?thesis using timer_count_ok [OF t, of "it_previewed t"] t Timer_dequeued
    by (auto simp: timer_dequeued_def Let_def timer_ok_def)
qed (auto simp: timer_ok_def timer_set_def Let_def timer_expire_def timer_preview_def timer_abandon_def timer_saturate_any_le)

lemma timer_run_ok: "timer_ok (fold timer_exec xs (timer_reset quiet))"
proof -
  have "timer_ok t \<Longrightarrow> timer_ok (fold timer_exec xs t)" for t by (induction xs arbitrary: t) (simp_all add: timer_exec_ok)
  then show ?thesis by (simp add: timer_ok_def timer_reset_def)
qed

text \<open>
  C22: Delivery of a timer signal, after any sequence of timer operations: dequeuing a signal
  previewed at a time not past the horizon of 2^63 - 1 rearms the timer on its own grid, at the
  first expiry strictly after that time, or at the horizon if that expiry lies beyond it; the
  missed expiries, no more and no fewer, are added to the overrun, and the overrun then reported
  is that sum clamped to 0 to 2^31 - 1, as the preview announced.
\<close>

theorem timer_dequeue_rearms:
  assumes "t = snd (timer_preview (fold timer_exec xs (timer_reset quiet)) now)" and "it_state t = Signalled"
    and "now \<le> timer_horizon"
  defines "n \<equiv> missed (unat (it_expiry t)) (unat (it_interval t)) (unat now)"
  shows "it_state (timer_dequeued t) = Armed
    \<and> unat (it_expiry (timer_dequeued t)) = min (2 ^ 63 - 1) (unat (it_expiry t) + n * unat (it_interval t))
    \<and> unat now < unat (it_expiry t) + n * unat (it_interval t)
    \<and> (\<forall>m < n. unat (it_expiry t) + m * unat (it_interval t) \<le> unat now)
    \<and> timer_overrun (timer_dequeued t) = overrun_clamp (it_overrun t + int n)
    \<and> timer_overrun (timer_dequeued t) = fst (timer_preview t now)"
proof -
  let ?t = "fold timer_exec xs (timer_reset quiet)"
  have ok: "timer_ok t" using timer_exec_ok [OF timer_run_ok, of "Timer_preview now" xs quiet] assms(1) by simp
  have prev: "it_previewed t = now" by (simp add: assms(1) timer_preview_def Let_def)
  have i: "it_interval t \<noteq> 0" "it_expiry t \<le> timer_horizon" using ok assms(2) by (simp_all add: timer_ok_def)
  have f: "timer_forward t now = (of_nat n, t\<lparr>it_expiry :=
      of_nat (min (2 ^ 63 - 1) (unat (it_expiry t) + n * unat (it_interval t)))\<rparr>)" and nb: "n < 2 ^ 64"
    using timer_forward_eq [OF i(2,1) assms(3)] by (simp_all add: n_def)
  have un: "unat (of_nat n :: u64) = n" using nb by (simp add: unat_of_nat_small)
  have o: "overrun_add (it_overrun t) (of_nat n) = min (2 ^ 63 - 1) (it_overrun t + int n)"
    using ok overrun_add_eq [of "it_overrun t" "of_nat n"] by (simp only: timer_ok_def un)
  have c: "overrun_clamp (min (2 ^ 63 - 1) x) = overrun_clamp x" for x
    by (simp add: overrun_clamp_def timer_overrun_limit_def min_def)
  have d: "timer_dequeued t = t\<lparr>it_expiry := of_nat (min (2 ^ 63 - 1) (unat (it_expiry t) + n * unat (it_interval t))),
      it_overrun_last := overrun_add (it_overrun t) (of_nat n), it_overrun := - 1, it_state := Armed\<rparr>"
    using assms(2) by (simp add: timer_dequeued_def prev f timer_count_def Let_def)
  have e: "unat (of_nat (min (2 ^ 63 - 1) m) :: u64) = min (2 ^ 63 - 1) m" for m
    by (rule unat_of_nat_small) (simp add: min_def)
  have k: "(if now < it_expiry t then 0 else (now - it_expiry t) div it_interval t + 1) = of_nat n"
    using f i(1) by (auto simp: timer_forward_def Let_def split: if_splits)
  have p: "fst (timer_preview t now) = overrun_clamp (overrun_add (it_overrun t) (of_nat n))"
    using assms(2) by (simp add: timer_preview_def Let_def k)
  have "0 < unat (it_interval t)" using i(1) by (simp add: unat_gt_0)
  note m = missed_least [OF this, of "unat now" "unat (it_expiry t)", folded n_def]
    missed_least(2) [OF this, where now = "unat now" and e = "unat (it_expiry t)", folded n_def]
  have s: "it_state (timer_dequeued t) = Armed"
    "it_expiry (timer_dequeued t) = of_nat (min (2 ^ 63 - 1) (unat (it_expiry t) + n * unat (it_interval t)))"
    "it_overrun_last (timer_dequeued t) = overrun_add (it_overrun t) (of_nat n)"
    unfolding d by simp_all
  show ?thesis unfolding s p timer_overrun_def e o c using m(1,3) by blast
qed

theorem timer_dequeue_rearms_witness:
  "let t = snd (timer_preview (fold timer_exec [Timer_set 0 \<lparr>ts_value = 100, ts_interval = 30\<rparr> False,
       Timer_expire 105] (timer_reset False)) 170)
   in it_state (timer_dequeued t) = Armed \<and> unat (it_expiry (timer_dequeued t)) = 190 \<and> timer_overrun (timer_dequeued t) = 2"
proof -
  let ?t = "snd (timer_preview (fold timer_exec [Timer_set 0 \<lparr>ts_value = 100, ts_interval = 30\<rparr> False,
       Timer_expire 105] (timer_reset False)) 170)"
  have t: "it_state ?t = Signalled" "it_expiry ?t = 100" "it_interval ?t = 30" "it_overrun ?t = - 1"
    by (simp_all add: timer_reset_def timer_set_def timer_expire_def timer_preview_def timer_saturate_def timer_horizon_def Let_def)
  have "(170::u64) \<le> timer_horizon" by (simp add: timer_horizon_def)
  from timer_dequeue_rearms [OF refl t(1) this] show ?thesis
    unfolding t(2-4) Let_def by (simp add: missed_def overrun_clamp_def timer_overrun_limit_def)
qed

end
