(* ===== verification/OK_Histogram_Proofs.thy ===== *)
theory OK_Histogram_Proofs
  imports OK_Timer_Proofs OK_Epoch_Proofs
begin

text \<open>
  The latency histogram: its buckets partition the value range in order, with upper bounds
  that are exact, and a percentile brackets the sample of its rank.
\<close>

unbundle bit_operations_syntax

declare top_exponent.simps [simp del]

lemma drop_bit_zero_iff: "drop_bit e (v :: u32) = 0 \<longleftrightarrow> unat v < 2 ^ e"
  by (metis drop_bit_eq_div div_eq_0_iff power_not_zero unat_0_iff unat_drop_bit_eq zero_neq_numeral)

lemma top_exponent:
  assumes "v \<noteq> 0" and "unat v < 2 ^ Suc e"
  shows "2 ^ top_exponent v e \<le> unat v \<and> unat v < 2 ^ Suc (top_exponent v e) \<and> top_exponent v e \<le> e"
  using assms
proof (induction e)
  case 0
  then show ?case by (simp add: top_exponent.simps [of v 0] Suc_le_eq unat_gt_0)
next
  case (Suc e)
  then show ?case
    by (cases "unat v < 2 ^ Suc e") (simp_all add: top_exponent.simps [of v "Suc e"] drop_bit_zero_iff)
qed

lemma bucket_count [simp]: "bucket_count = 240"
  by (simp add: bucket_count_def sub_buckets_def maximum_exponent_def)

lemma bucket_index_small: "ns < 8 \<Longrightarrow> bucket_index ns = unat ns"
  by (simp add: bucket_index_def sub_buckets_def)

lemma bucket_index_top: "ns > 0xffffffff \<Longrightarrow> bucket_index ns = 239"
proof -
  assume "ns > 0xffffffff"
  then have "\<not> ns < 8" by (simp add: word_less_nat_alt)
  with \<open>ns > 0xffffffff\<close> show ?thesis by (simp add: bucket_index_def sub_buckets_def)
qed

text \<open>A value in the logarithmic range, its exponent, and its bucket.\<close>

lemma bucket_index_mid:
  assumes "8 \<le> unat ns" and "unat ns < 2 ^ 32"
  obtains e where "3 \<le> e" "e \<le> 31" "2 ^ e \<le> unat ns" "unat ns < 2 ^ Suc e"
    "bucket_index ns = 8 * (e - 3) + unat ns div 2 ^ (e - 3)"
proof -
  let ?v = "ucast ns :: u32" let ?e = "top_exponent ?v 31"
  have v: "unat ?v = unat ns" using assms(2) by (simp add: unsigned_ucast_eq take_bit_nat_eq_self)
  then have "?v \<noteq> 0" using assms(1) by auto
  from top_exponent [OF this, of 31] assms(2) v
  have e: "2 ^ ?e \<le> unat ns" "unat ns < 2 ^ Suc ?e" "?e \<le> 31" by simp_all
  have e3: "3 \<le> ?e"
  proof (rule ccontr)
    assume "\<not> 3 \<le> ?e"
    then have "(2::nat) ^ Suc ?e \<le> 2 ^ 3" by (intro power_increasing) simp_all
    with e(2) assms(1) show False by simp
  qed
  let ?q = "unat ns div 2 ^ (?e - 3)"
  have pw: "(2::nat) ^ ?e = 2 ^ (?e - 3) * 8" "(2::nat) ^ Suc ?e = 2 ^ (?e - 3) * 16"
    using e3 power_add [of "2::nat" "?e - 3" 3] by simp_all
  have q: "8 \<le> ?q" "?q < 16"
    using e(1,2) unfolding pw by (simp_all add: less_eq_div_iff_mult_less_eq div_less_iff_less_mult mult.commute)
  then have "?q mod 8 = ?q - 8" by (simp add: mod_if)
  moreover have "unat (drop_bit (?e - 3) ?v AND 7) = ?q mod 8"
  proof -
    have "unat (w AND mask 3) = unat w mod 2 ^ 3" for w :: u32
      unfolding take_bit_eq_mask [symmetric] unsigned_take_bit_eq by (rule take_bit_eq_mod)
    from this [of "drop_bit (?e - 3) ?v"] show ?thesis
      unfolding unat_drop_bit_eq v by (simp add: mask_eq_exp_minus_1 drop_bit_eq_div)
  qed
  moreover have "\<not> ns < 8" "\<not> ns > 0xffffffff" using assms by (simp_all add: word_less_nat_alt word_le_nat_alt)
  ultimately have "bucket_index ns = 8 * (?e - 3) + ?q"
    using q by (simp add: bucket_index_def sub_buckets_def Let_def)
  then show thesis using that e e3 by blast
qed

lemma upper_bound_small: "b < 8 \<Longrightarrow> unat (upper_bound b) = b"
  by (simp add: upper_bound_def sub_buckets_def unat_of_nat_small)

lemma upper_bound_mid:
  assumes "8 \<le> b" "b < 239"
  shows "unat (upper_bound b) = (b mod 8 + 9) * 2 ^ (b div 8 - 1) - 1" and "(b mod 8 + 9) * 2 ^ (b div 8 - 1) \<le> 2 ^ 32"
proof -
  let ?k = "b div 8 - 1"
  have k: "?k \<le> 28" using assms by auto
  have r: "b mod 8 + 9 \<le> 16" by simp
  have "(b mod 8 + 9) * 2 ^ ?k \<le> 16 * 2 ^ 28"
    using k r by (intro mult_le_mono power_increasing) simp_all
  then show le: "(b mod 8 + 9) * 2 ^ ?k \<le> 2 ^ 32" by simp
  have lt: "(b mod 8 + 9) * 2 ^ ?k < 2 ^ 32"
  proof (cases "?k = 28")
    case True
    then have "b div 8 = 29" using assms by simp
    then have "b mod 8 < 7" using assms(2) by presburger
    then have "(b mod 8 + 9) * 2 ^ 28 < 16 * 2 ^ 28" by (intro mult_strict_right_mono) simp_all
    then show ?thesis using True by simp
  next
    case False
    then have "(b mod 8 + 9) * 2 ^ ?k \<le> 16 * 2 ^ 27" using k r by (intro mult_le_mono power_increasing) simp_all
    then show ?thesis by simp
  qed
  let ?w = "push_bit ?k (of_nat (b mod 8 + 9)) :: u32"
  have "?w = of_nat ((b mod 8 + 9) * 2 ^ ?k)" by (simp add: push_bit_eq_mult)
  then have w: "unat ?w = (b mod 8 + 9) * 2 ^ ?k" using lt by (simp only: unat_of_nat) simp
  have "?w \<noteq> 0" using w by auto
  then have "unat (?w - 1) = unat ?w - 1" by (simp add: unat_minus_one)
  moreover have "upper_bound b = ucast (?w - 1)"
  proof -
    have "(b - 8) div 8 = b div 8 - 1" "(b - 8) mod 8 = b mod 8" using assms(1) by (simp_all add: div_if mod_if)
    then show ?thesis using assms by (simp add: upper_bound_def sub_buckets_def Let_def add.commute)
  qed
  moreover have "(b mod 8 + 9) * 2 ^ ?k - 1 < 2 ^ 64" using lt by simp
  ultimately show "unat (upper_bound b) = (b mod 8 + 9) * 2 ^ ?k - 1"
    using w by (simp add: unsigned_ucast_eq take_bit_nat_eq_self)
qed

lemma bucket_index_less: "bucket_index ns < 240"
proof -
  consider "unat ns < 8" | "8 \<le> unat ns" "unat ns < 2 ^ 32" | "ns > 0xffffffff"
    by (force simp: word_less_nat_alt)
  then show ?thesis
  proof cases
    case 1
    then show ?thesis using bucket_index_small [of ns] by (simp add: word_less_nat_alt)
  next
    case 2
    then obtain e where e: "3 \<le> e" "e \<le> 31" "unat ns < 2 ^ Suc e" "bucket_index ns = 8 * (e - 3) + unat ns div 2 ^ (e - 3)"
      by (rule bucket_index_mid)
    have "(2::nat) ^ Suc e = 16 * 2 ^ (e - 3)" using e(1) power_add [of "2::nat" "e - 3" 4] by simp
    then have "unat ns div 2 ^ (e - 3) < 16" using e(3) by (simp add: div_less_iff_less_mult)
    then show ?thesis using e by linarith
  qed (simp add: bucket_index_top)
qed

lemma mid_compare:
  fixes v :: nat
  assumes e: "2 ^ (k + 3) \<le> v" "v < 2 ^ (k + 4)" and m: "m < 8"
  shows "8 * k + v div 2 ^ k \<le> 8 * j + 8 + m \<longleftrightarrow> v < (m + 9) * 2 ^ j"
proof -
  have q: "8 \<le> v div 2 ^ k" "v div 2 ^ k < 16"
    using e by (simp_all add: power_add less_eq_div_iff_mult_less_eq div_less_iff_less_mult)
  consider "k = j" | "k < j" | "j < k" by linarith
  then show ?thesis
  proof cases
    case 1
    have "v < (m + 9) * 2 ^ j \<longleftrightarrow> v div 2 ^ j < m + 9" by (simp add: div_less_iff_less_mult)
    then show ?thesis using 1 by auto
  next
    case 2
    have "(2::nat) ^ (k + 4) \<le> 2 ^ (j + 3)" using 2 by (intro power_increasing) simp_all
    with e(2) have "v < 2 ^ (j + 3)" by linarith
    also have "(2::nat) ^ (j + 3) = 8 * 2 ^ j" by (simp add: power_add)
    also have "\<dots> \<le> (m + 9) * 2 ^ j" by (intro mult_le_mono1) simp
    finally show ?thesis using 2 q by auto
  next
    case 3
    have "(m + 9) * 2 ^ j \<le> 16 * 2 ^ j" using m by (intro mult_le_mono1) simp
    also have "16 * (2::nat) ^ j = 2 ^ (j + 4)" by (simp add: power_add)
    also have "\<dots> \<le> 2 ^ (k + 3)" using 3 by (intro power_increasing) simp_all
    finally have "(m + 9) * 2 ^ j \<le> v" using e(1) by simp
    then show ?thesis using 3 q m by auto
  qed
qed

lemma bucket_le_iff:
  assumes b: "b < bucket_count"
  shows "bucket_index ns \<le> b \<longleftrightarrow> ns \<le> upper_bound b"
proof -
  consider (top) "b = 239" | (small) "b < 8" | (mid) "8 \<le> b" "b < 239" using b by fastforce
  then show ?thesis
  proof cases
    case top
    then show ?thesis using bucket_index_less [of ns] by (simp add: upper_bound_def sub_buckets_def)
  next
    case small
    show ?thesis
    proof (cases "unat ns < 8")
      case True
      then show ?thesis using small bucket_index_small [of ns] upper_bound_small [of b]
        by (simp add: word_less_nat_alt word_le_nat_alt)
    next
      case False
      have "8 \<le> bucket_index ns"
      proof (cases "unat ns < 2 ^ 32")
        case True
        with False obtain e where e: "3 \<le> e" "2 ^ e \<le> unat ns" "bucket_index ns = 8 * (e - 3) + unat ns div 2 ^ (e - 3)"
          by (meson bucket_index_mid not_less)
        have "8 * (2::nat) ^ (e - 3) = 2 ^ e" using e(1) power_add [of "2::nat" "e - 3" 3] by simp
        then have "8 \<le> unat ns div 2 ^ (e - 3)" using e(2) by (simp add: less_eq_div_iff_mult_less_eq)
        then show ?thesis using e(3) by simp
      qed (simp add: bucket_index_top word_less_nat_alt)
      then show ?thesis using small False upper_bound_small [of b] by (simp add: word_le_nat_alt)
    qed
  next
    case mid
    let ?j = "b div 8 - 1" and ?m = "b mod 8"
    note ub = upper_bound_mid [OF mid]
    have bb: "b = 8 * ?j + 8 + ?m" using mid(1) by (simp add: algebra_simps)
    have pos: "0 < (?m + 9) * 2 ^ ?j" by simp
    have cmp: "ns \<le> upper_bound b \<longleftrightarrow> unat ns < (?m + 9) * 2 ^ ?j"
      unfolding word_le_nat_alt ub(1) using pos by linarith
    consider "unat ns < 8" | "8 \<le> unat ns" "unat ns < 2 ^ 32" | "unat ns \<ge> 2 ^ 32" by linarith
    then show ?thesis
    proof cases
      case 1
      moreover have "8 \<le> (?m + 9) * 2 ^ ?j" using mult_le_mono [of 8 "?m + 9" 1 "2 ^ ?j"] by simp
      ultimately show ?thesis using cmp mid bucket_index_small [of ns] by (simp add: word_less_nat_alt)
    next
      case 2
      then obtain e where e: "3 \<le> e" "2 ^ e \<le> unat ns" "unat ns < 2 ^ Suc e"
        "bucket_index ns = 8 * (e - 3) + unat ns div 2 ^ (e - 3)" by (rule bucket_index_mid)
      have "e - 3 + 3 = e" "e - 3 + 4 = Suc e" using e(1) by simp_all
      then show ?thesis using mid_compare [of "e - 3" "unat ns" ?m ?j] e(2-4) bb cmp by simp
    next
      case 3
      then have "bucket_index ns = 239" by (simp add: bucket_index_top word_less_nat_alt)
      moreover have "\<not> unat ns < (?m + 9) * 2 ^ ?j" using 3 ub(2) by linarith
      ultimately show ?thesis using cmp mid(2) by simp
    qed
  qed
qed

lemma upper_bound_close:
  assumes "bucket_index ns < 239"
  shows "unat (upper_bound (bucket_index ns)) \<le> unat ns + unat ns div 8"
proof (cases "unat ns < 8")
  case True
  then show ?thesis using bucket_index_small [of ns] upper_bound_small [of "unat ns"] by (simp add: word_less_nat_alt)
next
  case False
  have "unat ns < 2 ^ 32" using assms bucket_index_top [of ns] by (fastforce simp: word_less_nat_alt)
  with False obtain e where e: "3 \<le> e" "2 ^ e \<le> unat ns" "unat ns < 2 ^ Suc e"
    "bucket_index ns = 8 * (e - 3) + unat ns div 2 ^ (e - 3)" by (meson bucket_index_mid not_less)
  let ?k = "e - 3" and ?q = "unat ns div 2 ^ (e - 3)"
  have pw: "(2::nat) ^ e = 8 * 2 ^ ?k" "(2::nat) ^ Suc e = 16 * 2 ^ ?k"
    using e(1) power_add [of "2::nat" ?k 3] by simp_all
  have q: "8 \<le> ?q" "?q < 16"
    using e(2,3) unfolding pw by (simp_all add: less_eq_div_iff_mult_less_eq div_less_iff_less_mult)
  have r: "?q = 8 + (?q - 8)" "?q - 8 < 8" using q by linarith+
  have sum: "8 \<le> q \<Longrightarrow> 8 * k + q = (k + 1) * 8 + (q - 8)" for k q :: nat by simp
  have i: "bucket_index ns = (?k + 1) * 8 + (?q - 8)" unfolding e(4) by (rule sum [OF q(1)])
  have b: "8 \<le> bucket_index ns" "bucket_index ns div 8 - 1 = ?k" "bucket_index ns mod 8 + 9 = ?q + 1"
    unfolding i digit(1) [OF r(2)] digit(2) [OF r(2)] using q(1) by simp_all
  have "?q * 2 ^ ?k \<le> unat ns" by (rule div_times_less_eq_dividend)
  moreover have "2 ^ ?k \<le> unat ns div 8" using e(2) unfolding pw(1) by (simp add: less_eq_div_iff_mult_less_eq)
  ultimately show ?thesis unfolding upper_bound_mid(1) [OF b(1) assms] b(2,3) add_mult_distrib mult_1 by linarith
qed

section \<open>Percentiles\<close>

definition recorded :: "u64 list \<Rightarrow> latency_histogram" where
  "recorded xs = fold (\<lambda>x h. lh_record h x) xs lh_new"

text \<open>The number of samples in the buckets before \<open>b\<close>.\<close>

definition below :: "u64 list \<Rightarrow> nat \<Rightarrow> nat" where
  "below xs b = length (filter (\<lambda>x. bucket_index x < b) xs)"

lemma recorded_snoc: "recorded (xs @ [x]) = lh_record (recorded xs) x"
  by (simp add: recorded_def)

lemma recorded_buckets:
  "lh_buckets (recorded xs) = map (\<lambda>b. of_nat (length (filter (\<lambda>x. bucket_index x = b) xs))) [0..<240]"
proof (induction xs rule: rev_induct)
  case Nil
  show ?case by (rule nth_equalityI) (simp_all add: recorded_def lh_new_def)
next
  case (snoc x xs)
  show ?case
    by (rule nth_equalityI) (auto simp: recorded_snoc lh_record_def Let_def snoc.IH bucket_index_less nth_list_update)
qed

lemma recorded_count: "lh_count (recorded xs) = of_nat (length xs)"
  by (induction xs rule: rev_induct) (simp_all add: recorded_snoc, simp_all add: recorded_def lh_new_def lh_record_def Let_def)

lemma lh_record_range:
  "lh_minimum (lh_record h x) = (if lh_count h = 0 then x else min x (lh_minimum h))"
  "lh_maximum (lh_record h x) = max x (lh_maximum h)"
  by (auto simp: lh_record_def Let_def min_def max_def)

lemma recorded_range:
  assumes "length xs < 2 ^ 64" and "xs \<noteq> []"
  shows "lh_minimum (recorded xs) = Min (set xs) \<and> lh_maximum (recorded xs) = Max (set xs)"
  using assms
proof (induction xs rule: rev_induct)
  case (snoc x xs)
  show ?case
  proof (cases "xs = []")
    case True
    then show ?thesis by (simp add: recorded_snoc) (simp add: recorded_def lh_new_def lh_record_def Let_def word_gt_0)
  next
    case False
    have "of_nat (length xs) \<noteq> (0::u64)"
      using snoc.prems(1) False by (metis Suc_lessD length_0_conv length_append_singleton len64 unat_0 unat_of_nat_small)
    moreover have "Min (insert x (set xs)) = min x (Min (set xs))" "Max (insert x (set xs)) = max x (Max (set xs))"
      using False by simp_all
    ultimately show ?thesis using snoc False by (simp add: recorded_snoc lh_record_range recorded_count)
  qed
qed simp

lemma below_Suc: "below xs (Suc b) = below xs b + length (filter (\<lambda>x. bucket_index x = b) xs)"
  by (induction xs) (auto simp: below_def)

lemma below_le: "below xs b \<le> length xs"
  by (simp add: below_def)

lemma below_all: "below xs 240 = length xs"
  by (simp add: below_def bucket_index_less)

lemma scan_finds:
  assumes n: "length xs < 2 ^ 32" and rank: "unat rank \<le> length xs" "xs \<noteq> []" and b: "b \<le> 240"
    and less: "below xs b < max 1 (unat rank)"
  defines "h \<equiv> recorded xs"
  shows "\<exists>c. c < 240 \<and> below xs c < max 1 (unat rank) \<and> max 1 (unat rank) \<le> below xs (Suc c)
    \<and> percentile_scan h rank b (of_nat (below xs b)) (drop b (lh_buckets h))
      = (let bound = upper_bound c in if bound < lh_minimum h then lh_minimum h
         else if bound > lh_maximum h then lh_maximum h else bound)"
  using b less
proof (induction "240 - b" arbitrary: b)
  case 0
  then have "below xs b = length xs" by (simp add: below_all)
  then show ?case using 0 rank by (cases xs) auto
next
  case (Suc k)
  let ?r = "max 1 (unat rank)"
  have lt: "b < 240" using Suc.hyps(2) by simp
  let ?c = "length (filter (\<lambda>x. bucket_index x = b) xs)"
  have "?c < 2 ^ 32" using n le_less_trans [OF length_filter_le n] by blast
  then have "(ucast (of_nat ?c :: u32) :: u64) = of_nat ?c"
    by (intro unat_eqD) (simp add: unsigned_ucast_eq unat_of_nat_small take_bit_nat_eq_self)
  then have seen: "of_nat (below xs b) + ucast (of_nat ?c :: u32) = (of_nat (below xs (Suc b)) :: u64)"
    by (simp add: below_Suc)
  have u: "unat (of_nat (below xs (Suc b)) :: u64) = below xs (Suc b)"
    using le_less_trans [OF below_le [of xs "Suc b"] n] by (intro unat_of_nat_small) simp
  have z: "(of_nat (below xs (Suc b)) = (0::u64)) \<longleftrightarrow> below xs (Suc b) = 0"
    by (subst unat_eq_0 [symmetric]) (simp only: u)
  have stop: "of_nat (below xs (Suc b)) \<noteq> (0::u64) \<and> of_nat (below xs (Suc b)) \<ge> rank \<longleftrightarrow> ?r \<le> below xs (Suc b)"
    unfolding word_le_nat_alt u z by auto
  have "drop b (lh_buckets h) = of_nat ?c # drop (Suc b) (lh_buckets h)"
    unfolding h_def recorded_buckets using lt by (simp add: Cons_nth_drop_Suc [symmetric] del: upt.simps)
  then have scan: "percentile_scan h rank b (of_nat (below xs b)) (drop b (lh_buckets h)) =
      (if ?r \<le> below xs (Suc b)
       then (let bound = upper_bound b in if bound < lh_minimum h then lh_minimum h
         else if bound > lh_maximum h then lh_maximum h else bound)
       else percentile_scan h rank (Suc b) (of_nat (below xs (Suc b))) (drop (Suc b) (lh_buckets h)))"
    by (simp only: percentile_scan.simps Let_def seen stop)
  show ?case
  proof (cases "?r \<le> below xs (Suc b)")
    case True
    then show ?thesis using scan lt Suc.prems by (intro exI [of _ b]) simp
  next
    case False
    then show ?thesis unfolding scan if_not_P [OF False] using Suc.hyps(2) lt by (intro Suc.hyps(1)) linarith+
  qed
qed

lemma sorted_rank:
  assumes "sorted ys" and "r < length ys"
  shows "ys ! r \<le> u \<longleftrightarrow> r < length (filter (\<lambda>x. x \<le> u) ys)"
proof -
  have f: "filter (\<lambda>x. x \<le> u) ys = takeWhile (\<lambda>x. x \<le> u) ys"
    using assms(1)
  proof (induction ys)
    case (Cons a ys)
    show ?case
    proof (cases "a \<le> u")
      case False
      then have "filter (\<lambda>x. x \<le> u) ys = []" using Cons.prems by (auto simp: filter_empty_conv)
      then show ?thesis using False by simp
    qed (use Cons in simp)
  qed simp
  show ?thesis
  proof
    assume "ys ! r \<le> u"
    then have low: "ys ! i \<le> u" if "i \<le> r" for i
      using that assms sorted_nth_mono [of ys i r] by simp
    have "\<not> length (takeWhile (\<lambda>x. x \<le> u) ys) \<le> r"
    proof
      assume le: "length (takeWhile (\<lambda>x. x \<le> u) ys) \<le> r"
      with assms(2) have "length (takeWhile (\<lambda>x. x \<le> u) ys) < length ys" by linarith
      from nth_length_takeWhile [OF this] low [OF le] show False by simp
    qed
    then show "r < length (filter (\<lambda>x. x \<le> u) ys)" unfolding f by simp
  next
    assume r: "r < length (filter (\<lambda>x. x \<le> u) ys)"
    then have "takeWhile (\<lambda>x. x \<le> u) ys ! r \<in> set (takeWhile (\<lambda>x. x \<le> u) ys)" unfolding f by (rule nth_mem)
    from set_takeWhileD [OF this] show "ys ! r \<le> u" unfolding takeWhile_nth [OF r [unfolded f]] by (rule conjunct2)
  qed
qed

lemma rank_below:
  assumes "r < length xs" and "c < 240"
  shows "bucket_index (sort xs ! r) \<le> c \<longleftrightarrow> r < below xs (Suc c)"
proof -
  have "length (filter (\<lambda>x. x \<le> upper_bound c) (sort xs)) = below xs (Suc c)"
    unfolding below_def filter_sort length_sort using bucket_le_iff [of c] assms(2) by (simp add: less_Suc_eq_le)
  then show ?thesis using sorted_rank [of "sort xs" r "upper_bound c"] bucket_le_iff [of c "sort xs ! r"] assms by simp
qed

text \<open>The last bucket starts at 0xF0000000, below the 2^32 of the comment.\<close>

lemma last_bucket_iff: "bucket_index ns < bucket_count - 1 \<longleftrightarrow> ns < 0xF0000000"
proof -
  have "bucket_index ns < bucket_count - 1 \<longleftrightarrow> bucket_index ns \<le> 238"
    by (auto simp: bucket_count_def sub_buckets_def maximum_exponent_def)
  also have "\<dots> \<longleftrightarrow> ns \<le> upper_bound 238"
    by (rule bucket_le_iff) (simp add: bucket_count_def sub_buckets_def maximum_exponent_def)
  also have "upper_bound 238 = 0xEFFFFFFF" by code_simp
  also have "ns \<le> 0xEFFFFFFF \<longleftrightarrow> ns < 0xF0000000" by (simp add: word_le_nat_alt word_less_nat_alt) linarith
  finally show ?thesis .
qed

text \<open>
  C34: A percentile of at most 1000 per mille of a nonempty recording of fewer than 2^32 samples
  is at least the sample of its rank ceil(count * per_mille / 1000), never more than the largest
  sample, and, if that sample is below 0xF0000000, where the last bucket starts, above it by at
  most one eighth of its value.
\<close>

theorem percentile_brackets_rank:
  assumes "xs \<noteq> []" and "length xs < 2 ^ 32" and "p \<le> 1000"
  defines "s \<equiv> sort xs ! (max 1 ((length xs * unat p + 999) div 1000) - 1)"
  defines "v \<equiv> lh_percentile (recorded xs) p"
  shows "s \<le> v \<and> v \<le> Max (set xs) \<and> (s < 0xF0000000 \<longrightarrow> unat v \<le> unat s + unat s div 8)"
proof -
  let ?n = "length xs" let ?r = "max 1 ((?n * unat p + 999) div 1000)"
  let ?rank = "(of_nat ?n * ucast p + 999) div 1000 :: u64"
  let ?h = "recorded xs"
  have p: "unat p \<le> 1000" using assms(3) by (simp add: word_le_nat_alt)
  have np: "?n * unat p \<le> 2 ^ 32 * 1000" using assms(2) p by (intro mult_le_mono) simp_all
  have un: "unat (of_nat ?n :: u64) = ?n" using assms(2) by (intro unat_of_nat_small) simp
  have up: "unat (ucast p :: u64) = unat p" using p by (simp add: unsigned_ucast_eq take_bit_nat_eq_self)
  have "unat (of_nat ?n * ucast p :: u64) = ?n * unat p" using np un up by (simp add: unat_mult_small)
  then have "unat (of_nat ?n * ucast p + 999 :: u64) = ?n * unat p + 999" using np by (simp add: unat_add_headroom)
  then have r: "unat ?rank = (?n * unat p + 999) div 1000" by (simp add: unat_div_distrib)
  have "?n * unat p + 999 \<le> ?n * 1000 + 999" by (rule add_le_mono1 [OF mult_le_mono2 [OF p]])
  also have "\<dots> < (?n + 1) * 1000" by simp
  finally have rn: "unat ?rank \<le> ?n" unfolding r by (simp add: div_less_iff_less_mult less_Suc_eq_le [symmetric])
  have "below xs 0 < max 1 (unat ?rank)" by (simp add: below_def)
  from scan_finds [OF assms(2) rn assms(1) _ this] obtain c where c: "c < 240" "below xs c < ?r" "?r \<le> below xs (Suc c)"
    and scan: "percentile_scan ?h ?rank 0 (of_nat (below xs 0)) (drop 0 (lh_buckets ?h)) =
      (let bound = upper_bound c in if bound < lh_minimum ?h then lh_minimum ?h
       else if bound > lh_maximum ?h then lh_maximum ?h else bound)" unfolding r by auto
  have nz: "lh_count ?h \<noteq> 0" using un assms(1) by (auto simp: recorded_count)
  have range: "lh_minimum ?h = Min (set xs)" "lh_maximum ?h = Max (set xs)"
    using recorded_range [of xs] assms(1,2) by simp_all
  have rl: "?r - 1 < ?n" using rn assms(1) unfolding r by (cases xs) auto
  have mem: "s \<in> set xs" using rl unfolding s_def by (metis length_sort nth_mem set_sort)
  have one: "1 \<le> ?r" by (rule max.cobounded1)
  have "?r - 1 < below xs (Suc c)" using c(3) one by linarith
  then have sc: "bucket_index s \<le> c" unfolding s_def using rank_below [OF rl c(1)] by blast
  then have su: "s \<le> upper_bound c" using bucket_le_iff [of c s] c(1) by simp
  have cs: "c \<le> bucket_index s"
  proof (cases c)
    case (Suc d)
    then have "d < 240" "\<not> ?r - 1 < below xs (Suc d)" using c(1,2) one unfolding Suc by linarith+
    then have "\<not> bucket_index s \<le> d" unfolding s_def using rank_below [OF rl, of d] by blast
    then show ?thesis using Suc by simp
  qed simp
  have "\<not> upper_bound c < Min (set xs)" using su mem by (meson List.finite_set Min_le leD le_less_trans order_trans)
  then have "v = (if upper_bound c > Max (set xs) then Max (set xs) else upper_bound c)"
    using scan nz by (simp add: v_def lh_percentile_def recorded_count range below_def Let_def)
  then have v: "v = min (upper_bound c) (Max (set xs))" by (auto simp: min_def)
  have "s \<le> Max (set xs)" using mem by simp
  moreover have "unat v \<le> unat s + unat s div 8" if "s < 0xF0000000"
  proof -
    have "v \<le> upper_bound (bucket_index s)" using v sc cs by simp
    then show ?thesis using upper_bound_close [of s] that last_bucket_iff [of s] by (simp add: word_le_nat_alt)
  qed
  ultimately show ?thesis using su v by simp
qed

theorem percentile_brackets_rank_witness:
  "(let v = lh_percentile (recorded [900, 20, 100]) 500 in 100 \<le> v \<and> v \<le> 900 \<and> unat v \<le> 112)"
proof -
  have s: "sort [900, 20, 100 :: u64] ! (max 1 ((length [900, 20, 100 :: u64] * unat (500::u32) + 999) div 1000) - 1) = 100"
    by simp
  have "Max (set [900, 20, 100 :: u64]) = 900" by simp
  with percentile_brackets_rank [of "[900, 20, 100]" 500, unfolded s] show ?thesis
    by (simp add: Let_def)
qed

end
