(* ===== verification/OK_Ticks_Proofs.thy ===== *)
theory OK_Ticks_Proofs
  imports OK_Timer
begin

text \<open>
  Tick conversion without wide products: the split into whole seconds and a fraction gives the
  exact quotient, what happens outside the range in which it does, and both conversions of the
  calibrated clock.
\<close>

lemma split_scaled:
  fixes t f s :: nat
  assumes "0 < f"
  shows "t * s div f = t div f * s + (t mod f) * s div f"
proof -
  have "t * s = (t div f * s) * f + (t mod f) * s"
    using div_mult_mod_eq [of t f] by (metis add_mult_distrib mult.assoc mult.commute)
  then show ?thesis using assms by simp
qed

lemma fraction_fits:
  fixes t f :: u64
  assumes "f \<noteq> 0" and "f \<le> - 1 div 1000000000"
  shows "unat (t mod f * 1000000000) = unat t mod unat f * 1000000000"
    and "unat (t mod f * 1000000000 div f) = unat t mod unat f * 1000000000 div unat f"
proof -
  have f: "0 < unat f" "unat f \<le> 18446744073" using assms by (simp_all add: unat_gt_0 word_le_nat_alt unat_div_distrib)
  then have "unat t mod unat f < 18446744073" by (meson mod_less_divisor order_less_le_trans)
  then have "unat (t mod f) * unat (1000000000 :: u64) < 2 ^ LENGTH(64)" by (simp add: unat_mod_distrib)
  then show m: "unat (t mod f * 1000000000) = unat t mod unat f * 1000000000"
    by (simp add: unat_mult_small unat_mod_distrib)
  show "unat (t mod f * 1000000000 div f) = unat t mod unat f * 1000000000 div unat f"
    unfolding unat_div_distrib m ..
qed

text \<open>
  C35: For a counter of at most 2^64 / 10^9 Hz the conversion gives the quotient
  ticks * 10^9 / frequency of unbounded arithmetic, rounded down, saturated at 2^64 - 1.
\<close>

theorem ticks_to_nanoseconds_exact:
  assumes "frequency \<noteq> 0" and "frequency \<le> - 1 div 1000000000"
  shows "unat (ticks_to_nanoseconds ticks frequency) = min (2 ^ 64 - 1) (unat ticks * 10 ^ 9 div unat frequency)"
proof -
  let ?s = "ticks div frequency" and ?p = "ticks mod frequency * 1000000000 div frequency"
  have f: "0 < unat frequency" using assms(1) by (simp add: unat_gt_0)
  have p: "unat ?p = unat ticks mod unat frequency * 1000000000 div unat frequency" by (rule fraction_fits(2) [OF assms])
  have q: "unat ticks * 10 ^ 9 div unat frequency = unat ?s * 1000000000 + unat ?p"
    unfolding p using split_scaled [OF f, of "unat ticks" "10 ^ 9"] by (simp add: unat_div_distrib)
  show ?thesis
  proof (cases "?s > - 1 div 1000000000")
    case True
    then have "18446744073 < unat ?s" by (simp add: word_less_nat_alt unat_div_distrib)
    then have "2 ^ 64 - 1 \<le> unat ?s * 1000000000 + unat ?p" by simp
    then show ?thesis using True assms(1) unfolding q by (simp add: ticks_to_nanoseconds_def Let_def min_absorb1 unat_max)
  next
    case False
    then have "unat ?s \<le> 18446744073" by (simp add: word_less_nat_alt unat_div_distrib not_less)
    then have w: "unat (?s * 1000000000) = unat ?s * 1000000000" by (simp add: unat_mult_small)
    have m: "unat (- 1 - ?p) = 2 ^ 64 - 1 - unat ?p" unfolding unat_max_minus len64 ..
    have sat: "?s * 1000000000 > - 1 - ?p \<longleftrightarrow> 2 ^ 64 - 1 < unat ?s * 1000000000 + unat ?p"
      unfolding word_less_nat_alt w m by (rule less_diff_conv2) (use unat64_less [of ?p] in \<open>simp del: unat64_less\<close>)
    have e: "ticks_to_nanoseconds ticks frequency = (if ?s * 1000000000 > - 1 - ?p then - 1 else ?s * 1000000000 + ?p)"
      using False assms by (simp add: ticks_to_nanoseconds_def Let_def)
    show ?thesis
    proof (cases "2 ^ 64 - 1 < unat ?s * 1000000000 + unat ?p")
      case True
      then show ?thesis unfolding e q using sat by (simp add: unat_max min_absorb1)
    next
      case fits: False
      then have "unat (?s * 1000000000 + ?p) = unat ?s * 1000000000 + unat ?p"
        using w by (intro trans [OF unat_add_headroom]) simp_all
      then show ?thesis unfolding e q using sat fits by (simp add: min_absorb2)
    qed
  qed
qed

theorem ticks_to_nanoseconds_exact_witness:
  "unat (ticks_to_nanoseconds 100 3) = 33333333333"
proof -
  have "(3::u64) \<le> - 1 div 1000000000" by (simp add: word_le_nat_alt unat_div_distrib)
  from ticks_to_nanoseconds_exact [OF _ this, of 100] show ?thesis by simp
qed

text \<open>
  Above that frequency the fraction is divided by a truncated factor: the result is never below
  the quotient, where the comment of the function promises rounding down, and can exceed it.
\<close>

lemma fraction_overestimated:
  fixes t f :: nat
  assumes "1000000000 \<le> f"
  shows "t * 10 ^ 9 div f \<le> t div f * 1000000000 + t mod f div (f div 1000000000)"
proof -
  have k: "0 < f div 1000000000" using assms by (simp add: div_greater_zero_iff)
  have "f div 1000000000 * 1000000000 \<le> f" by (rule div_times_less_eq_dividend)
  then have "t mod f * 1000000000 div f \<le> t mod f * 1000000000 div (f div 1000000000 * 1000000000)"
    using k by (intro div_le_mono2) simp_all
  also have "\<dots> = t mod f div (f div 1000000000)" by simp
  finally show ?thesis using split_scaled [of f t "10 ^ 9"] assms by simp
qed

lemma ticks_to_nanoseconds_fast:
  assumes fast: "frequency > - 1 div 1000000000"
  shows "min (2 ^ 64 - 1) (unat ticks * 10 ^ 9 div unat frequency) \<le> unat (ticks_to_nanoseconds ticks frequency)"
proof -
  let ?s = "ticks div frequency" and ?p = "ticks mod frequency div (frequency div 1000000000)"
  have f: "1000000000 \<le> unat frequency" "frequency \<noteq> 0"
    using fast by (auto simp: word_less_nat_alt unat_div_distrib)
  have le: "unat ticks * 10 ^ 9 div unat frequency \<le> unat ?s * 1000000000 + unat ?p"
    using fraction_overestimated [OF f(1)] by (simp add: unat_div_distrib unat_mod_distrib)
  show ?thesis
  proof (cases "?s > - 1 div 1000000000 \<or> ?s * 1000000000 > - 1 - ?p")
    case True
    then have "ticks_to_nanoseconds ticks frequency = - 1"
      using fast f(2) by (auto simp: ticks_to_nanoseconds_def Let_def)
    then show ?thesis by (simp add: unat_max)
  next
    case False
    then have g: "\<not> ?s > - 1 div 1000000000" "\<not> ?s * 1000000000 > - 1 - ?p" by blast+
    have "unat ?s \<le> 18446744073" using g(1) by (simp add: word_less_nat_alt unat_div_distrib not_less)
    then have w: "unat (?s * 1000000000) = unat ?s * 1000000000" by (simp add: unat_mult_small)
    have "unat (?s * 1000000000) + unat ?p < 2 ^ LENGTH(64)"
      using g(2) unfolding headroom_exceeded_iff by linarith
    then have "unat (?s * 1000000000 + ?p) = unat ?s * 1000000000 + unat ?p"
      unfolding w [symmetric] by (rule unat_add_headroom)
    moreover have "ticks_to_nanoseconds ticks frequency = ?s * 1000000000 + ?p"
      unfolding ticks_to_nanoseconds_def Let_def by (simp only: g f(2) iffD2 [OF linorder_not_le fast] if_False)
    ultimately show ?thesis using le by simp
  qed
qed

section \<open>The calibrated clock\<close>

lemma max64_less: "18446744073709551615 < x \<longleftrightarrow> 18446744073709551616 \<le> (x :: nat)"
  by (rule iffI) linarith+

lemma monotonic_ns_exact:
  assumes "cc_initialized c" and "cs_frequency s \<noteq> 0" and "cs_frequency s \<le> - 1 div 1000000000"
  defines "t \<equiv> cs_counter s - cc_origin c" and "f \<equiv> cs_frequency s"
  shows "monotonic_ns s c = (if 18446744073 < unat t div unat f then Inl S_overflow
      else Inr (of_nat (unat t * 10 ^ 9 div unat f)))"
proof -
  let ?G = "1000000000 :: u64"
  have f: "0 < unat f" using assms(2) by (simp add: f_def unat_gt_0)
  have "t div f * ?G + t mod f * ?G div f = of_nat (unat (t div f) * 1000000000 + unat (t mod f * ?G div f))"
    by simp
  also have "unat (t div f) * 1000000000 + unat (t mod f * ?G div f) = unat t * 10 ^ 9 div unat f"
    unfolding f_def fraction_fits(2) [OF assms(2,3)] using split_scaled [OF f, of "unat t" "10 ^ 9"]
    by (simp add: unat_div_distrib f_def)
  finally have v: "t div f * ?G + t mod f * ?G div f = of_nat (unat t * 10 ^ 9 div unat f)" .
  have g: "t div f > - 1 div ?G \<longleftrightarrow> 18446744073 < unat t div unat f" by (simp add: word_less_nat_alt unat_div_distrib)
  have "\<not> f > - 1 div ?G" using assms(3) by (simp add: f_def not_less)
  then show ?thesis using assms(1) v g
    by (simp add: monotonic_ns_def nanoseconds_per_second_def Let_def flip: t_def f_def)
qed

lemma deadline_ticks_exact:
  assumes "cc_initialized c" and "cs_frequency s \<noteq> 0" and "cs_frequency s \<le> - 1 div 1000000000"
  defines "f \<equiv> cs_frequency s"
  shows "deadline_ticks s c ns = (if 2 ^ 64 \<le> unat ns div 10 ^ 9 * unat f then Inl S_overflow
      else Inr (cs_counter s + of_nat (unat ns * unat f div 10 ^ 9)))"
proof -
  let ?G = "1000000000 :: u64"
  have f: "0 < unat f" "unat f \<le> 18446744073"
    using assms(2,3) by (simp_all add: f_def unat_gt_0 word_le_nat_alt unat_div_distrib)
  have "ns div ?G > - 1 div f \<longleftrightarrow> 18446744073709551615 div unat f < unat ns div 10 ^ 9"
    by (simp add: word_less_nat_alt unat_div_distrib unat_max)
  also have "\<dots> \<longleftrightarrow> 18446744073709551615 < unat ns div 10 ^ 9 * unat f" using f(1) by (simp only: div_less_iff_less_mult)
  finally have g: "ns div ?G > - 1 div f \<longleftrightarrow> 18446744073709551616 \<le> unat ns div 10 ^ 9 * unat f"
    by (simp only: max64_less)
  have "unat ns mod 10 ^ 9 \<le> 10 ^ 9" by (rule less_imp_le) simp
  from mult_le_mono [OF this f(2)] have "unat (ns mod ?G) * unat f < 2 ^ LENGTH(64)" by (simp add: unat_mod_distrib)
  then have m: "unat (ns mod ?G * f) = unat ns mod 10 ^ 9 * unat f" by (simp add: unat_mult_small unat_mod_distrib)
  have "ns div ?G * f + ns mod ?G * f div ?G = of_nat (unat (ns div ?G) * unat f + unat (ns mod ?G * f div ?G))" by simp
  also have "unat (ns div ?G) * unat f + unat (ns mod ?G * f div ?G) = unat ns * unat f div 10 ^ 9"
    using split_scaled [of "10 ^ 9" "unat ns" "unat f"] by (simp add: unat_div_distrib m)
  finally have w: "ns div ?G * f + ns mod ?G * f div ?G = of_nat (unat ns * unat f div 10 ^ 9)" .
  show ?thesis using assms(1,2) g w
    by (simp add: deadline_ticks_def nanoseconds_per_second_def Let_def flip: f_def)
qed

text \<open>
  C36: An initialized clock of 1 to 2^64 / 10^9 Hz converts both ways exactly, modulo 2^64.
  \<open>monotonic_ns\<close> gives ticks * 10^9 / frequency rounded down, and reports an overflow exactly
  when the whole seconds alone exceed 2^64 / 10^9: in the last second before that the sum wraps
  unreported. \<open>deadline_ticks\<close> adds nanoseconds * frequency / 10^9 rounded down to the counter,
  and reports an overflow exactly when the ticks of the whole seconds do not fit in 64 bits.
\<close>

theorem calibrated_clock_exact:
  assumes "cc_initialized c" and "cs_frequency s \<noteq> 0" and "cs_frequency s \<le> - 1 div 1000000000"
  shows "monotonic_ns s c =
      (if 18446744073 < unat (cs_counter s - cc_origin c) div unat (cs_frequency s) then Inl S_overflow
       else Inr (of_nat (unat (cs_counter s - cc_origin c) * 10 ^ 9 div unat (cs_frequency s))))
    \<and> deadline_ticks s c ns =
      (if 2 ^ 64 \<le> unat ns div 10 ^ 9 * unat (cs_frequency s) then Inl S_overflow
       else Inr (cs_counter s + of_nat (unat ns * unat (cs_frequency s) div 10 ^ 9)))"
  by (rule conjI [OF monotonic_ns_exact [OF assms] deadline_ticks_exact [OF assms]])

theorem calibrated_clock_exact_witness:
  "monotonic_ns \<lparr>cs_frequency = 10, cs_counter = 184467440738\<rparr> \<lparr>cc_origin = 0, cc_initialized = True\<rparr> = Inr 90448384
   \<and> deadline_ticks \<lparr>cs_frequency = 10, cs_counter = 5\<rparr> \<lparr>cc_origin = 0, cc_initialized = True\<rparr> 2300000000 = Inr 28"
  using calibrated_clock_exact [of "\<lparr>cc_origin = 0, cc_initialized = True\<rparr>" "\<lparr>cs_frequency = 10, cs_counter = 184467440738\<rparr>"]
    calibrated_clock_exact [of "\<lparr>cc_origin = 0, cc_initialized = True\<rparr>" "\<lparr>cs_frequency = 10, cs_counter = 5\<rparr>" 2300000000]
  by (simp add: word_le_nat_alt unat_div_distrib)

end
