(* ===== verification/OK_Wait.thy ===== *)
theory OK_Wait
  imports OK_Prelude
begin

text \<open>
  Waiting: the deadline record of \<^verbatim>\<open>sched/deadline.hpp\<close>, the wait registration of
  \<^verbatim>\<open>sched/wait_registration.hpp\<close> and the bounded wait queue of \<^verbatim>\<open>sched/wait_queue.hpp\<close>. A queue
  holds pointers to registrations that several queues and the scheduler share, so the
  registrations live in a store indexed by their addresses.
\<close>

section \<open>Deadlines\<close>

record deadline_wait =
  dw_generation :: u64
  dw_deadline :: u64
  dw_armed :: bool

definition deadline_arm :: "deadline_wait \<Rightarrow> u64 \<Rightarrow> int \<Rightarrow> int \<Rightarrow> bool \<Rightarrow> u64 result \<times> deadline_wait" where
  "deadline_arm d now seconds nanoseconds absolute =
     (let second = 1000000000 in
      if seconds < 0 \<or> nanoseconds < 0 \<or> nanoseconds \<ge> 1000000000 then (Inl S_invalid_argument, d)
      else (let sec = word_of_int seconds :: u64; ns = word_of_int nanoseconds in
        if sec > (- 1 - ns) div second then (Inl S_overflow, d)
        else (let interval = sec * second + ns in
          if \<not> absolute \<and> interval > - 1 - now then (Inl S_overflow, d)
          else if dw_armed d then (Inl S_busy, d)
          else if dw_generation d = - 1 then (Inl S_overflow, d)
          else (Inr (dw_generation d + 1),
            d\<lparr>dw_deadline := (if absolute then interval else now + interval), dw_armed := True,
              dw_generation := dw_generation d + 1\<rparr>))))"

definition deadline_complete :: "deadline_wait \<Rightarrow> u64 \<Rightarrow> u64 \<Rightarrow> bool \<times> deadline_wait" where
  "deadline_complete d now generation =
     (if \<not> dw_armed d \<or> generation \<noteq> dw_generation d \<or> now < dw_deadline d then (False, d)
      else (True, d\<lparr>dw_armed := False\<rparr>))"

definition deadline_cancel :: "deadline_wait \<Rightarrow> deadline_wait" where
  "deadline_cancel d = d\<lparr>dw_armed := False\<rparr>"

section \<open>Wait registrations\<close>

record wait_ticket =
  wt_owner :: u64
  wt_thread :: u64
  wt_generation :: u64

datatype wait_completion = Wc_none | Wc_ready | Wc_timeout | Wc_cancelled | Wc_interrupted

datatype wake_source = Ws_thread | Ws_timer | Ws_interrupt | Ws_poll

record wait_registration =
  wr_ticket :: wait_ticket
  wr_completion :: wait_completion
  wr_source :: wake_source
  wr_active :: bool

definition no_ticket :: wait_ticket where
  "no_ticket = \<lparr>wt_owner = 0, wt_thread = 0, wt_generation = 0\<rparr>"

definition registration_new :: wait_registration where
  "registration_new = \<lparr>wr_ticket = no_ticket, wr_completion = Wc_none, wr_source = Ws_thread, wr_active = False\<rparr>"

definition registration_arm :: "wait_registration \<Rightarrow> u64 \<Rightarrow> u64 \<Rightarrow> wait_ticket result \<times> wait_registration" where
  "registration_arm r owner thread =
     (if owner = 0 \<or> thread = 0 then (Inl S_invalid_argument, r)
      else if wr_active r then (Inl S_busy, r)
      else if wt_generation (wr_ticket r) = - 1 then (Inl S_overflow, r)
      else (let t = \<lparr>wt_owner = owner, wt_thread = thread, wt_generation = wt_generation (wr_ticket r) + 1\<rparr>
            in (Inr t, \<lparr>wr_ticket = t, wr_completion = Wc_none, wr_source = Ws_thread, wr_active = True\<rparr>)))"

definition registration_pending :: "wait_registration \<Rightarrow> wait_ticket \<Rightarrow> bool" where
  "registration_pending r t \<longleftrightarrow> wr_active r \<and> t = wr_ticket r"

definition registration_complete ::
  "wait_registration \<Rightarrow> wait_ticket \<Rightarrow> wait_completion \<Rightarrow> wake_source \<Rightarrow> bool \<times> wait_registration" where
  "registration_complete r t completion source =
     (if \<not> registration_pending r t \<or> (completion \<noteq> Wc_ready \<and> completion \<noteq> Wc_timeout
         \<and> completion \<noteq> Wc_cancelled \<and> completion \<noteq> Wc_interrupted) then (False, r)
      else (True, r\<lparr>wr_completion := completion,
              wr_source := (if completion = Wc_timeout then Ws_timer else source), wr_active := False\<rparr>))"

definition registration_cancel :: "wait_registration \<Rightarrow> bool \<times> wait_registration" where
  "registration_cancel r = registration_complete r (wr_ticket r) Wc_cancelled Ws_thread"

section \<open>Wait queues\<close>

record wait_slot =
  ws_registration :: "nat option"
  ws_ticket :: wait_ticket

record wait_queue =
  wq_slots :: "wait_slot list"
  wq_wakes :: "wake_source \<Rightarrow> usize"
  wq_count :: nat
  wq_oldest :: nat

type_synonym wait_store = "nat \<Rightarrow> wait_registration"

definition empty_slot :: wait_slot where
  "empty_slot = \<lparr>ws_registration = None, ws_ticket = no_ticket\<rparr>"

definition queue_new :: "nat \<Rightarrow> wait_queue" where
  "queue_new capacity = \<lparr>wq_slots = replicate capacity empty_slot, wq_wakes = (\<lambda>_. 0), wq_count = 0, wq_oldest = 0\<rparr>"

definition slot_live :: "wait_store \<Rightarrow> wait_slot \<Rightarrow> bool" where
  "slot_live g s = (case ws_registration s of None \<Rightarrow> False | Some r \<Rightarrow> registration_pending (g r) (ws_ticket s))"

definition queue_attach :: "wait_queue \<Rightarrow> nat \<Rightarrow> wait_ticket \<Rightarrow> wait_queue option" where
  "queue_attach q r t =
     (case first_index (\<lambda>s. ws_registration s = None) (wq_slots q) of None \<Rightarrow> None
      | Some i \<Rightarrow> Some (q\<lparr>wq_slots := (wq_slots q)[i := \<lparr>ws_registration = Some r, ws_ticket = t\<rparr>],
          wq_count := wq_count q + 1\<rparr>))"

definition queue_detach :: "wait_queue \<Rightarrow> nat \<Rightarrow> wait_queue" where
  "queue_detach q i = q\<lparr>wq_slots := (wq_slots q)[i := empty_slot], wq_count := wq_count q - 1\<rparr>"

definition queue_prepare ::
  "wait_queue \<Rightarrow> wait_store \<Rightarrow> nat \<Rightarrow> u64 \<Rightarrow> u64 \<Rightarrow> wait_ticket result \<times> wait_queue \<times> wait_store" where
  "queue_prepare q g r owner thread =
     (if wq_count q = length (wq_slots q) then (Inl S_overflow, q, g)
      else (case registration_arm (g r) owner thread of
          (Inl e, w) \<Rightarrow> (Inl e, q, g(r := w))
        | (Inr t, w) \<Rightarrow>
            (case queue_attach q r t of
                None \<Rightarrow> (Inl S_overflow, q, g(r := snd (registration_cancel w)))
              | Some q' \<Rightarrow> (Inr t, q', g(r := w)))))"

text \<open>The scan of \<open>prune()\<close> over the slots from index \<open>i\<close> on.\<close>

primrec prune_slots :: "wait_store \<Rightarrow> nat list \<Rightarrow> wait_queue \<Rightarrow> nat \<Rightarrow> nat \<times> wait_queue" where
  "prune_slots g [] q dropped = (dropped, q)"
| "prune_slots g (i # is) q dropped =
     (if ws_registration (wq_slots q ! i) \<noteq> None \<and> \<not> slot_live g (wq_slots q ! i)
      then prune_slots g is (queue_detach q i) (dropped + 1) else prune_slots g is q dropped)"

definition queue_prune :: "wait_queue \<Rightarrow> wait_store \<Rightarrow> nat \<times> wait_queue" where
  "queue_prune q g = prune_slots g [0..<length (wq_slots q)] q 0"

definition queue_enlist :: "wait_queue \<Rightarrow> wait_store \<Rightarrow> nat \<Rightarrow> status_code \<times> wait_queue" where
  "queue_enlist q g r =
     (if \<not> wr_active (g r) then (S_invalid_argument, q)
      else if \<exists>s\<in>set (wq_slots q). ws_registration s = Some r \<and> ws_ticket s = wr_ticket (g r) then (S_already_exists, q)
      else (case queue_prune q g of (_, q1) \<Rightarrow>
        if wq_count q1 = length (wq_slots q1) then (S_overflow, q1)
        else (case queue_attach q1 r (wr_ticket (g r)) of None \<Rightarrow> (S_overflow, q1) | Some q2 \<Rightarrow> (S_ok, q2))))"

definition complete_at :: "wait_store \<Rightarrow> wait_slot \<Rightarrow> wait_completion \<Rightarrow> wake_source \<Rightarrow> wait_store" where
  "complete_at g s completion source =
     (case ws_registration s of None \<Rightarrow> g
      | Some r \<Rightarrow> g(r := snd (registration_complete (g r) (ws_ticket s) completion source)))"

definition queue_cancel :: "wait_queue \<Rightarrow> wait_store \<Rightarrow> wait_ticket \<Rightarrow> bool \<times> wait_queue \<times> wait_store" where
  "queue_cancel q g t =
     (case first_index (\<lambda>s. slot_live g s \<and> ws_ticket s = t) (wq_slots q) of
        None \<Rightarrow> (False, q, g)
      | Some i \<Rightarrow> (True, queue_detach q i, complete_at g (wq_slots q ! i) Wc_cancelled Ws_thread))"

text \<open>The scan of \<open>wake_one()\<close>: slot indices in cyclic order from the oldest.\<close>

definition wake_order :: "wait_queue \<Rightarrow> nat list" where
  "wake_order q = map (\<lambda>scanned. (wq_oldest q + scanned) mod length (wq_slots q)) [0..<length (wq_slots q)]"

primrec wake_scan ::
  "nat list \<Rightarrow> wait_queue \<Rightarrow> wait_store \<Rightarrow> wake_source \<Rightarrow> wait_completion \<Rightarrow> bool \<times> wait_queue \<times> wait_store" where
  "wake_scan [] q g source completion = (False, q, g)"
| "wake_scan (i # is) q g source completion =
     (if ws_registration (wq_slots q ! i) = None then wake_scan is q g source completion
      else if \<not> slot_live g (wq_slots q ! i) then wake_scan is (queue_detach q i) g source completion
      else (True,
        (queue_detach q i)\<lparr>wq_oldest := (i + 1) mod length (wq_slots q),
          wq_wakes := (wq_wakes q)(source := wq_wakes q source + 1)\<rparr>,
        complete_at g (wq_slots q ! i) completion source))"

definition wake_one ::
  "wait_queue \<Rightarrow> wait_store \<Rightarrow> wake_source \<Rightarrow> wait_completion \<Rightarrow> bool \<times> wait_queue \<times> wait_store" where
  "wake_one q g source completion = wake_scan (wake_order q) q g source completion"

text \<open>
  Every successful wake empties a slot, so the loop of \<open>wake_all()\<close> runs at most once per slot
  and once more to find the queue drained: the fuel is the capacity plus one.
\<close>

primrec wake_loop ::
  "nat \<Rightarrow> wait_queue \<Rightarrow> wait_store \<Rightarrow> wake_source \<Rightarrow> wait_completion \<Rightarrow> nat \<Rightarrow> (nat \<times> wait_queue \<times> wait_store) option" where
  "wake_loop 0 q g source completion woken = None"
| "wake_loop (Suc fuel) q g source completion woken =
     (case wake_one q g source completion of
        (True, q', g') \<Rightarrow> wake_loop fuel q' g' source completion (woken + 1)
      | (False, q', g') \<Rightarrow> Some (woken, q', g'))"

definition wake_all ::
  "wait_queue \<Rightarrow> wait_store \<Rightarrow> wake_source \<Rightarrow> wait_completion \<Rightarrow> (nat \<times> wait_queue \<times> wait_store) option" where
  "wake_all q g source completion = wake_loop (length (wq_slots q) + 1) q g source completion 0"

text \<open>The visitor of \<open>notify()\<close> may complete registrations, so it is a function on the store.\<close>

primrec notify_scan ::
  "nat list \<Rightarrow> wait_queue \<Rightarrow> wait_store \<Rightarrow> (wait_ticket \<Rightarrow> wait_store \<Rightarrow> bool \<times> wait_store) \<Rightarrow> nat
    \<Rightarrow> nat \<times> wait_queue \<times> wait_store" where
  "notify_scan [] q g visit removed = (removed, q, g)"
| "notify_scan (i # is) q g visit removed =
     (if ws_registration (wq_slots q ! i) = None then notify_scan is q g visit removed
      else if \<not> slot_live g (wq_slots q ! i) then notify_scan is (queue_detach q i) g visit removed
      else (case visit (ws_ticket (wq_slots q ! i)) g of
          (False, g') \<Rightarrow> notify_scan is q g' visit removed
        | (True, g') \<Rightarrow> notify_scan is (queue_detach q i) g' visit (removed + 1)))"

definition queue_notify ::
  "wait_queue \<Rightarrow> wait_store \<Rightarrow> (wait_ticket \<Rightarrow> wait_store \<Rightarrow> bool \<times> wait_store) \<Rightarrow> nat \<times> wait_queue \<times> wait_store" where
  "queue_notify q g visit = notify_scan (wake_order q) q g visit 0"

end
