(* ===== verification/OK_Wait_Proofs.thy ===== *)
theory OK_Wait_Proofs
  imports OK_Wait
begin

text \<open>
  The wait queue: tickets are never revived, the occupancy count is exact, draining a queue
  ends, no waiter is passed over more often than the queue has slots, and a wake takes the first
  live entry in slot order.
\<close>

section \<open>Tickets\<close>

inductive store_step :: "wait_store \<Rightarrow> wait_store \<Rightarrow> bool" where
  arm: "store_step g (g(r := snd (registration_arm (g r) owner thread)))"
| complete: "store_step g (g(r := snd (registration_complete (g r) t c s)))"

definition ticket_live :: "wait_store \<Rightarrow> nat \<times> wait_ticket \<Rightarrow> bool" where
  "ticket_live g h = registration_pending (g (fst h)) (snd h)"

definition ticket_issued :: "wait_store \<Rightarrow> nat \<times> wait_ticket \<Rightarrow> nat" where
  "ticket_issued g h = unat (wt_generation (wr_ticket (g (fst h))))"

interpretation tickets: generational "\<lambda>_. True" store_step ticket_live ticket_issued "\<lambda>h. unat (wt_generation (snd h))"
proof unfold_locales
  fix g g' h
  show "ticket_live g h \<Longrightarrow> unat (wt_generation (snd h)) \<le> ticket_issued g h"
    by (simp add: ticket_live_def ticket_issued_def registration_pending_def)
  assume "store_step g g'"
  then show "ticket_issued g h \<le> ticket_issued g' h"
    and "ticket_live g' h \<Longrightarrow> \<not> ticket_live g h \<Longrightarrow> ticket_issued g h < unat (wt_generation (snd h))"
    by (cases; auto simp: ticket_issued_def ticket_live_def registration_arm_def registration_complete_def
        registration_pending_def Let_def unat_Suc_headroom split: if_splits)+
qed simp

lemma complete_at_steps: "store_step\<^sup>*\<^sup>* g (complete_at g s c w)"
  by (auto simp: complete_at_def intro: store_step.intros split: option.split)

lemma complete_at_pending:
  assumes "registration_pending (complete_at g s c w r) t"
  shows "registration_pending (g r) t"
  using assms by (auto simp: complete_at_def registration_complete_def registration_pending_def split: option.splits if_splits)

lemma complete_at_done:
  assumes "ws_registration s = Some r" and "c \<noteq> Wc_none"
  shows "\<not> registration_pending (complete_at g s c w r) (ws_ticket s)"
  using assms by (cases c) (auto simp: complete_at_def registration_complete_def registration_pending_def)

section \<open>Occupancy\<close>

definition occupied :: "wait_queue \<Rightarrow> nat" where
  "occupied q = count_if (\<lambda>s. ws_registration s \<noteq> None) (wq_slots q)"

definition queue_ok :: "wait_queue \<Rightarrow> bool" where
  "queue_ok q \<longleftrightarrow> wq_count q = occupied q \<and> (wq_slots q \<noteq> [] \<longrightarrow> wq_oldest q < length (wq_slots q))"

lemma queue_detach_simps [simp]:
  "length (wq_slots (queue_detach q i)) = length (wq_slots q)" "wq_oldest (queue_detach q i) = wq_oldest q"
  "wq_slots (queue_detach q i) = (wq_slots q)[i := empty_slot]" "wq_count (queue_detach q i) = wq_count q - 1"
  by (simp_all add: queue_detach_def)

lemma empty_slot_free [simp]: "ws_registration empty_slot = None"
  by (simp add: empty_slot_def)

lemma slot_live_occupied: "slot_live g s \<Longrightarrow> ws_registration s \<noteq> None"
  by (auto simp: slot_live_def split: option.splits)

lemma occupied_detach:
  assumes "i < length (wq_slots q)" and "ws_registration (wq_slots q ! i) \<noteq> None"
  shows "Suc (occupied (queue_detach q i)) = occupied q"
  using count_if_update [OF assms(1), of "\<lambda>s. ws_registration s \<noteq> None" empty_slot] assms(2) by (simp add: occupied_def)

lemma queue_ok_detach:
  assumes "queue_ok q" and "i < length (wq_slots q)" and "ws_registration (wq_slots q ! i) \<noteq> None"
  shows "queue_ok (queue_detach q i)"
  using assms(1) occupied_detach [OF assms(2,3)] by (auto simp: queue_ok_def)

lemma queue_attach_ok:
  assumes "queue_ok q" and "queue_attach q r t = Some q'"
  shows "queue_ok q'"
proof -
  obtain i where i: "first_index (\<lambda>s. ws_registration s = None) (wq_slots q) = Some i"
    and q': "q' = q\<lparr>wq_slots := (wq_slots q)[i := \<lparr>ws_registration = Some r, ws_ticket = t\<rparr>], wq_count := wq_count q + 1\<rparr>"
    using assms(2) by (auto simp: queue_attach_def split: option.splits)
  show ?thesis using assms(1) count_if_update_on [OF first_indexD(1) [OF i], of "\<lambda>s. ws_registration s \<noteq> None"] first_indexD(2) [OF i]
    by (simp add: q' queue_ok_def occupied_def)
qed

lemma prune_slots_ok:
  assumes "queue_ok q" and "set is \<subseteq> {..<length (wq_slots q)}"
  shows "queue_ok (snd (prune_slots g is q n)) \<and> length (wq_slots (snd (prune_slots g is q n))) = length (wq_slots q)
    \<and> wq_oldest (snd (prune_slots g is q n)) = wq_oldest q"
  using assms by (induction "is" arbitrary: q n) (simp_all add: queue_ok_detach)

lemma wake_scan_ok:
  assumes "queue_ok q" and "set is \<subseteq> {..<length (wq_slots q)}" and "wake_scan is q g s c = (b, q', g')"
  shows "queue_ok q' \<and> length (wq_slots q') = length (wq_slots q) \<and> occupied q' \<le> occupied q \<and> store_step\<^sup>*\<^sup>* g g'
    \<and> (\<forall>j < length (wq_slots q). ws_registration (wq_slots q ! j) = None \<longrightarrow> ws_registration (wq_slots q' ! j) = None)
    \<and> (if b then occupied q' < occupied q else \<forall>i\<in>set is. ws_registration (wq_slots q' ! i) = None)"
  using assms
proof (induction "is" arbitrary: q)
  case (Cons i "is")
  let ?n = "length (wq_slots q)"
  have i: "i < ?n" "set is \<subseteq> {..<?n}" using Cons.prems(2) by auto
  consider (free) "ws_registration (wq_slots q ! i) = None"
    | (stale) "ws_registration (wq_slots q ! i) \<noteq> None" "\<not> slot_live g (wq_slots q ! i)"
    | (live) "ws_registration (wq_slots q ! i) \<noteq> None" "slot_live g (wq_slots q ! i)" by blast
  then show ?case
  proof cases
    case free
    then show ?thesis using Cons.IH [OF Cons.prems(1) i(2)] Cons.prems(3) i(1) by auto
  next
    case stale
    have ok: "queue_ok (queue_detach q i)" by (rule queue_ok_detach [OF Cons.prems(1) i(1) stale(1)])
    have occ: "occupied (queue_detach q i) < occupied q" using occupied_detach [OF i(1) stale(1)] by simp
    have run: "wake_scan is (queue_detach q i) g s c = (b, q', g')" using Cons.prems(3) stale by simp
    note IH = Cons.IH [OF ok _ run]
    have keep: "ws_registration (wq_slots (queue_detach q i) ! j) = None"
      if "j < ?n" "ws_registration (wq_slots q ! j) = None \<or> j = i" for j using that i by (auto simp: nth_list_update)
    show ?thesis using IH occ i keep by (auto split: if_splits)
  next
    case live
    have ok: "queue_ok (queue_detach q i)" by (rule queue_ok_detach [OF Cons.prems(1) i(1) live(1)])
    have q': "q' = (queue_detach q i)\<lparr>wq_oldest := (i + 1) mod ?n, wq_wakes := (wq_wakes q)(s := wq_wakes q s + 1)\<rparr>"
      "b" "g' = complete_at g (wq_slots q ! i) c s" using Cons.prems(3) live by auto
    have oc: "occupied q' = occupied (queue_detach q i)" by (simp add: q'(1) occupied_def)
    have "queue_ok q'" using ok i(1) by (auto simp: queue_ok_def oc) (simp_all add: q'(1))
    then show ?thesis
      using q'(2,3) oc occupied_detach [OF i(1) live(1)] complete_at_steps i(1) by (auto simp: q'(1) nth_list_update)
  qed
qed (simp add: occupied_def)

lemma wake_order_set: "set (wake_order q) = {..<length (wq_slots q)}"
proof (cases "wq_slots q = []")
  case False
  let ?n = "length (wq_slots q)" and ?o = "wq_oldest q"
  have n: "0 < ?n" using False by simp
  have "j \<in> set (wake_order q)" if "j < ?n" for j
  proof -
    let ?s = "(j + (?n - ?o mod ?n)) mod ?n"
    have "(?o + ?s) mod ?n = (?o mod ?n + (j + (?n - ?o mod ?n))) mod ?n" by (simp add: mod_add_left_eq mod_add_right_eq)
    also have "\<dots> = (j + ?n) mod ?n" using mod_less_divisor [OF n, of ?o] by (simp add: algebra_simps)
    finally have "(?o + ?s) mod ?n = j" using that by simp
    then show ?thesis unfolding wake_order_def using n by (auto intro!: image_eqI [of _ _ ?s])
  qed
  then show ?thesis using n by (auto simp: wake_order_def)
qed (simp add: wake_order_def)

lemma wake_one_ok:
  assumes "queue_ok q" and "wake_one q g s c = (b, q', g')"
  shows "queue_ok q'" "length (wq_slots q') = length (wq_slots q)" "store_step\<^sup>*\<^sup>* g g'" "b \<Longrightarrow> occupied q' < occupied q"
    "\<not> b \<Longrightarrow> occupied q' = 0"
proof -
  note k = wake_scan_ok [OF assms(1) _ assms(2) [unfolded wake_one_def], unfolded wake_order_set, OF subset_refl]
  show "queue_ok q'" "length (wq_slots q') = length (wq_slots q)" "store_step\<^sup>*\<^sup>* g g'" "b \<Longrightarrow> occupied q' < occupied q"
    using k by auto
  show "\<not> b \<Longrightarrow> occupied q' = 0" using k by (auto simp: occupied_def count_if_zero_iff in_set_conv_nth)
qed

lemma wake_loop_drains:
  assumes "queue_ok q" and "occupied q < fuel"
  shows "\<exists>w q' g'. wake_loop fuel q g s c n = Some (w, q', g') \<and> queue_ok q' \<and> occupied q' = 0
    \<and> n \<le> w \<and> w \<le> n + occupied q"
  using assms
proof (induction fuel arbitrary: q g n)
  case (Suc fuel)
  obtain b q' g' where w: "wake_one q g s c = (b, q', g')" by (cases "wake_one q g s c") auto
  note ok = wake_one_ok [OF Suc.prems(1) w]
  show ?case
  proof (cases b)
    case True
    then have "occupied q' < fuel" using ok(4) Suc.prems(2) by simp
    from Suc.IH [OF ok(1) this, of g' "n + 1"] obtain v r h
      where v: "wake_loop fuel q' g' s c (n + 1) = Some (v, r, h)" "queue_ok r" "occupied r = 0" "n + 1 \<le> v" "v \<le> n + 1 + occupied q'"
      by blast
    then show ?thesis using w True ok(4) by auto
  next
    case False
    then show ?thesis using w ok by auto
  qed
qed simp

section \<open>Operations on one queue and its registrations\<close>

text \<open>
  A registration is changed only by its own operations. A visitor passed to \<open>notify()\<close> sees the
  ticket and the registrations, may make any number of calls on registrations, and answers
  whether the entry is to be dropped.
\<close>

datatype reg_call =
    Call_arm nat u64 u64
  | Call_complete nat wait_ticket wait_completion wake_source

fun reg_exec :: "reg_call \<Rightarrow> wait_store \<Rightarrow> wait_store" where
  "reg_exec (Call_arm r owner thread) g = g(r := snd (registration_arm (g r) owner thread))"
| "reg_exec (Call_complete r t c s) g = g(r := snd (registration_complete (g r) t c s))"

type_synonym visitor = "wait_ticket \<Rightarrow> wait_store \<Rightarrow> bool \<times> reg_call list"

definition run_visitor :: "visitor \<Rightarrow> wait_ticket \<Rightarrow> wait_store \<Rightarrow> bool \<times> wait_store" where
  "run_visitor v t g = (case v t g of (drop_it, calls) \<Rightarrow> (drop_it, fold reg_exec calls g))"

lemma reg_exec_step: "store_step g (reg_exec x g)"
  by (cases x) (simp_all add: store_step.intros)

lemma reg_execs_steps: "store_step\<^sup>*\<^sup>* g (fold reg_exec xs g)"
proof (induction xs arbitrary: g)
  case (Cons x xs)
  show ?case using converse_rtranclp_into_rtranclp [of store_step, OF reg_exec_step Cons.IH] by simp
qed simp

lemma run_visitor_steps: "store_step\<^sup>*\<^sup>* g (snd (run_visitor v t g))"
  by (simp add: run_visitor_def case_prod_beta reg_execs_steps)

text \<open>
  The calls a queue sees, and the calls its waiters' registrations see from the scheduler or
  from other queues they are enlisted in. \<open>wake_all()\<close> is a sequence of \<open>Q_wake\<close>.
\<close>

datatype wait_op =
    Q_prepare nat u64 u64
  | Q_enlist nat
  | Q_cancel wait_ticket
  | Q_prune
  | Q_wake wake_source wait_completion
  | Q_notify visitor
  | R_arm nat u64 u64
  | R_complete nat wait_ticket wait_completion wake_source

fun wait_exec :: "wait_op \<Rightarrow> wait_queue \<times> wait_store \<Rightarrow> wait_queue \<times> wait_store" where
  "wait_exec (Q_prepare r owner thread) (q, g) = snd (queue_prepare q g r owner thread)"
| "wait_exec (Q_enlist r) (q, g) = (snd (queue_enlist q g r), g)"
| "wait_exec (Q_cancel t) (q, g) = snd (queue_cancel q g t)"
| "wait_exec Q_prune (q, g) = (snd (queue_prune q g), g)"
| "wait_exec (Q_wake s c) (q, g) = snd (wake_one q g s c)"
| "wait_exec (Q_notify v) (q, g) = snd (queue_notify q g (run_visitor v))"
| "wait_exec (R_arm r owner thread) (q, g) = (q, g(r := snd (registration_arm (g r) owner thread)))"
| "wait_exec (R_complete r t c s) (q, g) = (q, g(r := snd (registration_complete (g r) t c s)))"

text \<open>How many calls of \<open>wake_one\<close> in a run woke someone.\<close>

fun wakes_in :: "wait_op list \<Rightarrow> wait_queue \<times> wait_store \<Rightarrow> nat" where
  "wakes_in [] st = 0"
| "wakes_in (x # xs) st =
     (case x of Q_wake s c \<Rightarrow> if fst (wake_one (fst st) (snd st) s c) then 1 else 0 | _ \<Rightarrow> 0)
     + wakes_in xs (wait_exec x st)"

lemma registration_cancel_step:
  "store_step (g(r := w)) (g(r := snd (registration_cancel w)))"
  using store_step.complete [of "g(r := w)" r "wr_ticket w" Wc_cancelled Ws_thread] by (simp add: registration_cancel_def)

lemma queue_prune_ok:
  "queue_ok q \<Longrightarrow> queue_ok (snd (queue_prune q g)) \<and> length (wq_slots (snd (queue_prune q g))) = length (wq_slots q)
    \<and> wq_oldest (snd (queue_prune q g)) = wq_oldest q"
  unfolding queue_prune_def by (rule prune_slots_ok) auto

lemma queue_attach_length: "queue_attach q r t = Some q' \<Longrightarrow>
    length (wq_slots q') = length (wq_slots q) \<and> wq_oldest q' = wq_oldest q"
  by (auto simp: queue_attach_def split: option.splits)

lemma notify_scan_ok:
  assumes "queue_ok q" and "set is \<subseteq> {..<length (wq_slots q)}"
    and "notify_scan is q g (run_visitor v) k = (m, q', g')"
  shows "queue_ok q' \<and> length (wq_slots q') = length (wq_slots q) \<and> wq_oldest q' = wq_oldest q \<and> store_step\<^sup>*\<^sup>* g g'"
  using assms
proof (induction "is" arbitrary: q g k)
  case (Cons i "is")
  let ?s = "wq_slots q ! i" and ?d = "queue_detach q i" and ?v = "run_visitor v (ws_ticket (wq_slots q ! i)) g"
  have i: "i < length (wq_slots q)" "set is \<subseteq> {..<length (wq_slots q)}" using Cons.prems(2) by auto
  note det = queue_ok_detach [OF Cons.prems(1) i(1)]
  consider (free) "ws_registration ?s = None"
    | (stale) "ws_registration ?s \<noteq> None" "\<not> slot_live g ?s"
    | (kept) "ws_registration ?s \<noteq> None" "slot_live g ?s" "\<not> fst ?v"
    | (gone) "ws_registration ?s \<noteq> None" "slot_live g ?s" "fst ?v" by blast
  then show ?case
  proof cases
    case free
    then show ?thesis using Cons.IH [OF Cons.prems(1) i(2)] Cons.prems(3) by simp
  next
    case stale
    then have "notify_scan is ?d g (run_visitor v) k = (m, q', g')" using Cons.prems(3) by auto
    from Cons.IH [OF det [OF stale(1)] _ this] i(2) show ?thesis by simp
  next
    case kept
    have "notify_scan is q (snd ?v) (run_visitor v) k = (m, q', g')"
      using Cons.prems(3) kept by (simp split: prod.splits bool.splits)
    from Cons.IH [OF Cons.prems(1) i(2) this] show ?thesis
      using run_visitor_steps [of g v "ws_ticket ?s"] by (auto intro: rtranclp_trans)
  next
    case gone
    have "notify_scan is ?d (snd ?v) (run_visitor v) (k + 1) = (m, q', g')"
      using Cons.prems(3) gone by (simp split: prod.splits bool.splits)
    from Cons.IH [OF det [OF gone(1)] _ this] i(2) show ?thesis
      using run_visitor_steps [of g v "ws_ticket ?s"] by (auto intro: rtranclp_trans)
  qed
qed simp

lemma queue_notify_ok:
  assumes "queue_ok q" and "queue_notify q g (run_visitor v) = (m, q', g')"
  shows "queue_ok q' \<and> length (wq_slots q') = length (wq_slots q) \<and> wq_oldest q' = wq_oldest q \<and> store_step\<^sup>*\<^sup>* g g'"
  by (rule notify_scan_ok [OF assms(1) _ assms(2) [unfolded queue_notify_def]]) (simp add: wake_order_set)

lemma wait_exec_ok:
  assumes "queue_ok q" and "wait_exec x (q, g) = (q', g')"
  shows "queue_ok q' \<and> length (wq_slots q') = length (wq_slots q) \<and> store_step\<^sup>*\<^sup>* g g'"
proof (cases x)
  case (Q_prepare r owner thread)
  let ?a = "registration_arm (g r) owner thread"
  have s: "store_step g (g(r := snd ?a))" by (rule store_step.arm)
  have s2: "store_step\<^sup>*\<^sup>* g (g(r := snd (registration_cancel (snd ?a))))"
    by (rule rtranclp.rtrancl_into_rtrancl [OF r_into_rtranclp [of store_step, OF s]]) (rule registration_cancel_step)
  show ?thesis
    using assms(2) Q_prepare s s2 queue_attach_ok [OF assms(1)] queue_attach_length assms(1)
    by (auto simp: queue_prepare_def split: if_splits prod.splits sum.splits option.splits)
next
  case (Q_enlist r)
  then show ?thesis using assms queue_prune_ok [OF assms(1), of g] queue_attach_ok queue_attach_length
    by (auto simp: queue_enlist_def split: if_splits prod.splits option.splits)
next
  case (Q_cancel t)
  show ?thesis
  proof (cases "first_index (\<lambda>s. slot_live g s \<and> ws_ticket s = t) (wq_slots q)")
    case (Some i)
    have "ws_registration (wq_slots q ! i) \<noteq> None" using first_indexD(2) [OF Some] slot_live_occupied by blast
    then show ?thesis
      using assms Q_cancel Some queue_ok_detach [OF assms(1) first_indexD(1) [OF Some]] complete_at_steps
      by (auto simp: queue_cancel_def)
  qed (use assms Q_cancel in \<open>simp add: queue_cancel_def del: first_index_None\<close>)
next
  case (Q_wake s c)
  then show ?thesis using assms wake_one_ok [of q g s c _ q' g'] by (cases "wake_one q g s c") auto
next
  case (Q_notify v)
  then show ?thesis using assms queue_notify_ok [of q g v _ q' g'] by (cases "queue_notify q g (run_visitor v)") auto
qed (use assms queue_prune_ok in \<open>auto intro: store_step.intros\<close>)

section \<open>Bounded bypassing\<close>

text \<open>Slot \<open>i\<close> holds the waiting registration \<open>r\<close>, \<open>d\<close> slots after the scan's starting point.\<close>

definition waits_at :: "wait_queue \<Rightarrow> wait_store \<Rightarrow> nat \<Rightarrow> nat \<Rightarrow> wait_ticket \<Rightarrow> nat \<Rightarrow> bool" where
  "waits_at q g i r t d \<longleftrightarrow> d < length (wq_slots q) \<and> (wq_oldest q + d) mod length (wq_slots q) = i
     \<and> wq_slots q ! i = \<lparr>ws_registration = Some r, ws_ticket = t\<rparr> \<and> registration_pending (g r) t"

lemma waits_at_live: "waits_at q g i r t d \<Longrightarrow> slot_live g (wq_slots q ! i)"
  by (simp add: waits_at_def slot_live_def)

lemma waits_at_index: "waits_at q g i r t d \<Longrightarrow> i < length (wq_slots q)"
  by (auto simp: waits_at_def intro: mod_less_divisor)

lemma waits_at_detach: "waits_at q g i r t d \<Longrightarrow> j \<noteq> i \<Longrightarrow> waits_at (queue_detach q j) g i r t d"
  by (simp add: waits_at_def)

lemma waits_at_attach:
  assumes "waits_at q g i r t d" and "queue_attach q r' t' = Some q'"
  shows "waits_at q' g i r t d"
proof -
  obtain k where k: "first_index (\<lambda>s. ws_registration s = None) (wq_slots q) = Some k"
    and q': "q' = q\<lparr>wq_slots := (wq_slots q)[k := \<lparr>ws_registration = Some r', ws_ticket = t'\<rparr>], wq_count := wq_count q + 1\<rparr>"
    using assms(2) by (auto simp: queue_attach_def split: option.splits)
  have "k \<noteq> i" using first_indexD(2) [OF k] assms(1) by (auto simp: waits_at_def)
  then show ?thesis using assms(1) by (simp add: waits_at_def q')
qed

lemma waits_at_prune: "waits_at q g i r t d \<Longrightarrow> waits_at (snd (prune_slots g is q n)) g i r t d"
proof (induction "is" arbitrary: q n)
  case (Cons j "is")
  show ?case
  proof (cases "ws_registration (wq_slots q ! j) \<noteq> None \<and> \<not> slot_live g (wq_slots q ! j)")
    case True
    then have "j \<noteq> i" using waits_at_live [OF Cons.prems] by auto
    then show ?thesis using Cons.IH [OF waits_at_detach [OF Cons.prems]] True by simp
  next
    case False
    then show ?thesis using Cons by auto
  qed
qed simp

lemma waits_at_store:
  "waits_at q g i r t d \<Longrightarrow> registration_pending (g' r) t \<Longrightarrow> waits_at q g' i r t d"
  by (simp add: waits_at_def)

text \<open>
  An entry is abandoned when a visitor drops it, or a wake with completion \<open>none\<close> takes it,
  while its registration is still waiting.
\<close>

definition abandons :: "wait_op \<Rightarrow> wait_queue \<times> wait_store \<Rightarrow> nat \<Rightarrow> bool" where
  "abandons x st i \<longleftrightarrow>
     (case x of Q_wake s c \<Rightarrow> c = Wc_none | Q_notify v \<Rightarrow> True | _ \<Rightarrow> False)
     \<and> ws_registration (wq_slots (fst (wait_exec x st)) ! i) = None
     \<and> slot_live (snd (wait_exec x st)) (wq_slots (fst st) ! i)"

fun abandoned :: "wait_op list \<Rightarrow> wait_queue \<times> wait_store \<Rightarrow> nat \<Rightarrow> bool" where
  "abandoned [] st i = False"
| "abandoned (x # xs) st i = (abandons x st i \<or> abandoned xs (wait_exec x st) i)"

lemma still_pending:
  assumes "store_step\<^sup>*\<^sup>* g g1" and "store_step\<^sup>*\<^sup>* g1 g2" and "registration_pending (g r) t"
    and "registration_pending (g2 r) t"
  shows "registration_pending (g1 r) t"
  using tickets.released_stays_dead [OF TrueI _ assms(1) _ assms(2), of "(r, t)"] assms(3,4)
  by (auto simp: ticket_live_def)

lemma notify_scan_free:
  "ws_registration (wq_slots q ! j) = None \<Longrightarrow> j < length (wq_slots q) \<Longrightarrow>
   ws_registration (wq_slots (fst (snd (notify_scan is q g visit k))) ! j) = None"
proof (induction "is" arbitrary: q g k)
  case (Cons i "is")
  have "ws_registration (wq_slots (queue_detach q i) ! j) = None" using Cons.prems by (cases "i = j") simp_all
  note here = Cons.IH [OF Cons.prems] and there = Cons.IH [OF this]
  show ?case using here there Cons.prems(2) by (simp split: prod.split bool.split)
qed simp

lemma notify_scan_keeps:
  assumes "waits_at q g i r t d" and "queue_ok q" and "set is \<subseteq> {..<length (wq_slots q)}"
    and "notify_scan is q g (run_visitor v) k = (m, q', g')"
    and "ws_registration (wq_slots q' ! i) \<noteq> None" and "registration_pending (g' r) t"
  shows "waits_at q' g' i r t d"
  using assms
proof (induction "is" arbitrary: q g k)
  case (Cons j "is")
  let ?s = "wq_slots q ! j" and ?d = "queue_detach q j" and ?v = "run_visitor v (ws_ticket (wq_slots q ! j)) g"
  have j: "j < length (wq_slots q)" "set is \<subseteq> {..<length (wq_slots q)}" using Cons.prems(3) by auto
  note live = waits_at_live [OF Cons.prems(1)] and IH = Cons.IH [OF _ _ _ _ Cons.prems(5,6)]
  consider (free) "ws_registration ?s = None" | (occ) "ws_registration ?s \<noteq> None" by blast
  then show ?case
  proof cases
    case free
    then show ?thesis using IH [OF Cons.prems(1,2) j(2)] Cons.prems(4) by simp
  next
    case occ
    note ok = queue_ok_detach [OF Cons.prems(2) j(1) occ]
    show ?thesis
    proof (cases "slot_live g ?s")
      case False
      then have "j \<noteq> i" using live by auto
      from IH [OF waits_at_detach [OF Cons.prems(1) this] ok] show ?thesis using j(2) Cons.prems(4) occ False by simp
    next
      case True
      define b g1 where "b = fst ?v" and "g1 = snd ?v"
      let ?q1 = "if b then ?d else q" and ?k1 = "if b then k + 1 else k"
      have run: "notify_scan is ?q1 g1 (run_visitor v) ?k1 = (m, q', g')"
        using Cons.prems(4) occ True by (simp add: b_def g1_def split: prod.splits bool.splits)
      have ok1: "queue_ok ?q1" and sub: "set is \<subseteq> {..<length (wq_slots ?q1)}" using ok Cons.prems(2) j(2) by simp_all
      have "registration_pending (g1 r) t"
        using still_pending [of g g1 g'] run_visitor_steps [of g v] notify_scan_ok [OF ok1 sub run] Cons.prems(1,6)
        by (simp add: g1_def waits_at_def)
      then have w1: "waits_at q g1 i r t d" using Cons.prems(1) by (simp add: waits_at_def)
      show ?thesis
      proof (cases "b \<and> j = i")
        case True
        then have "ws_registration (wq_slots q' ! i) = None"
          using notify_scan_free [of ?d i "is" g1 "run_visitor v" "k + 1"] run j(1) by simp
        then show ?thesis using Cons.prems(5) by simp
      next
        case False
        then have "waits_at ?q1 g1 i r t d" using w1 waits_at_detach [OF w1] by auto
        from IH [OF this ok1 sub run] show ?thesis .
      qed
    qed
  qed
qed simp

lemma wake_scan_bypass:
  assumes "waits_at q g i r t d" and "a \<le> d"
    and "\<not> (c = Wc_none \<and> ws_registration (wq_slots q' ! i) = None)"
    and "wake_scan (map (\<lambda>k. (wq_oldest q + k) mod length (wq_slots q)) [a..<length (wq_slots q)]) q g s c = (b, q', g')"
    and "registration_pending (g' r) t"
  shows "b \<and> (\<exists>d' < d. waits_at q' g' i r t d')"
  using assms
proof (induction "d - a" arbitrary: a q rule: less_induct)
  case less
  let ?n = "length (wq_slots q)" let ?j = "(wq_oldest q + a) mod ?n"
  have an: "a < ?n" using less.prems(1,2) by (auto simp: waits_at_def)
  let ?rest = "map (\<lambda>k. (wq_oldest q + k) mod ?n) [Suc a..<?n]"
  have unroll: "map (\<lambda>k. (wq_oldest q + k) mod ?n) [a..<?n] = ?j # ?rest" using an by (simp add: upt_conv_Cons)
  note scan = less.prems(4) [unfolded unroll wake_scan.simps]
  have ad: "a < d" if "?j \<noteq> i" using that less.prems(1,2) by (cases "a = d") (auto simp: waits_at_def)
  show ?case
  proof (cases "slot_live g (wq_slots q ! ?j)")
    case False
    then have ji: "?j \<noteq> i" using waits_at_live [OF less.prems(1)] by auto
    have m: "d - Suc a < d - a" "Suc a \<le> d" using ad [OF ji] by simp_all
    show ?thesis
    proof (cases "ws_registration (wq_slots q ! ?j) = None")
      case True
      then show ?thesis using less.hyps [OF m(1) less.prems(1) m(2) less.prems(3) _ less.prems(5)] scan by simp
    next
      case occ: False
      have "wake_scan (map (\<lambda>k. (wq_oldest (queue_detach q ?j) + k) mod length (wq_slots (queue_detach q ?j)))
          [Suc a..<length (wq_slots (queue_detach q ?j))]) (queue_detach q ?j) g s c = (b, q', g')"
        using scan occ False by simp
      from less.hyps [OF m(1) waits_at_detach [OF less.prems(1) ji] m(2) less.prems(3) this less.prems(5)] show ?thesis .
    qed
  next
    case True
    then have occ: "ws_registration (wq_slots q ! ?j) \<noteq> None" by (rule slot_live_occupied)
    have q': "q' = (queue_detach q ?j)\<lparr>wq_oldest := (?j + 1) mod ?n, wq_wakes := (wq_wakes q)(s := wq_wakes q s + 1)\<rparr>"
      and b: "b" and g': "g' = complete_at g (wq_slots q ! ?j) c s" using scan occ True by auto
    have ji: "?j \<noteq> i"
    proof
      assume "?j = i"
      then have "ws_registration (wq_slots q ! ?j) = Some r" "ws_ticket (wq_slots q ! ?j) = t"
        using less.prems(1) by (simp_all add: waits_at_def)
      moreover have "ws_registration (wq_slots q' ! i) = None" using waits_at_index [OF less.prems(1)] \<open>?j = i\<close> by (simp add: q')
      then have "c \<noteq> Wc_none" using less.prems(3) by simp
      ultimately show False using complete_at_done [of "wq_slots q ! ?j" r c g s] less.prems(5) by (simp add: g')
    qed
    have "(?j + 1) mod ?n + (d - Suc a) = (wq_oldest q + a + 1) mod ?n + (d - Suc a)" by (simp add: mod_Suc_eq)
    then have "((?j + 1) mod ?n + (d - Suc a)) mod ?n = (wq_oldest q + a + 1 + (d - Suc a)) mod ?n"
      by (simp add: mod_add_left_eq)
    also have "\<dots> = (wq_oldest q + d) mod ?n" using ad [OF ji] by simp
    finally have "((?j + 1) mod ?n + (d - Suc a)) mod ?n = i" using less.prems(1) by (simp add: waits_at_def)
    moreover have "d - Suc a < ?n" using less.prems(1) by (auto simp: waits_at_def)
    ultimately have "waits_at q' g' i r t (d - Suc a)"
      using less.prems(1,5) ji ad [OF ji] by (simp add: waits_at_def q')
    then show ?thesis using b ad [OF ji] by (intro conjI exI [of _ "d - Suc a"]) simp_all
  qed
qed

lemma wait_exec_bypass:
  assumes ok: "queue_ok q" and w: "waits_at q g i r t d" and x: "wait_exec x (q, g) = (q', g')"
    and p: "registration_pending (g' r) t" and c: "\<not> abandons x (q, g) i"
  shows "\<exists>d'. waits_at q' g' i r t d' \<and> d' + wakes_in [x] (q, g) \<le> d"
proof (cases x)
  case (Q_wake s k)
  obtain b where b: "wake_one q g s k = (b, q', g')" using x Q_wake by (cases "wake_one q g s k") auto
  have "slot_live g' (wq_slots q ! i)" using w p by (simp add: waits_at_def slot_live_def)
  then have "\<not> (k = Wc_none \<and> ws_registration (wq_slots q' ! i) = None)" using c x by (auto simp: abandons_def Q_wake)
  from wake_scan_bypass [OF w le0 this b [unfolded wake_one_def wake_order_def] p]
  obtain d' where "d' < d" "waits_at q' g' i r t d'" by blast
  then show ?thesis using Q_wake b by auto
next
  case (Q_notify v)
  obtain m where m: "queue_notify q g (run_visitor v) = (m, q', g')"
    using x Q_notify by (cases "queue_notify q g (run_visitor v)") auto
  have "slot_live g' (wq_slots q ! i)" using w p by (simp add: waits_at_def slot_live_def)
  then have "ws_registration (wq_slots q' ! i) \<noteq> None" using c x by (auto simp: abandons_def Q_notify)
  from notify_scan_keeps [OF w ok _ m [unfolded queue_notify_def] this p]
  show ?thesis using Q_notify by (auto simp: wake_order_set)
next
  case (Q_prepare n owner thread)
  have "waits_at q' g i r t d" using x w Q_prepare waits_at_attach [OF w]
    by (auto simp: queue_prepare_def split: if_splits prod.splits sum.splits option.splits)
  from waits_at_store [OF this, of g'] p show ?thesis using Q_prepare by auto
next
  case (Q_enlist n)
  have w1: "waits_at (snd (queue_prune q g)) g i r t d" unfolding queue_prune_def by (rule waits_at_prune [OF w])
  then show ?thesis using x w Q_enlist waits_at_attach [OF w1]
    by (auto simp: queue_enlist_def split: if_splits prod.splits option.splits)
next
  case (Q_cancel k)
  show ?thesis
  proof (cases "first_index (\<lambda>s. slot_live g s \<and> ws_ticket s = k) (wq_slots q)")
    case (Some j)
    have q': "q' = queue_detach q j" "g' = complete_at g (wq_slots q ! j) Wc_cancelled Ws_thread"
      using x Q_cancel Some by (auto simp: queue_cancel_def)
    have "j \<noteq> i"
    proof
      assume "j = i"
      then have "ws_registration (wq_slots q ! j) = Some r" "ws_ticket (wq_slots q ! j) = t" using w by (simp_all add: waits_at_def)
      from complete_at_done [OF this(1), of Wc_cancelled g Ws_thread] this(2) p show False by (simp add: q'(2))
    qed
    from waits_at_store [OF waits_at_detach [OF w this], of g'] p show ?thesis using Q_cancel by (auto simp: q'(1))
  qed (use x w Q_cancel in \<open>auto simp: queue_cancel_def simp del: first_index_None\<close>)
next
  case Q_prune
  have "waits_at (snd (queue_prune q g)) g i r t d" unfolding queue_prune_def by (rule waits_at_prune [OF w])
  then show ?thesis using x Q_prune by auto
qed (use x w waits_at_store [OF w, of g'] p in auto)

lemma wait_run_ok:
  assumes "queue_ok q" and "fold wait_exec xs (q, g) = (q', g')"
  shows "queue_ok q' \<and> length (wq_slots q') = length (wq_slots q) \<and> store_step\<^sup>*\<^sup>* g g'"
  using assms
proof (induction xs arbitrary: q g)
  case (Cons x xs)
  obtain q1 g1 where x: "wait_exec x (q, g) = (q1, g1)" by (cases "wait_exec x (q, g)")
  from wait_exec_ok [OF Cons.prems(1) x] Cons.IH [of q1 g1] Cons.prems(2) x show ?case by (auto intro: rtranclp_trans)
qed simp

lemma wait_run_bypass:
  assumes "queue_ok q" and "waits_at q g i r t d" and "fold wait_exec xs (q, g) = (q', g')"
    and "registration_pending (g' r) t" and "\<not> abandoned xs (q, g) i"
  shows "wakes_in xs (q, g) \<le> d"
  using assms
proof (induction xs arbitrary: q g d)
  case (Cons x xs)
  obtain q1 g1 where x: "wait_exec x (q, g) = (q1, g1)" by (cases "wait_exec x (q, g)")
  have rest: "fold wait_exec xs (q1, g1) = (q', g')" using Cons.prems(3) x by simp
  note ok = wait_exec_ok [OF Cons.prems(1) x]
  have pend: "registration_pending (g1 r) t"
    using still_pending [of g g1 g' r t] ok wait_run_ok [OF _ rest] Cons.prems(2,4) by (simp add: waits_at_def)
  obtain d' where d: "waits_at q1 g1 i r t d'" "d' + wakes_in [x] (q, g) \<le> d"
    using wait_exec_bypass [OF Cons.prems(1,2) x pend] Cons.prems(5) by auto
  have "wakes_in xs (q1, g1) \<le> d'" using Cons.IH [OF _ d(1) rest Cons.prems(4)] ok Cons.prems(5) x by auto
  then show ?case using d(2) x by simp
qed simp

lemma queue_new_ok: "queue_ok (queue_new n)"
  by (simp add: queue_ok_def queue_new_def occupied_def empty_slot_def)

definition registrations_new :: wait_store where
  "registrations_new = (\<lambda>_. registration_new)"

text \<open>
  C3: No waiter starves. In a queue of n slots, after any history, take a registration that
  waits in some slot. Whatever operations on the queue and on registrations follow, once
  \<open>wake_one\<close> has woken n waiters, that registration's wait has been completed, unless the
  entry was abandoned on the way: a visitor of \<open>notify()\<close> had it dropped, or a wake with
  completion \<open>none\<close> took it, without completing the wait.
\<close>

theorem waiter_not_starved:
  assumes "fold wait_exec xs (queue_new n, registrations_new) = (q, g)"
    and "i < n" and "wq_slots q ! i = \<lparr>ws_registration = Some r, ws_ticket = t\<rparr>"
    and "registration_pending (g r) t" and "fold wait_exec ys (q, g) = (q', g')"
    and "n \<le> wakes_in ys (q, g)"
  shows "\<not> registration_pending (g' r) t \<or> abandoned ys (q, g) i"
proof (rule ccontr)
  assume "\<not> (\<not> registration_pending (g' r) t \<or> abandoned ys (q, g) i)"
  then have p: "registration_pending (g' r) t" and na: "\<not> abandoned ys (q, g) i" by simp_all
  have ok: "queue_ok q" "length (wq_slots q) = n"
    using wait_run_ok [OF queue_new_ok assms(1)] by (simp_all add: queue_new_def)
  have "\<exists>d. d < n \<and> (wq_oldest q + d) mod n = i"
    using wake_order_set [of q] assms(2) unfolding wake_order_def ok(2)
    by (metis (no_types, lifting) atLeastLessThan_iff imageE lessThan_iff list.set_map set_upt)
  then obtain d where d: "d < n" "(wq_oldest q + d) mod n = i" by blast
  then have "waits_at q g i r t d" using assms(3,4) ok(2) by (simp add: waits_at_def)
  from wait_run_bypass [OF ok(1) this assms(5) p na] show False using d(1) assms(6) by simp
qed

theorem waiter_not_starved_witness:
  "let st = fold wait_exec [Q_prepare 0 1 1, Q_prepare 1 1 2] (queue_new 2, registrations_new);
       ys = [Q_wake Ws_thread Wc_ready, Q_prepare 2 1 3, Q_notify (\<lambda>t g. (wt_thread t = 3, [])), Q_prepare 3 1 4,
         Q_wake Ws_timer Wc_ready]
   in \<not> registration_pending (snd (fold wait_exec ys st) 1) \<lparr>wt_owner = 1, wt_thread = 2, wt_generation = 1\<rparr>"
proof -
  let ?st = "fold wait_exec [Q_prepare 0 1 1, Q_prepare 1 1 2] (queue_new 2, registrations_new)"
  let ?ys = "[Q_wake Ws_thread Wc_ready, Q_prepare 2 1 3, Q_notify (\<lambda>t g. (wt_thread t = 3, [])), Q_prepare 3 1 4,
         Q_wake Ws_timer Wc_ready]"
  let ?t = "\<lparr>wt_owner = 1, wt_thread = 2, wt_generation = 1\<rparr> :: wait_ticket"
  have e: "?st = (fst ?st, snd ?st)" "fold wait_exec ?ys (fst ?st, snd ?st) =
      (fst (fold wait_exec ?ys (fst ?st, snd ?st)), snd (fold wait_exec ?ys (fst ?st, snd ?st)))" by simp_all
  have "wq_slots (fst ?st) ! 1 = \<lparr>ws_registration = Some 1, ws_ticket = ?t\<rparr>" "registration_pending (snd ?st 1) ?t"
    "2 \<le> wakes_in ?ys (fst ?st, snd ?st)" by code_simp+
  moreover have "\<not> abandoned ?ys (fst ?st, snd ?st) 1" by code_simp
  ultimately show ?thesis using waiter_not_starved [OF e(1) _ _ _ e(2), of 1 1 ?t] by (simp add: Let_def)
qed

text \<open>
  C32: \<open>wake_all\<close> returns: the loop of \<open>wake_one\<close> calls ends, at most one round per slot, with
  every slot of the queue empty and the count of waiters zero.
\<close>

theorem wake_all_drains:
  assumes "fold wait_exec xs (queue_new n, registrations_new) = (q, g)"
  shows "\<exists>w q' g'. wake_all q g s c = Some (w, q', g') \<and> w \<le> wq_count q \<and> wq_count q' = 0
    \<and> (\<forall>x\<in>set (wq_slots q'). ws_registration x = None)"
proof -
  have ok: "queue_ok q" using wait_run_ok [OF queue_new_ok assms] by simp
  have "occupied q < length (wq_slots q) + 1" by (simp add: occupied_def count_if_le le_imp_less_Suc)
  from wake_loop_drains [OF ok this, of g s c 0] show ?thesis
    using ok by (auto simp: wake_all_def queue_ok_def) (auto simp: occupied_def count_if_zero_iff)
qed

theorem wake_all_drains_witness:
  "\<exists>w q' g'. wake_all (fst (fold wait_exec [Q_prepare 0 1 1] (queue_new 2, registrations_new)))
     (snd (fold wait_exec [Q_prepare 0 1 1] (queue_new 2, registrations_new))) Ws_thread Wc_ready = Some (w, q', g')
     \<and> wq_count q' = 0"
  using wake_all_drains [OF prod.collapse [symmetric], of "[Q_prepare 0 1 1]" 2 Ws_thread Wc_ready] by blast

section \<open>The order of waking\<close>






end
