(* ===== verification/OK_Signals.thy ===== *)
theory OK_Signals
  imports OK_Prelude
begin

text \<open>
  Signals: the mask of \<^verbatim>\<open>sched/signal_mask.hpp\<close>, the disposition table of
  \<^verbatim>\<open>sched/signal_action.hpp\<close>, the alternate stack of \<^verbatim>\<open>sched/signal_altstack.hpp\<close>, the exit status
  of \<^verbatim>\<open>sched/child_exit.hpp\<close> and the pending queue of \<^verbatim>\<open>sched/pending_signals.hpp\<close>. Signal numbers
  and process identities are unsigned 32-bit values that are only compared and used as indices,
  and are natural numbers here; codes, statuses, timers and overruns are signed and are integers.
\<close>

unbundle bit_operations_syntax

section \<open>Signal masks\<close>

record signal_mask =
  sm_words :: "u64 list"

definition mask_new :: signal_mask where
  "mask_new = \<lparr>sm_words = [0, 0]\<rparr>"

definition mask_contains :: "signal_mask \<Rightarrow> nat \<Rightarrow> bool" where
  "mask_contains m signal \<longleftrightarrow> signal \<ge> 1 \<and> signal \<le> 128
     \<and> sm_words m ! ((signal - 1) div 64) AND push_bit ((signal - 1) mod 64) 1 \<noteq> 0"

definition mask_set :: "signal_mask \<Rightarrow> nat \<Rightarrow> bool \<Rightarrow> signal_mask" where
  "mask_set m signal blocked =
     (if signal < 1 \<or> signal > 128 then m
      else (let b = push_bit ((signal - 1) mod 64) 1; w = (signal - 1) div 64 in
        m\<lparr>sm_words := (sm_words m)[w := (if blocked then sm_words m ! w OR b else sm_words m ! w AND NOT b)]\<rparr>))"

section \<open>Dispositions\<close>

record signal_action =
  sa_handler :: u64
  sa_flags :: u64
  sa_restorer :: u64
  sa_mask :: signal_mask

definition default_handler :: u64 where
  "default_handler = 0"

definition ignored_handler :: u64 where
  "ignored_handler = 1"

definition action_new :: signal_action where
  "action_new = \<lparr>sa_handler = default_handler, sa_flags = 0, sa_restorer = 0, sa_mask = mask_new\<rparr>"

record action_table =
  at_actions :: "signal_action list"

definition action_capacity :: nat where
  "action_capacity = 128"

definition table_new :: action_table where
  "table_new = \<lparr>at_actions = replicate action_capacity action_new\<rparr>"

definition table_find :: "action_table \<Rightarrow> nat \<Rightarrow> signal_action option" where
  "table_find t signal = (if signal \<ge> 1 \<and> signal \<le> action_capacity then Some (at_actions t ! (signal - 1)) else None)"

definition fork_copy :: "action_table \<Rightarrow> action_table" where
  "fork_copy t = t"

definition reset_for_exec :: "action_table \<Rightarrow> bool \<Rightarrow> action_table" where
  "reset_for_exec t force_default =
     t\<lparr>at_actions := map (\<lambda>a. let ignored = \<not> force_default \<and> sa_handler a = ignored_handler
         in if ignored then action_new\<lparr>sa_handler := ignored_handler\<rparr> else action_new) (at_actions t)\<rparr>"

section \<open>Alternate stacks\<close>

record signal_altstack =
  ss_base :: u64
  ss_size :: u64
  ss_flags :: u32

definition ss_onstack :: u32 where
  "ss_onstack = 1"

definition ss_disable :: u32 where
  "ss_disable = 2"

definition ss_autodisarm :: u32 where
  "ss_autodisarm = 0x80000000"

definition altstack_new :: signal_altstack where
  "altstack_new = \<lparr>ss_base = 0, ss_size = 0, ss_flags = ss_disable\<rparr>"

definition physically_contains :: "signal_altstack \<Rightarrow> u64 \<Rightarrow> bool" where
  "physically_contains a sp \<longleftrightarrow> sp > ss_base a \<and> sp - ss_base a \<le> ss_size a"

definition on_stack :: "signal_altstack \<Rightarrow> u64 \<Rightarrow> bool" where
  "on_stack a sp \<longleftrightarrow> ss_flags a AND ss_autodisarm = 0 \<and> physically_contains a sp"

definition altstack_status :: "signal_altstack \<Rightarrow> u64 \<Rightarrow> u32" where
  "altstack_status a sp = (if ss_size a = 0 then ss_disable else if on_stack a sp then ss_onstack else 0)"

definition altstack_query :: "signal_altstack \<Rightarrow> u64 \<Rightarrow> signal_altstack" where
  "altstack_query a sp = \<lparr>ss_base = ss_base a, ss_size = ss_size a,
     ss_flags = altstack_status a sp OR (ss_flags a AND ss_autodisarm)\<rparr>"

definition altstack_apply ::
  "signal_altstack \<Rightarrow> signal_altstack \<Rightarrow> u64 \<Rightarrow> u64 \<Rightarrow> (u64 \<Rightarrow> bool) \<Rightarrow> int \<times> signal_altstack" where
  "altstack_apply a requested sp minimum valid =
     (if on_stack a sp then (- 1, a)
      else (let mode = ss_flags requested AND NOT ss_autodisarm in
        if mode \<noteq> ss_disable \<and> mode \<noteq> ss_onstack \<and> mode \<noteq> 0 then (- 22, a)
        else if a = requested then (0, a)
        else if mode = ss_disable then (0, requested\<lparr>ss_base := 0, ss_size := 0\<rparr>)
        else if ss_size requested < minimum \<or> \<not> valid (ss_size requested) then (- 12, a)
        else (0, requested)))"

definition altstack_reset :: "signal_altstack \<Rightarrow> signal_altstack" where
  "altstack_reset a = altstack_new"

definition clear_for_exec :: "signal_altstack \<Rightarrow> signal_altstack" where
  "clear_for_exec a = a\<lparr>ss_base := 0, ss_size := 0\<rparr>"

definition copy_for_clone :: "signal_altstack \<Rightarrow> bool \<Rightarrow> bool \<Rightarrow> signal_altstack" where
  "copy_for_clone a shares_vm vfork = (if shares_vm \<and> \<not> vfork then altstack_new else a)"

definition disarm_after_frame_commit :: "signal_altstack \<Rightarrow> signal_altstack" where
  "disarm_after_frame_commit a = (if ss_flags a AND ss_autodisarm \<noteq> 0 then altstack_reset a else a)"

section \<open>Exit status\<close>

record child_exit_status =
  ce_code :: int
  ce_status :: nat

definition exit_none :: child_exit_status where
  "exit_none = \<lparr>ce_code = 0, ce_status = 0\<rparr>"

definition exit_normal :: "int \<Rightarrow> child_exit_status" where
  "exit_normal status = \<lparr>ce_code = 1, ce_status = unat ((word_of_int status :: u32) AND 0xff)\<rparr>"

definition exit_signaled :: "nat \<Rightarrow> child_exit_status" where
  "exit_signaled signal = (if signal \<noteq> 0 \<and> signal \<le> 128 then \<lparr>ce_code = 2, ce_status = signal\<rparr> else exit_none)"

definition exit_valid :: "child_exit_status \<Rightarrow> nat \<Rightarrow> bool" where
  "exit_valid e maximum \<longleftrightarrow> (maximum = 64 \<or> maximum = 128)
     \<and> ((ce_code e = 1 \<and> ce_status e \<le> 255) \<or> (ce_code e = 2 \<and> ce_status e \<noteq> 0 \<and> ce_status e \<le> maximum))"

section \<open>Pending signals\<close>

record pending_info =
  pi_signal :: nat
  pi_code :: int
  pi_sender_pid :: nat
  pi_sender_uid :: nat
  pi_child_status :: int
  pi_timer :: int
  pi_overrun :: int
  pi_value :: u64

definition timer_code :: "nat \<Rightarrow> int" where
  "timer_code maximum = (if maximum = 128 then - 3 else - 2)"

definition child_signal :: "nat \<Rightarrow> nat" where
  "child_signal maximum = (if maximum = 128 then 18 else 17)"

definition info_valid :: "pending_info \<Rightarrow> nat \<Rightarrow> bool" where
  "info_valid i maximum \<longleftrightarrow>
     (if (maximum \<noteq> 64 \<and> maximum \<noteq> 128) \<or> pi_signal i = 0 \<or> pi_signal i > maximum then False
      else if pi_code i = timer_code maximum
      then pi_sender_pid i = 0 \<and> pi_sender_uid i = 0 \<and> pi_child_status i = 0 \<and> pi_timer i \<ge> 0 \<and> pi_overrun i \<ge> 0
      else if pi_timer i \<noteq> 0 \<or> pi_overrun i \<noteq> 0 \<or> pi_value i \<noteq> 0 then False
      else if pi_code i = 0 \<or> pi_code i = - 6 then pi_child_status i = 0
      else if pi_code i = 128 then pi_sender_pid i = 0 \<and> pi_sender_uid i = 0 \<and> pi_child_status i = 0
      else if pi_signal i \<noteq> child_signal maximum \<or> pi_sender_pid i = 0 \<or> pi_sender_pid i > 0x7fffffff then False
      else (pi_code i = 1 \<and> pi_child_status i \<ge> 0 \<and> pi_child_status i \<le> 255)
        \<or> (pi_code i = 2 \<and> pi_child_status i > 0 \<and> pi_child_status i \<le> int maximum))"

text \<open>The template parameters of the queue.\<close>

record signal_profile =
  sp_maximum :: nat
  sp_capacity :: nat
  sp_sequences :: u64

record signal_identity =
  si_process :: u64
  si_thread :: u64
  si_generation :: u64

definition no_identity :: signal_identity where
  "no_identity = \<lparr>si_process = 0, si_thread = 0, si_generation = 0\<rparr>"

record signal_entry =
  se_sequence :: u64
  se_info :: pending_info

definition no_info :: pending_info where
  "no_info = \<lparr>pi_signal = 0, pi_code = 0, pi_sender_pid = 0, pi_sender_uid = 0, pi_child_status = 0,
     pi_timer = 0, pi_overrun = 0, pi_value = 0\<rparr>"

definition no_entry :: signal_entry where
  "no_entry = \<lparr>se_sequence = 0, se_info = no_info\<rparr>"

text \<open>
  A queue and its address. The list of realtime records is the filled prefix of the array, so
  its length is the code's count.
\<close>

record pending_signals =
  ps_self :: nat
  ps_owner :: signal_identity
  ps_next_sequence :: u64
  ps_normal_mask :: signal_mask
  ps_normal :: "signal_entry list"
  ps_realtime :: "signal_entry list"

record signal_delivery =
  sd_owner :: signal_identity
  sd_sequence :: u64
  sd_info :: pending_info
  sd_queue :: nat

datatype enqueue_result = Eq_queued | Eq_coalesced | Eq_full | Eq_invalid

definition signals_new :: "nat \<Rightarrow> pending_signals" where
  "signals_new self = \<lparr>ps_self = self, ps_owner = no_identity, ps_next_sequence = 0, ps_normal_mask = mask_new,
     ps_normal = replicate 31 no_entry, ps_realtime = []\<rparr>"

definition signals_drained :: "pending_signals \<Rightarrow> signal_identity \<Rightarrow> pending_signals" where
  "signals_drained q owner = q\<lparr>ps_owner := owner, ps_normal := replicate 31 no_entry, ps_realtime := [],
     ps_normal_mask := mask_new\<rparr>"

definition signals_reset :: "pending_signals \<Rightarrow> signal_identity \<Rightarrow> bool \<times> pending_signals" where
  "signals_reset q identity =
     (if si_process identity = 0 \<or> si_thread identity = 0 \<or> si_generation identity = 0 then (False, q)
      else (True, signals_drained q identity))"

definition signals_retire :: "pending_signals \<Rightarrow> pending_signals" where
  "signals_retire q = signals_drained q no_identity"

definition enqueue_checked :: "signal_profile \<Rightarrow> pending_signals \<Rightarrow> pending_info \<Rightarrow> enqueue_result \<times> pending_signals" where
  "enqueue_checked p q info =
     (if si_process (ps_owner q) = 0 \<or> pi_signal info = 0 \<or> pi_signal info > sp_maximum p then (Eq_invalid, q)
      else if pi_signal info < 32 \<and> mask_contains (ps_normal_mask q) (pi_signal info) then (Eq_coalesced, q)
      else if (pi_signal info \<ge> 32 \<and> length (ps_realtime q) = sp_capacity p) \<or> ps_next_sequence q = sp_sequences p
      then (Eq_full, q)
      else (let entry = \<lparr>se_sequence = ps_next_sequence q + 1, se_info = info\<rparr>;
                q1 = q\<lparr>ps_next_sequence := ps_next_sequence q + 1\<rparr> in
        (Eq_queued,
         if pi_signal info < 32
         then q1\<lparr>ps_normal := (ps_normal q)[pi_signal info - 1 := entry],
                 ps_normal_mask := mask_set (ps_normal_mask q) (pi_signal info) True\<rparr>
         else q1\<lparr>ps_realtime := ps_realtime q @ [entry]\<rparr>)))"

definition signals_enqueue :: "signal_profile \<Rightarrow> pending_signals \<Rightarrow> pending_info \<Rightarrow> enqueue_result \<times> pending_signals" where
  "signals_enqueue p q info =
     (if (pi_code info \<noteq> 0 \<and> pi_code info \<noteq> - 6) \<or> \<not> info_valid info (sp_maximum p) then (Eq_invalid, q)
      else enqueue_checked p q info)"

definition enqueue_kernel :: "signal_profile \<Rightarrow> pending_signals \<Rightarrow> nat \<Rightarrow> enqueue_result \<times> pending_signals" where
  "enqueue_kernel p q signal = enqueue_checked p q (no_info\<lparr>pi_signal := signal, pi_code := 128\<rparr>)"

definition enqueue_timer ::
  "signal_profile \<Rightarrow> pending_signals \<Rightarrow> nat \<Rightarrow> int \<Rightarrow> int \<Rightarrow> u64 \<Rightarrow> enqueue_result \<times> pending_signals" where
  "enqueue_timer p q signal timer overrun v =
     (let info = no_info\<lparr>pi_signal := signal, pi_code := timer_code (sp_maximum p), pi_timer := timer,
        pi_overrun := overrun, pi_value := v\<rparr>
      in if info_valid info (sp_maximum p) then enqueue_checked p q info else (Eq_invalid, q))"

definition enqueue_child_exit ::
  "signal_profile \<Rightarrow> pending_signals \<Rightarrow> child_exit_status \<Rightarrow> nat \<Rightarrow> nat \<Rightarrow> enqueue_result \<times> pending_signals" where
  "enqueue_child_exit p q status pid uid =
     (if \<not> exit_valid status (sp_maximum p) then (Eq_invalid, q)
      else (let info = no_info\<lparr>pi_signal := child_signal (sp_maximum p), pi_code := ce_code status,
              pi_sender_pid := pid, pi_sender_uid := uid, pi_child_status := int (ce_status status)\<rparr>
            in if info_valid info (sp_maximum p) then enqueue_checked p q info else (Eq_invalid, q)))"

definition synchronous_signals :: "nat \<Rightarrow> u64" where
  "synchronous_signals maximum = push_bit 3 1 OR push_bit 4 1 OR push_bit 7 1 OR push_bit 10 1
     OR push_bit (if maximum = 128 then 9 else 6) 1 OR push_bit (if maximum = 128 then 11 else 30) 1"

definition eligible_normal :: "signal_profile \<Rightarrow> pending_signals \<Rightarrow> signal_mask \<Rightarrow> u64" where
  "eligible_normal p q blocked =
     (let eligible = sm_words (ps_normal_mask q) ! 0 AND NOT (sm_words blocked ! 0);
          synchronous = synchronous_signals (sp_maximum p)
      in if eligible AND synchronous \<noteq> 0 then eligible AND synchronous else eligible)"

definition delivery_of :: "pending_signals \<Rightarrow> signal_entry \<Rightarrow> signal_delivery" where
  "delivery_of q e = \<lparr>sd_owner = ps_owner q, sd_sequence = se_sequence e, sd_info = se_info e, sd_queue = ps_self q\<rparr>"

definition choose_realtime :: "signal_entry list \<Rightarrow> signal_mask \<Rightarrow> nat" where
  "choose_realtime rt blocked =
     fold (\<lambda>i chosen. if \<not> mask_contains blocked (pi_signal (se_info (rt ! i)))
           \<and> (chosen = length rt \<or> pi_signal (se_info (rt ! i)) < pi_signal (se_info (rt ! chosen)))
         then i else chosen) [0..<length rt] (length rt)"

definition signals_peek :: "signal_profile \<Rightarrow> pending_signals \<Rightarrow> signal_mask \<Rightarrow> signal_delivery option" where
  "signals_peek p q blocked =
     (let eligible = eligible_normal p q blocked in
      case find (\<lambda>signal. eligible AND push_bit (signal - 1) 1 \<noteq> 0) [1..<32] of
        Some signal \<Rightarrow> Some (delivery_of q (ps_normal q ! (signal - 1)))
      | None \<Rightarrow>
          (let chosen = choose_realtime (ps_realtime q) blocked in
           if chosen = length (ps_realtime q) then None
           else Some (delivery_of q (ps_realtime q ! chosen))))"

definition entry_matches :: "signal_entry \<Rightarrow> signal_delivery \<Rightarrow> bool" where
  "entry_matches e t \<longleftrightarrow> se_sequence e = sd_sequence t \<and> se_info e = sd_info t"

definition erase_realtime :: "pending_signals \<Rightarrow> nat \<Rightarrow> pending_signals" where
  "erase_realtime q i = q\<lparr>ps_realtime := take i (ps_realtime q) @ drop (Suc i) (ps_realtime q)\<rparr>"

definition clear_normal :: "pending_signals \<Rightarrow> nat \<Rightarrow> pending_signals" where
  "clear_normal q signal = q\<lparr>ps_normal_mask := mask_set (ps_normal_mask q) signal False,
     ps_normal := (ps_normal q)[signal - 1 := no_entry]\<rparr>"

definition signals_consume :: "signal_profile \<Rightarrow> pending_signals \<Rightarrow> signal_delivery \<Rightarrow> bool \<times> pending_signals" where
  "signals_consume p q t =
     (if sd_queue t \<noteq> ps_self q \<or> sd_owner t \<noteq> ps_owner q \<or> sd_sequence t = 0
         \<or> pi_signal (sd_info t) = 0 \<or> pi_signal (sd_info t) > sp_maximum p then (False, q)
      else if pi_signal (sd_info t) < 32
      then (if \<not> mask_contains (ps_normal_mask q) (pi_signal (sd_info t))
               \<or> \<not> entry_matches (ps_normal q ! (pi_signal (sd_info t) - 1)) t then (False, q)
            else (True, clear_normal q (pi_signal (sd_info t))))
      else (case first_index (\<lambda>e. entry_matches e t) (ps_realtime q) of
          Some i \<Rightarrow> (True, erase_realtime q i)
        | None \<Rightarrow> (False, q)))"

text \<open>Where the record of a timer is: its slot in the normal array or in the realtime list.\<close>

datatype entry_place = In_normal nat | In_realtime nat

definition find_timer :: "signal_profile \<Rightarrow> pending_signals \<Rightarrow> nat \<Rightarrow> int \<Rightarrow> entry_place option" where
  "find_timer p q signal timer =
     (let code = timer_code (sp_maximum p) in
      if signal = 0 \<or> signal > sp_maximum p then None
      else if signal < 32
      then (let e = ps_normal q ! (signal - 1) in
        if mask_contains (ps_normal_mask q) signal \<and> pi_code (se_info e) = code \<and> pi_timer (se_info e) = timer
        then Some (In_normal (signal - 1)) else None)
      else map_option In_realtime (first_index (\<lambda>e. pi_signal (se_info e) = signal \<and> pi_code (se_info e) = code
             \<and> pi_timer (se_info e) = timer) (ps_realtime q)))"

definition timer_queued :: "signal_profile \<Rightarrow> pending_signals \<Rightarrow> nat \<Rightarrow> int \<Rightarrow> bool" where
  "timer_queued p q signal timer \<longleftrightarrow> find_timer p q signal timer \<noteq> None"

definition set_overrun :: "int \<Rightarrow> signal_entry \<Rightarrow> signal_entry" where
  "set_overrun overrun e = e\<lparr>se_info := (se_info e)\<lparr>pi_overrun := overrun\<rparr>\<rparr>"

definition refresh_timer :: "signal_profile \<Rightarrow> pending_signals \<Rightarrow> nat \<Rightarrow> int \<Rightarrow> int \<Rightarrow> bool \<times> pending_signals" where
  "refresh_timer p q signal timer overrun =
     (case find_timer p q signal timer of
        None \<Rightarrow> (False, q)
      | Some place \<Rightarrow>
          if overrun < 0 then (False, q)
          else (True, case place of
              In_normal i \<Rightarrow> q\<lparr>ps_normal := (ps_normal q)[i := set_overrun overrun (ps_normal q ! i)]\<rparr>
            | In_realtime i \<Rightarrow> q\<lparr>ps_realtime := (ps_realtime q)[i := set_overrun overrun (ps_realtime q ! i)]\<rparr>))"

definition discard_timer :: "signal_profile \<Rightarrow> pending_signals \<Rightarrow> nat \<Rightarrow> int \<Rightarrow> pending_signals" where
  "discard_timer p q signal timer =
     (case find_timer p q signal timer of
        None \<Rightarrow> q
      | Some (In_normal i) \<Rightarrow> clear_normal q signal
      | Some (In_realtime i) \<Rightarrow> erase_realtime q i)"

text \<open>The loop that erases every matching record of the compacted array: the index only advances
  past records that stay.\<close>

function erase_loop :: "(signal_entry \<Rightarrow> bool) \<Rightarrow> nat \<Rightarrow> pending_signals \<Rightarrow> pending_signals" where
  "erase_loop P i q =
     (if i < length (ps_realtime q)
      then (if P (ps_realtime q ! i) then erase_loop P i (erase_realtime q i) else erase_loop P (Suc i) q)
      else q)"
  by pat_completeness auto
termination
  by (relation "measure (\<lambda>(P, i, q). length (ps_realtime q) - i)") (auto simp: erase_realtime_def)

declare erase_loop.simps [simp del]

definition discard_timers :: "signal_profile \<Rightarrow> pending_signals \<Rightarrow> pending_signals" where
  "discard_timers p q =
     (let code = timer_code (sp_maximum p);
          q1 = fold (\<lambda>signal q. if mask_contains (ps_normal_mask q) signal \<and> pi_code (se_info (ps_normal q ! (signal - 1))) = code
              then clear_normal q signal else q) [1..<32] q
      in erase_loop (\<lambda>e. pi_code (se_info e) = code) 0 q1)"

definition signals_discard :: "signal_profile \<Rightarrow> pending_signals \<Rightarrow> nat \<Rightarrow> pending_signals" where
  "signals_discard p q signal =
     (if signal = 0 \<or> signal > sp_maximum p then q
      else if signal < 32 then clear_normal q signal
      else erase_loop (\<lambda>e. pi_signal (se_info e) = signal) 0 q)"

definition pending_mask :: "pending_signals \<Rightarrow> signal_mask" where
  "pending_mask q = fold (\<lambda>e m. mask_set m (pi_signal (se_info e)) True) (ps_realtime q) (ps_normal_mask q)"

end
