(* ===== verification/OK_Signals_Proofs.thy ===== *)
theory OK_Signals_Proofs
  imports OK_Signals
begin

text \<open>
  Correctness of the pending queue: which signal is delivered next, and that a delivery ticket
  can be spent once.
\<close>

unbundle bit_operations_syntax

section \<open>Masks\<close>

lemma mask_contains_bit:
  "mask_contains m s \<longleftrightarrow> 1 \<le> s \<and> s \<le> 128 \<and> bit (sm_words m ! ((s - 1) div 64)) ((s - 1) mod 64)"
  unfolding mask_contains_def and_bit_nonzero ..

lemma mask_contains_set:
  assumes "length (sm_words m) = 2"
  shows "mask_contains (mask_set m s v) s' \<longleftrightarrow> (if s' = s \<and> 1 \<le> s \<and> s \<le> 128 then v else mask_contains m s')"
proof (cases "1 \<le> s \<and> s \<le> 128")
  case True
  let ?w = "(s - 1) div 64" and ?b = "(s - 1) mod 64" let ?w' = "(s' - 1) div 64" and ?b' = "(s' - 1) mod 64"
  have w: "?w < 2" using True by auto
  have eq: "mask_set m s v = m\<lparr>sm_words := (sm_words m)[?w := if v then set_bit ?b (sm_words m ! ?w) else unset_bit ?b (sm_words m ! ?w)]\<rparr>"
    using True unfolding mask_set_def Let_def or_bit_set and_not_bit_unset by auto
  have b: "?b' < LENGTH(64)" by simp
  have "s' = s \<longleftrightarrow> ?w' = ?w \<and> ?b' = ?b" if "1 \<le> s'"
    using that True by (metis Suc_diff_1 div_mod_decomp less_eq_Suc_le One_nat_def)
  then show ?thesis
    using True w assms b unfolding mask_contains_bit eq
    by (auto simp: nth_list_update bit_set_bit_iff bit_unset_bit_iff)
next
  case False
  then show ?thesis by (auto simp: mask_set_def mask_contains_def)
qed

lemma mask_set_length [simp]: "length (sm_words (mask_set m s v)) = length (sm_words m)"
  by (simp add: mask_set_def Let_def)

interpretation sm: bit_array "\<lambda>m i. mask_contains m (Suc i)" "\<lambda>m i. mask_set m (Suc i)"
  "\<lambda>m. if length (sm_words m) = 2 then 128 else 0"
  by unfold_locales (auto simp: mask_contains_set split: if_splits)

lemma mask_contains_range: "mask_contains m s \<Longrightarrow> 1 \<le> s \<and> s \<le> 128"
  by (simp add: mask_contains_def)

lemma mask_new_contains [simp]: "\<not> mask_contains mask_new s"
proof
  assume s: "mask_contains mask_new s"
  have "(s - 1) div 64 < 2" using mask_contains_range [OF s] by auto
  then have "sm_words mask_new ! ((s - 1) div 64) = 0" by (auto simp: mask_new_def less_2_cases_iff)
  then show False using s unfolding mask_contains_bit by simp
qed

section \<open>The queue invariant\<close>

definition entry_ok :: "signal_profile \<Rightarrow> u64 \<Rightarrow> nat \<Rightarrow> signal_entry \<Rightarrow> bool" where
  "entry_ok p n s e \<longleftrightarrow> pi_signal (se_info e) = s \<and> s \<le> sp_maximum p \<and> se_sequence e \<noteq> 0 \<and> se_sequence e \<le> n"

lemma entry_ok_mono: "entry_ok p n s e \<Longrightarrow> n \<le> n' \<Longrightarrow> entry_ok p n' s e"
  by (auto simp: entry_ok_def)

definition signals_ok :: "signal_profile \<Rightarrow> pending_signals \<Rightarrow> bool" where
  "signals_ok p q \<longleftrightarrow> length (ps_normal q) = 31 \<and> length (sm_words (ps_normal_mask q)) = 2
     \<and> (\<forall>s. mask_contains (ps_normal_mask q) s \<longrightarrow> s < 32 \<and> entry_ok p (ps_next_sequence q) s (ps_normal q ! (s - 1)))
     \<and> (\<forall>e\<in>set (ps_realtime q). 32 \<le> pi_signal (se_info e) \<and> entry_ok p (ps_next_sequence q) (pi_signal (se_info e)) e)
     \<and> length (ps_realtime q) \<le> sp_capacity p \<and> ps_next_sequence q \<le> sp_sequences p
     \<and> sorted_wrt (\<lambda>e f. se_sequence e < se_sequence f) (ps_realtime q)"

lemma signals_ok_new: "signals_ok p (signals_new a)"
  by (simp add: signals_ok_def signals_new_def) (simp add: mask_new_def)

lemma signals_ok_drained: "signals_ok p q \<Longrightarrow> signals_ok p (signals_drained q i)"
  by (simp add: signals_ok_def signals_drained_def) (simp add: mask_new_def)

lemma next_sequence_headroom:
  "signals_ok p q \<Longrightarrow> ps_next_sequence q \<noteq> sp_sequences p \<Longrightarrow> unat (ps_next_sequence q + 1) = Suc (unat (ps_next_sequence q))"
  by (rule unat_Suc_headroom) (metis signals_ok_def word_order.extremum_uniqueI)

lemma signals_ok_enqueue:
  assumes "signals_ok p q"
  shows "signals_ok p (snd (enqueue_checked p q i))"
proof (cases "fst (enqueue_checked p q i) = Eq_queued")
  case False
  then have "snd (enqueue_checked p q i) = q" by (auto simp: enqueue_checked_def Let_def split: if_splits)
  then show ?thesis using assms by simp
next
  case True
  let ?n = "ps_next_sequence q" let ?e = "\<lparr>se_sequence = ?n + 1, se_info = i\<rparr>"
  have g: "pi_signal i \<noteq> 0" "pi_signal i \<le> sp_maximum p" "?n \<noteq> sp_sequences p"
    "32 \<le> pi_signal i \<Longrightarrow> length (ps_realtime q) \<noteq> sp_capacity p"
    using True by (auto simp: enqueue_checked_def Let_def split: if_splits)
  have u: "unat (?n + 1) = Suc (unat ?n)" by (rule next_sequence_headroom [OF assms g(3)])
  have lt: "?n < ?n + 1" unfolding word_less_nat_alt u by simp
  have nz: "?n + 1 \<noteq> 0" using u by (metis nat.distinct(1) unat_0)
  have le: "?n + 1 \<le> sp_sequences p"
    using assms g(3) u by (auto simp: signals_ok_def word_le_nat_alt word_unat_eq_iff)
  have new: "entry_ok p (?n + 1) (pi_signal i) ?e" using g nz by (simp add: entry_ok_def)
  note old = entry_ok_mono [OF _ less_imp_le [OF lt]]
  show ?thesis
  proof (cases "pi_signal i < 32")
    case True
    then have eq: "snd (enqueue_checked p q i) = q\<lparr>ps_next_sequence := ?n + 1, ps_normal := (ps_normal q)[pi_signal i - 1 := ?e],
        ps_normal_mask := mask_set (ps_normal_mask q) (pi_signal i) True\<rparr>"
      using \<open>fst _ = Eq_queued\<close> by (auto simp: enqueue_checked_def Let_def split: if_splits)
    have len: "length (ps_normal q) = 31" "length (sm_words (ps_normal_mask q)) = 2" using assms by (simp_all add: signals_ok_def)
    have "s < 32 \<and> entry_ok p (?n + 1) s ((ps_normal q)[pi_signal i - 1 := ?e] ! (s - 1))"
      if c: "mask_contains (mask_set (ps_normal_mask q) (pi_signal i) True) s" for s
    proof (cases "s = pi_signal i")
      case True
      then show ?thesis using new len \<open>pi_signal i < 32\<close> by simp
    next
      case False
      then have m: "mask_contains (ps_normal_mask q) s" using c by (simp add: mask_contains_set len)
      then have "s - 1 \<noteq> pi_signal i - 1" using False g(1) mask_contains_range [OF m] by linarith
      then show ?thesis using m assms old by (simp add: signals_ok_def)
    qed
    then show ?thesis using assms le old unfolding eq signals_ok_def by simp
  next
    case False
    then have eq: "snd (enqueue_checked p q i) = q\<lparr>ps_next_sequence := ?n + 1, ps_realtime := ps_realtime q @ [?e]\<rparr>"
      using \<open>fst _ = Eq_queued\<close> by (auto simp: enqueue_checked_def Let_def split: if_splits)
    have "se_sequence e < ?n + 1" if "e \<in> set (ps_realtime q)" for e
      using that assms lt by (auto simp: signals_ok_def entry_ok_def intro: le_less_trans)
    then show ?thesis
      using assms False g(4) new le old unfolding eq signals_ok_def by (auto simp: sorted_wrt_append)
  qed
qed

lemma clear_normal_entry:
  assumes "length (sm_words (ps_normal_mask q)) = 2" and "1 \<le> s"
    and "mask_contains (ps_normal_mask (clear_normal q s)) s'"
  shows "s' \<noteq> s \<and> mask_contains (ps_normal_mask q) s' \<and> ps_normal (clear_normal q s) ! (s' - 1) = ps_normal q ! (s' - 1)"
proof -
  have m: "mask_contains (ps_normal_mask q) s'" "s' \<noteq> s"
    using assms(3) mask_contains_range [of "ps_normal_mask q" s']
    by (auto simp: clear_normal_def mask_contains_set assms(1) split: if_splits)
  then have "s' - 1 \<noteq> s - 1" using mask_contains_range [OF m(1)] assms(2) by linarith
  then show ?thesis using m by (simp add: clear_normal_def)
qed

lemma signals_ok_clear:
  assumes "signals_ok p q" and "1 \<le> s"
  shows "signals_ok p (clear_normal q s)"
proof -
  have len: "length (sm_words (ps_normal_mask q)) = 2" using assms by (simp add: signals_ok_def)
  have "s' < 32 \<and> entry_ok p (ps_next_sequence q) s' (ps_normal (clear_normal q s) ! (s' - 1))"
    if "mask_contains (ps_normal_mask (clear_normal q s)) s'" for s'
    using clear_normal_entry [OF len assms(2) that] assms(1) by (simp add: signals_ok_def)
  then show ?thesis using assms(1) by (simp add: signals_ok_def) (simp add: clear_normal_def)
qed

lemma set_erase: "set (take i xs @ drop (Suc i) xs) \<subseteq> set xs"
  by (auto dest: in_set_takeD in_set_dropD)

lemma sorted_wrt_erase: "sorted_wrt R xs \<Longrightarrow> sorted_wrt R (take i xs @ drop (Suc i) xs)"
proof (induction xs arbitrary: i)
  case (Cons x xs)
  then show ?case by (cases i) (auto dest: in_set_takeD in_set_dropD)
qed simp

lemma signals_ok_erase: "signals_ok p q \<Longrightarrow> signals_ok p (erase_realtime q i)"
  using set_erase [of i "ps_realtime q"] sorted_wrt_erase [of _ "ps_realtime q" i]
  by (auto simp: signals_ok_def erase_realtime_def simp del: set_append)

lemma erase_loop_eq:
  "i \<le> length (ps_realtime q) \<Longrightarrow>
   erase_loop P i q = q\<lparr>ps_realtime := take i (ps_realtime q) @ filter (\<lambda>e. \<not> P e) (drop i (ps_realtime q))\<rparr>"
proof (induction P i q rule: erase_loop.induct)
  case (1 P i q)
  let ?rt = "ps_realtime q"
  show ?case
  proof (cases "i < length ?rt")
    case True
    then have d: "drop i ?rt = ?rt ! i # drop (Suc i) ?rt" by (simp add: Cons_nth_drop_Suc)
    show ?thesis
    proof (cases "P (?rt ! i)")
      case P: True
      then show ?thesis using 1(1) [OF True P] True d by (subst erase_loop.simps) (simp add: erase_realtime_def)
    next
      case P: False
      then show ?thesis using 1(2) [OF True P] True d by (subst erase_loop.simps) (simp add: take_Suc_conv_app_nth)
    qed
  next
    case False
    then show ?thesis using 1(3) by (subst erase_loop.simps) simp
  qed
qed

lemma erase_loop_filter: "erase_loop P 0 q = q\<lparr>ps_realtime := filter (\<lambda>e. \<not> P e) (ps_realtime q)\<rparr>"
  by (simp add: erase_loop_eq)

lemma signals_ok_filter:
  "signals_ok p q \<Longrightarrow> signals_ok p (q\<lparr>ps_realtime := filter P (ps_realtime q)\<rparr>)"
  by (auto simp: signals_ok_def intro: sorted_wrt_filter le_trans [OF length_filter_le])

lemma set_overrun_simps [simp]:
  "se_sequence (set_overrun n e) = se_sequence e" "pi_signal (se_info (set_overrun n e)) = pi_signal (se_info e)"
  by (simp_all add: set_overrun_def)

lemma entry_ok_overrun [simp]: "entry_ok p n s (set_overrun k e) = entry_ok p n s e"
  by (simp add: entry_ok_def)

lemma sorted_wrt_overrun:
  "sorted_wrt (\<lambda>e f. se_sequence e < se_sequence f) (xs[i := set_overrun k (xs ! i)])
    = sorted_wrt (\<lambda>e f. se_sequence e < se_sequence f) xs"
proof (cases "i < length xs")
  case True
  then have "map se_sequence (xs[i := set_overrun k (xs ! i)]) = map se_sequence xs"
    by (auto simp: map_update list_update_same_conv)
  then show ?thesis by (metis sorted_wrt_map)
qed (simp add: list_update_beyond)

lemma signals_ok_refresh:
  assumes "signals_ok p q"
  shows "signals_ok p (snd (refresh_timer p q s t n))"
proof -
  have nrm: "signals_ok p (q\<lparr>ps_normal := (ps_normal q)[i := set_overrun n (ps_normal q ! i)]\<rparr>)" for i
    using assms by (cases "i < length (ps_normal q)") (auto simp: signals_ok_def nth_list_update)
  have rt: "signals_ok p (q\<lparr>ps_realtime := (ps_realtime q)[i := set_overrun n (ps_realtime q ! i)]\<rparr>)" for i
  proof (cases "i < length (ps_realtime q)")
    case True
    have "set ((ps_realtime q)[i := set_overrun n (ps_realtime q ! i)]) \<subseteq> insert (set_overrun n (ps_realtime q ! i)) (set (ps_realtime q))"
      by (rule set_update_subset_insert)
    moreover have "ps_realtime q ! i \<in> set (ps_realtime q)" using True by simp
    ultimately show ?thesis using assms by (auto simp: signals_ok_def sorted_wrt_overrun)
  qed (use assms in \<open>simp add: list_update_beyond\<close>)
  show ?thesis using nrm rt assms by (auto simp: refresh_timer_def split: option.split entry_place.split)
qed

lemma find_timer_place:
  "find_timer p q s t = Some (In_normal i) \<Longrightarrow> 1 \<le> s \<and> s < 32 \<and> i = s - 1"
  "find_timer p q s t = Some (In_realtime i) \<Longrightarrow> i < length (ps_realtime q)"
  by (auto simp: find_timer_def Let_def dest: first_indexD split: if_splits)

lemma signals_ok_discard_timer: "signals_ok p q \<Longrightarrow> signals_ok p (discard_timer p q s t)"
  using find_timer_place(1) [of p q s t]
  by (auto simp: discard_timer_def signals_ok_clear signals_ok_erase split: option.split entry_place.split)

section \<open>Tickets\<close>

datatype signal_op =
    Sig_reset signal_identity
  | Sig_retire
  | Sig_enqueue pending_info
  | Sig_kernel nat
  | Sig_timer nat int int u64
  | Sig_child child_exit_status nat nat
  | Sig_consume signal_delivery
  | Sig_refresh nat int int
  | Sig_discard_timer nat int
  | Sig_discard_timers
  | Sig_discard nat

primrec signal_exec :: "signal_profile \<Rightarrow> signal_op \<Rightarrow> pending_signals \<Rightarrow> pending_signals" where
  "signal_exec p (Sig_reset i) q = snd (signals_reset q i)"
| "signal_exec p Sig_retire q = signals_retire q"
| "signal_exec p (Sig_enqueue i) q = snd (signals_enqueue p q i)"
| "signal_exec p (Sig_kernel s) q = snd (enqueue_kernel p q s)"
| "signal_exec p (Sig_timer s t n v) q = snd (enqueue_timer p q s t n v)"
| "signal_exec p (Sig_child e pid uid) q = snd (enqueue_child_exit p q e pid uid)"
| "signal_exec p (Sig_consume t) q = snd (signals_consume p q t)"
| "signal_exec p (Sig_refresh s t n) q = snd (refresh_timer p q s t n)"
| "signal_exec p (Sig_discard_timer s t) q = discard_timer p q s t"
| "signal_exec p Sig_discard_timers q = discard_timers p q"
| "signal_exec p (Sig_discard s) q = signals_discard p q s"

text \<open>The sequence numbers of the records in the queue.\<close>

definition queued :: "pending_signals \<Rightarrow> u64 set" where
  "queued q = {se_sequence (ps_normal q ! (s - 1)) | s. mask_contains (ps_normal_mask q) s} \<union> se_sequence ` set (ps_realtime q)"

definition signal_follows :: "signal_profile \<Rightarrow> pending_signals \<Rightarrow> pending_signals \<Rightarrow> bool" where
  "signal_follows p q q' \<longleftrightarrow> signals_ok p q' \<and> ps_next_sequence q \<le> ps_next_sequence q'
     \<and> queued q' \<subseteq> queued q \<union> {n. ps_next_sequence q < n}"

lemma sig_follows_sub: "signals_ok p q' \<Longrightarrow> ps_next_sequence q' = ps_next_sequence q \<Longrightarrow> queued q' \<subseteq> queued q \<Longrightarrow> signal_follows p q q'"
  by (auto simp: signal_follows_def)

lemma sig_follows_drained: "signals_ok p q \<Longrightarrow> signal_follows p q (signals_drained q i)"
  by (rule sig_follows_sub [OF signals_ok_drained]) (simp_all add: signals_drained_def queued_def)

lemma sig_follows_clear:
  assumes "signals_ok p q" and "1 \<le> s"
  shows "signal_follows p q (clear_normal q s)"
proof (rule sig_follows_sub [OF signals_ok_clear [OF assms]])
  have len: "length (sm_words (ps_normal_mask q)) = 2" using assms by (simp add: signals_ok_def)
  have "ps_realtime (clear_normal q s) = ps_realtime q" by (simp add: clear_normal_def)
  then show "queued (clear_normal q s) \<subseteq> queued q"
    unfolding queued_def using clear_normal_entry [OF len assms(2)] by fastforce
qed (simp add: clear_normal_def)

lemma sig_follows_erase: "signals_ok p q \<Longrightarrow> signal_follows p q (erase_realtime q i)"
  by (rule sig_follows_sub [OF signals_ok_erase])
    (auto simp: queued_def erase_realtime_def dest: in_set_takeD in_set_dropD)

lemma sig_follows_filter: "signals_ok p q \<Longrightarrow> signal_follows p q (erase_loop P 0 q)"
  unfolding erase_loop_filter by (rule sig_follows_sub [OF signals_ok_filter]) (auto simp: queued_def)

lemma sig_follows_refl: "signals_ok p q \<Longrightarrow> signal_follows p q q"
  by (simp add: sig_follows_sub)

lemma sig_follows_trans: "signal_follows p q r \<Longrightarrow> signal_follows p r s \<Longrightarrow> signal_follows p q s"
  unfolding signal_follows_def by (blast intro: order_trans le_less_trans)

lemma sig_follows_refresh:
  assumes "signals_ok p q"
  shows "signal_follows p q (snd (refresh_timer p q s t n))"
proof (rule sig_follows_sub [OF signals_ok_refresh [OF assms]])
  have seq: "map se_sequence (xs[i := set_overrun n (xs ! i)]) = map se_sequence xs" for xs :: "signal_entry list" and i
    by (cases "i < length xs") (simp_all add: map_update list_update_same_conv list_update_beyond)
  have img: "se_sequence ` set (xs[i := set_overrun n (xs ! i)]) = se_sequence ` set xs" for xs i
    using arg_cong [OF seq [of xs i], of set] by simp
  have nth: "se_sequence (xs[i := set_overrun n (xs ! i)] ! j) = se_sequence (xs ! j)" for xs :: "signal_entry list" and i j
    by (cases "i < length xs") (auto simp: nth_list_update list_update_beyond)
  show "queued (snd (refresh_timer p q s t n)) \<subseteq> queued q" "ps_next_sequence (snd (refresh_timer p q s t n)) = ps_next_sequence q"
    by (auto simp: refresh_timer_def queued_def img nth split: option.split entry_place.split)
qed

lemma sig_follows_enqueue:
  assumes "signals_ok p q"
  shows "signal_follows p q (snd (enqueue_checked p q i))"
proof (cases "fst (enqueue_checked p q i) = Eq_queued")
  case False
  then have "snd (enqueue_checked p q i) = q" by (auto simp: enqueue_checked_def Let_def split: if_splits)
  then show ?thesis using sig_follows_refl [OF assms] by simp
next
  case True
  let ?n = "ps_next_sequence q" let ?q = "snd (enqueue_checked p q i)"
  have g: "?n \<noteq> sp_sequences p" "pi_signal i \<noteq> 0" using True by (auto simp: enqueue_checked_def Let_def split: if_splits)
  have u: "unat (?n + 1) = Suc (unat ?n)" by (rule next_sequence_headroom [OF assms g(1)])
  then have lt: "?n < ?n + 1" unfolding word_less_nat_alt by simp
  have nxt: "ps_next_sequence ?q = ?n + 1" using True by (auto simp: enqueue_checked_def Let_def split: if_splits)
  have len: "length (ps_normal q) = 31" "length (sm_words (ps_normal_mask q)) = 2" using assms by (simp_all add: signals_ok_def)
  have "queued ?q \<subseteq> queued q \<union> {?n + 1}"
  proof (cases "pi_signal i < 32")
    case rt: False
    then show ?thesis using True by (auto simp: enqueue_checked_def Let_def queued_def split: if_splits)
  next
    case nm: True
    then have eq: "?q = q\<lparr>ps_next_sequence := ?n + 1, ps_normal := (ps_normal q)[pi_signal i - 1 := \<lparr>se_sequence = ?n + 1, se_info = i\<rparr>],
        ps_normal_mask := mask_set (ps_normal_mask q) (pi_signal i) True\<rparr>"
      using True by (auto simp: enqueue_checked_def Let_def split: if_splits)
    show ?thesis unfolding eq queued_def using len nm
      by (auto simp: mask_contains_set nth_list_update split: if_splits)
  qed
  then show ?thesis using signals_ok_enqueue [OF assms, of i] lt nxt by (auto simp: signal_follows_def)
qed

lemma sig_follows_consume:
  assumes "signals_ok p q"
  shows "signal_follows p q (snd (signals_consume p q t))"
  using sig_follows_refl [OF assms] sig_follows_clear [OF assms, of "pi_signal (sd_info t)"] sig_follows_erase [OF assms]
  by (auto simp: signals_consume_def Suc_le_eq split: option.split)

lemma sig_follows_discard_timer: "signals_ok p q \<Longrightarrow> signal_follows p q (discard_timer p q s t)"
  using find_timer_place(1) [of p q s t] sig_follows_refl [of p q] sig_follows_clear [of p q s] sig_follows_erase [of p q]
  by (auto simp: discard_timer_def split: option.split entry_place.split)

lemma sig_follows_clear_all:
  assumes "signals_ok p q" and "\<forall>s\<in>set ss. 1 \<le> s"
  shows "signal_follows p q (fold (\<lambda>s q. if P s q then clear_normal q s else q) ss q)"
  using assms
proof (induction ss arbitrary: q)
  case (Cons s ss)
  have f: "signal_follows p q (if P s q then clear_normal q s else q)"
    using Cons.prems sig_follows_refl sig_follows_clear by simp
  then have "signals_ok p (if P s q then clear_normal q s else q)" by (simp add: signal_follows_def)
  from sig_follows_trans [OF f Cons.IH [OF this]] Cons.prems(2) show ?case by simp
qed (simp add: sig_follows_refl)

lemma signal_exec_follows: "signals_ok p q \<Longrightarrow> signal_follows p q (signal_exec p x q)"
proof (cases x)
  case Sig_discard_timers
  assume ok: "signals_ok p q"
  let ?P = "\<lambda>s q. mask_contains (ps_normal_mask q) s \<and> pi_code (se_info (ps_normal q ! (s - 1))) = timer_code (sp_maximum p)"
  note f = sig_follows_clear_all [OF ok, of "[1..<32]" ?P]
  from sig_follows_trans [OF f sig_follows_filter] f show ?thesis
    by (simp add: Sig_discard_timers discard_timers_def Let_def signal_follows_def)
qed (simp_all add: signals_reset_def signals_retire_def signals_enqueue_def enqueue_kernel_def enqueue_timer_def
    enqueue_child_exit_def signals_discard_def Let_def sig_follows_drained sig_follows_refl sig_follows_enqueue sig_follows_consume
    sig_follows_refresh sig_follows_discard_timer sig_follows_clear sig_follows_filter)

text \<open>Sequence numbers are never shared: operations other than enqueuing only remove records.\<close>

abbreviation normal_seq :: "pending_signals \<Rightarrow> nat \<Rightarrow> u64" where
  "normal_seq q s \<equiv> se_sequence (ps_normal q ! (s - 1))"

definition seq_ok :: "pending_signals \<Rightarrow> bool" where
  "seq_ok q \<longleftrightarrow> inj_on (normal_seq q) {s. mask_contains (ps_normal_mask q) s}
     \<and> normal_seq q ` {s. mask_contains (ps_normal_mask q) s} \<inter> se_sequence ` set (ps_realtime q) = {}"

definition signal_sub :: "pending_signals \<Rightarrow> pending_signals \<Rightarrow> bool" where
  "signal_sub q q' \<longleftrightarrow> (\<forall>s. mask_contains (ps_normal_mask q') s \<longrightarrow> mask_contains (ps_normal_mask q) s \<and> normal_seq q' s = normal_seq q s)
     \<and> se_sequence ` set (ps_realtime q') \<subseteq> se_sequence ` set (ps_realtime q)"

lemma seq_ok_sub: "seq_ok q \<Longrightarrow> signal_sub q q' \<Longrightarrow> seq_ok q'"
proof -
  assume sq: "seq_ok q" and sub: "signal_sub q q'"
  let ?M = "{s. mask_contains (ps_normal_mask q) s}" and ?M' = "{s. mask_contains (ps_normal_mask q') s}"
  have M: "?M' \<subseteq> ?M" and N: "\<And>s. s \<in> ?M' \<Longrightarrow> normal_seq q' s = normal_seq q s"
    and R: "se_sequence ` set (ps_realtime q') \<subseteq> se_sequence ` set (ps_realtime q)"
    using sub by (auto simp: signal_sub_def)
  have "inj_on (normal_seq q) ?M'" using sq M by (auto simp: seq_ok_def intro: inj_on_subset)
  then have "inj_on (normal_seq q') ?M'" using inj_on_cong [of ?M' "normal_seq q'" "normal_seq q"] N by blast
  moreover have "normal_seq q' ` ?M' \<subseteq> normal_seq q ` ?M" using M N by force
  ultimately show ?thesis using sq R unfolding seq_ok_def by blast
qed

lemma sub_refl: "signal_sub q q"
  by (simp add: signal_sub_def)

lemma sub_trans:
  assumes "signal_sub q r" and "signal_sub r s"
  shows "signal_sub q s"
proof -
  have "se_sequence ` set (ps_realtime s) \<subseteq> se_sequence ` set (ps_realtime q)"
    using assms unfolding signal_sub_def by (elim conjE) (rule subset_trans)
  then show ?thesis using assms by (simp add: signal_sub_def)
qed

lemma sub_drained: "signal_sub q (signals_drained q i)"
  by (simp add: signal_sub_def signals_drained_def)

lemma sub_clear: "signals_ok p q \<Longrightarrow> 1 \<le> s \<Longrightarrow> signal_sub q (clear_normal q s)"
proof -
  assume "signals_ok p q" "1 \<le> s"
  then have len: "length (sm_words (ps_normal_mask q)) = 2" by (simp add: signals_ok_def)
  have "ps_realtime (clear_normal q s) = ps_realtime q" by (simp add: clear_normal_def)
  then show ?thesis using clear_normal_entry [OF len \<open>1 \<le> s\<close>] by (simp add: signal_sub_def)
qed

lemma sub_erase: "signal_sub q (erase_realtime q i)"
  by (auto simp: signal_sub_def erase_realtime_def dest: in_set_takeD in_set_dropD)

lemma sub_filter: "signal_sub q (erase_loop P 0 q)"
  unfolding erase_loop_filter by (auto simp: signal_sub_def)

lemma overrun_same_seq:
  "se_sequence ` set (xs[i := set_overrun n (xs ! i)]) = se_sequence ` set xs"
  "se_sequence (xs[i := set_overrun n (xs ! i)] ! j) = se_sequence (xs ! j)"
proof -
  have "map se_sequence (xs[i := set_overrun n (xs ! i)]) = map se_sequence xs"
    by (cases "i < length xs") (simp_all add: map_update list_update_same_conv list_update_beyond)
  from arg_cong [OF this, of set] show "se_sequence ` set (xs[i := set_overrun n (xs ! i)]) = se_sequence ` set xs" by simp
  show "se_sequence (xs[i := set_overrun n (xs ! i)] ! j) = se_sequence (xs ! j)"
    by (cases "i < length xs") (auto simp: nth_list_update list_update_beyond)
qed

lemma sub_refresh: "signal_sub q (snd (refresh_timer p q s t n))"
  by (auto simp: refresh_timer_def signal_sub_def overrun_same_seq split: option.split entry_place.split)

lemma sub_consume: "signals_ok p q \<Longrightarrow> signal_sub q (snd (signals_consume p q t))"
  using sub_refl sub_clear [of p q "pi_signal (sd_info t)"] sub_erase
  by (auto simp: signals_consume_def Suc_le_eq split: option.split)

lemma sub_discard_timer: "signals_ok p q \<Longrightarrow> signal_sub q (discard_timer p q s t)"
  using find_timer_place(1) [of p q s t] sub_refl sub_clear [of p q s] sub_erase
  by (auto simp: discard_timer_def split: option.split entry_place.split)

lemma sub_clear_all:
  assumes "signals_ok p q" and "\<forall>s\<in>set ss. 1 \<le> s"
  shows "signal_sub q (fold (\<lambda>s q. if P s q then clear_normal q s else q) ss q)"
  using assms
proof (induction ss arbitrary: q)
  case (Cons s ss)
  have "signals_ok p (if P s q then clear_normal q s else q)" using Cons.prems signals_ok_clear by simp
  note IH = Cons.IH [OF this]
  have "signal_sub q (if P s q then clear_normal q s else q)" using Cons.prems sub_refl sub_clear by simp
  from sub_trans [OF this IH] Cons.prems(2) show ?case by simp
qed (simp add: sub_refl)

lemma seq_ok_enqueue:
  assumes ok: "signals_ok p q" and sq: "seq_ok q"
  shows "seq_ok (snd (enqueue_checked p q i))"
proof (cases "fst (enqueue_checked p q i) = Eq_queued")
  case False
  then have "snd (enqueue_checked p q i) = q" by (auto simp: enqueue_checked_def Let_def split: if_splits)
  then show ?thesis using sq by simp
next
  case True
  let ?n = "ps_next_sequence q" let ?q = "snd (enqueue_checked p q i)" let ?M = "{s. mask_contains (ps_normal_mask q) s}"
  have g: "?n \<noteq> sp_sequences p" "pi_signal i \<noteq> 0" using True by (auto simp: enqueue_checked_def Let_def split: if_splits)
  have "unat (?n + 1) = Suc (unat ?n)" by (rule next_sequence_headroom [OF ok g(1)])
  then have lt: "?n < ?n + 1" unfolding word_less_nat_alt by simp
  have old: "x \<noteq> ?n + 1" if "x \<in> normal_seq q ` ?M \<or> x \<in> se_sequence ` set (ps_realtime q)" for x
    using that ok lt by (auto simp: signals_ok_def entry_ok_def)
  show ?thesis
  proof (cases "pi_signal i < 32")
    case rt: False
    then have eq: "?q = q\<lparr>ps_next_sequence := ?n + 1, ps_realtime := ps_realtime q @ [\<lparr>se_sequence = ?n + 1, se_info = i\<rparr>]\<rparr>"
      using True by (auto simp: enqueue_checked_def Let_def split: if_splits)
    show ?thesis using sq old unfolding eq seq_ok_def by auto
  next
    case nm: True
    let ?e = "\<lparr>se_sequence = ?n + 1, se_info = i\<rparr>"
    have eq: "?q = q\<lparr>ps_next_sequence := ?n + 1, ps_normal := (ps_normal q)[pi_signal i - 1 := ?e],
        ps_normal_mask := mask_set (ps_normal_mask q) (pi_signal i) True\<rparr>"
      using True nm by (auto simp: enqueue_checked_def Let_def split: if_splits)
    have len: "length (ps_normal q) = 31" "length (sm_words (ps_normal_mask q)) = 2" using ok by (simp_all add: signals_ok_def)
    have M: "{s. mask_contains (mask_set (ps_normal_mask q) (pi_signal i) True) s} = insert (pi_signal i) ?M"
      using nm g(2) by (auto simp: mask_contains_set len split: if_splits)
    have fresh: "pi_signal i \<notin> ?M" using True nm by (auto simp: enqueue_checked_def split: if_splits)
    define f where "f s = se_sequence ((ps_normal q)[pi_signal i - 1 := ?e] ! (s - 1))" for s
    have here: "f (pi_signal i) = ?n + 1" using len nm by (simp add: f_def)
    have there: "f s = normal_seq q s" if "s \<in> ?M" for s
    proof -
      have "s \<noteq> pi_signal i" "1 \<le> s" using that fresh mask_contains_range by auto
      then have "s - 1 \<noteq> pi_signal i - 1" using g(2) by linarith
      then show ?thesis by (simp add: f_def)
    qed
    have img: "f ` ?M = normal_seq q ` ?M" by (rule image_cong [OF refl there])
    have "inj_on (normal_seq q) ?M" using sq by (simp add: seq_ok_def)
    then have "inj_on f ?M" using inj_on_cong [of ?M f "normal_seq q"] there by blast
    moreover have "?n + 1 \<notin> f ` ?M" unfolding img using old by blast
    ultimately have inj: "inj_on f (insert (pi_signal i) ?M)"
      by (auto simp: inj_on_insert here)
    have "f ` insert (pi_signal i) ?M \<inter> se_sequence ` set (ps_realtime q) = {}"
      unfolding image_insert here img using sq old unfolding seq_ok_def by blast
    moreover have "ps_normal ?q = (ps_normal q)[pi_signal i - 1 := ?e]" "ps_realtime ?q = ps_realtime q"
      "{s. mask_contains (ps_normal_mask ?q) s} = insert (pi_signal i) ?M" unfolding eq by (simp_all add: M)
    ultimately show ?thesis using inj unfolding seq_ok_def by (simp only: f_def [symmetric] simp_thms)
  qed
qed

lemma seq_ok_exec: "signals_ok p q \<Longrightarrow> seq_ok q \<Longrightarrow> seq_ok (signal_exec p x q)"
proof (cases x)
  case Sig_discard_timers
  assume ok: "signals_ok p q" and sq: "seq_ok q"
  let ?P = "\<lambda>s q. mask_contains (ps_normal_mask q) s \<and> pi_code (se_info (ps_normal q ! (s - 1))) = timer_code (sp_maximum p)"
  from seq_ok_sub [OF sq sub_trans [OF sub_clear_all [OF ok, of "[1..<32]" ?P] sub_filter]] show ?thesis
    by (simp add: Sig_discard_timers discard_timers_def Let_def)
qed (auto simp: signals_reset_def signals_retire_def signals_enqueue_def enqueue_kernel_def enqueue_timer_def
    enqueue_child_exit_def signals_discard_def Let_def seq_ok_enqueue Suc_le_eq seq_ok_sub [OF _ sub_drained]
    seq_ok_sub [OF _ sub_consume] seq_ok_sub [OF _ sub_refresh] seq_ok_sub [OF _ sub_discard_timer]
    seq_ok_sub [OF _ sub_clear] seq_ok_sub [OF _ sub_filter])

interpretation signals: generational "\<lambda>q. signals_ok p q \<and> seq_ok q" "\<lambda>q q'. \<exists>x. q' = signal_exec p x q" "\<lambda>q n. n \<in> queued q"
  "\<lambda>q n. unat (ps_next_sequence q)" unat
proof unfold_locales
  fix q q' n
  assume inv: "signals_ok p q \<and> seq_ok q"
  then have ok: "signals_ok p q" by simp
  then have "e \<le> ps_next_sequence q" if "e \<in> queued q" for e
    using that by (auto simp: queued_def signals_ok_def entry_ok_def)
  then show "n \<in> queued q \<Longrightarrow> unat n \<le> unat (ps_next_sequence q)" by (simp add: word_le_nat_alt)
  assume step: "\<exists>x. q' = signal_exec p x q"
  then have f: "signal_follows p q q'" using signal_exec_follows [OF ok] by blast
  then show "signals_ok p q' \<and> seq_ok q'" using step seq_ok_exec inv by (auto simp: signal_follows_def)
  show "unat (ps_next_sequence q) \<le> unat (ps_next_sequence q')"
    and "n \<in> queued q' \<Longrightarrow> n \<notin> queued q \<Longrightarrow> unat (ps_next_sequence q) < unat n"
    using f by (auto simp: signal_follows_def word_le_nat_alt word_less_nat_alt)
qed

lemma signal_run_steps: "(\<lambda>q q'. \<exists>x. q' = signal_exec p x q)\<^sup>*\<^sup>* q (fold (signal_exec p) xs q)"
  by (induction xs arbitrary: q) (auto intro: converse_rtranclp_into_rtranclp)

lemma signal_run_ok: "signals_ok p (fold (signal_exec p) xs (signals_new a)) \<and> seq_ok (fold (signal_exec p) xs (signals_new a))"
proof -
  have "seq_ok (signals_new a)" by (simp add: seq_ok_def signals_new_def)
  with signals_ok_new [of p a] signals.inv_steps [OF signal_run_steps [of p "signals_new a" xs]] show ?thesis by blast
qed

lemma consume_queued:
  assumes "fst (signals_consume p q t)"
  shows "sd_sequence t \<in> queued q"
proof (cases "pi_signal (sd_info t) < 32")
  case True
  then show ?thesis using assms by (auto simp: signals_consume_def entry_matches_def queued_def split: if_splits)
next
  case False
  then obtain i where i: "first_index (\<lambda>e. entry_matches e t) (ps_realtime q) = Some i"
    using assms by (auto simp: signals_consume_def simp del: first_index_None split: if_splits option.splits)
  have m: "ps_realtime q ! i \<in> set (ps_realtime q)" "sd_sequence t = se_sequence (ps_realtime q ! i)"
    using first_indexD(1,2) [OF i] by (simp_all add: entry_matches_def)
  show ?thesis unfolding queued_def m(2) by (rule UnI2) (rule imageI [OF m(1)])
qed

lemma erase_sequence:
  assumes "sorted_wrt (\<lambda>e f. se_sequence e < se_sequence f) xs" and "i < length xs"
  shows "se_sequence (xs ! i) \<notin> se_sequence ` set (take i xs @ drop (Suc i) xs)"
proof -
  have "sorted_wrt (\<lambda>e f. se_sequence e < se_sequence f) (take i xs @ xs ! i # drop (Suc i) xs)"
    using assms unfolding id_take_nth_drop [OF assms(2), symmetric] by simp
  then have other: "se_sequence e \<noteq> se_sequence (xs ! i)" if "e \<in> set (take i xs) \<or> e \<in> set (drop (Suc i) xs)" for e
    using that unfolding sorted_wrt_append by (metis less_irrefl list.set_intros(1) sorted_wrt.simps(2))
  show ?thesis
  proof
    assume "se_sequence (xs ! i) \<in> se_sequence ` set (take i xs @ drop (Suc i) xs)"
    then obtain e where e: "se_sequence (xs ! i) = se_sequence e" "e \<in> set (take i xs @ drop (Suc i) xs)" by (rule imageE)
    then show False using other [of e] by simp
  qed
qed

lemma consume_removes:
  assumes ok: "signals_ok p q" and sq: "seq_ok q" and c: "fst (signals_consume p q t)"
  shows "sd_sequence t \<notin> queued (snd (signals_consume p q t))"
proof (cases "pi_signal (sd_info t) < 32")
  case True
  let ?s = "pi_signal (sd_info t)" let ?M = "{s. mask_contains (ps_normal_mask q) s}"
  have s: "1 \<le> ?s" "?s \<in> ?M" "normal_seq q ?s = sd_sequence t" "snd (signals_consume p q t) = clear_normal q ?s"
    using c True by (auto simp: signals_consume_def entry_matches_def split: if_splits)
  have len: "length (sm_words (ps_normal_mask q)) = 2" using ok by (simp add: signals_ok_def)
  have r: "ps_realtime (clear_normal q ?s) = ps_realtime q" by (simp add: clear_normal_def)
  have disj: "normal_seq q ` ?M \<inter> se_sequence ` set (ps_realtime q) = {}" using sq by (simp add: seq_ok_def)
  have "sd_sequence t \<in> normal_seq q ` ?M" unfolding s(3) [symmetric] by (rule imageI [OF s(2)])
  with disj have not_rt: "sd_sequence t \<notin> se_sequence ` set (ps_realtime q)" by blast
  have not_nm: "normal_seq (clear_normal q ?s) s' \<noteq> sd_sequence t"
    if "mask_contains (ps_normal_mask (clear_normal q ?s)) s'" for s'
  proof -
    have e: "s' \<noteq> ?s" "s' \<in> ?M" "normal_seq (clear_normal q ?s) s' = normal_seq q s'"
      using clear_normal_entry [OF len s(1) that] by simp_all
    have "inj_on (normal_seq q) ?M" using sq by (simp add: seq_ok_def)
    from inj_onD [OF this _ e(2) s(2)] e(1,3) s(3) show ?thesis by auto
  qed
  show ?thesis unfolding s(4)
  proof
    assume "sd_sequence t \<in> queued (clear_normal q ?s)"
    then obtain s' where "mask_contains (ps_normal_mask (clear_normal q ?s)) s'"
      "sd_sequence t = normal_seq (clear_normal q ?s) s'"
      using not_rt unfolding queued_def r Un_iff mem_Collect_eq by blast
    with not_nm [of s'] show False by simp
  qed
next
  case False
  then obtain i where i: "first_index (\<lambda>e. entry_matches e t) (ps_realtime q) = Some i"
    and e: "snd (signals_consume p q t) = erase_realtime q i"
    using c by (auto simp: signals_consume_def simp del: first_index_None split: if_splits option.splits)
  have m: "i < length (ps_realtime q)" "se_sequence (ps_realtime q ! i) = sd_sequence t"
    using first_indexD(1,2) [OF i] by (simp_all add: entry_matches_def)
  have disj: "normal_seq q ` {s. mask_contains (ps_normal_mask q) s} \<inter> se_sequence ` set (ps_realtime q) = {}"
    using sq by (simp add: seq_ok_def)
  have "sd_sequence t \<in> se_sequence ` set (ps_realtime q)" unfolding m(2) [symmetric] by (rule imageI [OF nth_mem [OF m(1)]])
  with disj have "sd_sequence t \<notin> normal_seq q ` {s. mask_contains (ps_normal_mask q) s}" by blast
  moreover have "sd_sequence t \<notin> se_sequence ` set (take i (ps_realtime q) @ drop (Suc i) (ps_realtime q))"
    using erase_sequence [OF _ m(1)] ok m(2) by (simp add: signals_ok_def)
  ultimately show ?thesis unfolding e queued_def by (auto simp: erase_realtime_def)
qed

text \<open>
  C5: A delivery ticket is spent at most once: after a ticket has been consumed, whatever
  operations follow on the queue (new signals, resets to other owners, refreshed or discarded
  timers), no ticket with its sequence number is accepted again.
\<close>

theorem signal_ticket_spent_once:
  assumes q: "q = fold (signal_exec p) xs (signals_new a)" and c: "fst (signals_consume p q t)"
    and t': "sd_sequence t' = sd_sequence t"
  shows "\<not> fst (signals_consume p (fold (signal_exec p) ys (snd (signals_consume p q t))) t')"
proof -
  let ?q = "snd (signals_consume p q t)"
  have inv: "signals_ok p q \<and> seq_ok q" unfolding q by (rule signal_run_ok)
  have step: "(\<lambda>q q'. \<exists>x. q' = signal_exec p x q)\<^sup>*\<^sup>* q ?q"
    by (rule r_into_rtranclp) (rule exI [of _ "Sig_consume t"], simp)
  have "sd_sequence t \<notin> queued ?q" using consume_removes inv c by blast
  from signals.released_stays_dead [OF inv consume_queued [OF c] step this signal_run_steps]
  show ?thesis using consume_queued [of p _ t'] t' by force
qed

definition example_profile :: signal_profile where
  "example_profile = \<lparr>sp_maximum = 64, sp_capacity = 4, sp_sequences = - 1\<rparr>"

definition example_user :: "nat \<Rightarrow> pending_info" where
  "example_user s = no_info\<lparr>pi_signal := s, pi_sender_pid := 7\<rparr>"

definition example_history :: "signal_op list" where
  "example_history = [Sig_reset \<lparr>si_process = 1, si_thread = 1, si_generation = 1\<rparr>,
     Sig_enqueue (example_user 40), Sig_enqueue (example_user 15), Sig_enqueue (example_user 11)]"

theorem signal_ticket_spent_once_witness:
  "let q = fold (signal_exec example_profile) example_history (signals_new 5);
       t = \<lparr>sd_owner = ps_owner q, sd_sequence = 3, sd_info = example_user 11, sd_queue = 5\<rparr>
   in fst (signals_consume example_profile q t)
     \<and> \<not> fst (signals_consume example_profile (signal_exec example_profile (Sig_enqueue (example_user 11)) (snd (signals_consume example_profile q t))) t)"
proof -
  let ?q = "fold (signal_exec example_profile) example_history (signals_new 5)"
  let ?t = "\<lparr>sd_owner = ps_owner ?q, sd_sequence = 3, sd_info = example_user 11, sd_queue = 5\<rparr>"
  have c: "fst (signals_consume example_profile ?q ?t)" by code_simp
  from c signal_ticket_spent_once [OF refl c refl, of "[Sig_enqueue (example_user 11)]"] show ?thesis
    unfolding Let_def by (simp only: fold.simps comp_apply id_apply simp_thms)
qed

section \<open>Delivery order\<close>

definition pending_entry :: "pending_signals \<Rightarrow> signal_entry \<Rightarrow> bool" where
  "pending_entry q e \<longleftrightarrow> (\<exists>s. mask_contains (ps_normal_mask q) s \<and> e = ps_normal q ! (s - 1)) \<or> e \<in> set (ps_realtime q)"

abbreviation entry_signal :: "signal_entry \<Rightarrow> nat" where
  "entry_signal e \<equiv> pi_signal (se_info e)"

text \<open>Synchronous signals come first, then the other standard ones, then realtime signals.\<close>

definition delivery_class :: "signal_profile \<Rightarrow> nat \<Rightarrow> nat" where
  "delivery_class p s = (if s < 32 then (if bit (synchronous_signals (sp_maximum p)) (s - 1) then 0 else 1) else 2)"

definition delivered_before :: "signal_profile \<Rightarrow> signal_entry \<Rightarrow> signal_entry \<Rightarrow> bool" where
  "delivered_before p e f \<longleftrightarrow> delivery_class p (entry_signal e) < delivery_class p (entry_signal f)
     \<or> delivery_class p (entry_signal e) = delivery_class p (entry_signal f)
       \<and> (entry_signal e < entry_signal f \<or> entry_signal e = entry_signal f \<and> se_sequence e \<le> se_sequence f)"

lemma and_nonzero: "(a AND b \<noteq> (0::u64)) \<longleftrightarrow> (\<exists>n. bit a n \<and> bit b n)"
proof -
  have "n < 64" if "bit a n" for n using bit_imp_le_length [OF that] by simp
  then show ?thesis by (auto simp: bit_eq_iff bit_and_iff)
qed

lemma synchronous_small: "bit (synchronous_signals m) n \<Longrightarrow> n < 31"
  unfolding synchronous_signals_def bit_or_iff bit_push_bit_iff by (auto simp: bit_1_iff split: if_splits)

lemma first_word_bit: "1 \<le> s \<Longrightarrow> s < 32 \<Longrightarrow> mask_contains m s \<longleftrightarrow> bit (sm_words m ! 0) (s - 1)"
  by (simp add: mask_contains_bit)

lemma eligible_bit:
  assumes "1 \<le> s" and "s < 32"
  shows "bit (eligible_normal p q blocked) (s - 1) \<longleftrightarrow> mask_contains (ps_normal_mask q) s \<and> \<not> mask_contains blocked s
    \<and> ((\<exists>r. 1 \<le> r \<and> r < 32 \<and> mask_contains (ps_normal_mask q) r \<and> \<not> mask_contains blocked r \<and> delivery_class p r = 0)
      \<longrightarrow> delivery_class p s = 0)"
proof -
  let ?e = "sm_words (ps_normal_mask q) ! 0 AND NOT (sm_words blocked ! 0)" and ?y = "synchronous_signals (sp_maximum p)"
  have e: "bit ?e (r - 1) \<longleftrightarrow> mask_contains (ps_normal_mask q) r \<and> \<not> mask_contains blocked r" if "1 \<le> r" "r < 32" for r
    using that by (auto simp: first_word_bit bit_and_iff bit_not_iff)
  have c: "delivery_class p r = 0 \<longleftrightarrow> bit ?y (r - 1)" if "r < 32" for r using that by (simp add: delivery_class_def)
  have "?e AND ?y \<noteq> 0 \<longleftrightarrow> (\<exists>r. 1 \<le> r \<and> r < 32 \<and> bit ?e (r - 1) \<and> bit ?y (r - 1))"
  proof
    assume "?e AND ?y \<noteq> 0"
    then obtain n where n: "bit ?e n" "bit ?y n" unfolding and_nonzero by blast
    then have "1 \<le> Suc n \<and> Suc n < 32 \<and> bit ?e (Suc n - 1) \<and> bit ?y (Suc n - 1)" using synchronous_small by fastforce
    then show "\<exists>r. 1 \<le> r \<and> r < 32 \<and> bit ?e (r - 1) \<and> bit ?y (r - 1)" by blast
  qed (auto simp: and_nonzero)
  then have any: "?e AND ?y \<noteq> 0 \<longleftrightarrow> (\<exists>r. 1 \<le> r \<and> r < 32 \<and> mask_contains (ps_normal_mask q) r \<and> \<not> mask_contains blocked r
      \<and> delivery_class p r = 0)" using e c by blast
  have "bit (eligible_normal p q blocked) (s - 1) \<longleftrightarrow> bit ?e (s - 1) \<and> (?e AND ?y \<noteq> 0 \<longrightarrow> bit ?y (s - 1))"
    by (auto simp: eligible_normal_def Let_def bit_and_iff)
  then show ?thesis unfolding any e [OF assms] c [OF assms(2)] by blast
qed

lemma choose_realtime:
  fixes rt :: "signal_entry list" and blocked :: signal_mask
  defines "ok \<equiv> \<lambda>i. \<not> mask_contains blocked (entry_signal (rt ! i))"
  defines "c \<equiv> choose_realtime rt blocked"
  shows "if c = length rt then \<forall>i < length rt. \<not> ok i
    else c < length rt \<and> ok c \<and> (\<forall>i < length rt. ok i \<longrightarrow> entry_signal (rt ! c) \<le> entry_signal (rt ! i)
      \<and> (entry_signal (rt ! i) = entry_signal (rt ! c) \<longrightarrow> c \<le> i))"
proof -
  let ?n = "length rt"
  let ?f = "\<lambda>i chosen. if ok i \<and> (chosen = ?n \<or> entry_signal (rt ! i) < entry_signal (rt ! chosen)) then i else chosen"
  have "if fold ?f [0..<k] ?n = ?n then \<forall>i < k. \<not> ok i
    else fold ?f [0..<k] ?n < k \<and> ok (fold ?f [0..<k] ?n) \<and> (\<forall>i < k. ok i \<longrightarrow>
      entry_signal (rt ! fold ?f [0..<k] ?n) \<le> entry_signal (rt ! i)
      \<and> (entry_signal (rt ! i) = entry_signal (rt ! fold ?f [0..<k] ?n) \<longrightarrow> fold ?f [0..<k] ?n \<le> i))" if "k \<le> ?n" for k
    using that
  proof (induction k)
    case (Suc k)
    let ?c = "fold ?f [0..<k] ?n"
    have step: "fold ?f [0..<Suc k] ?n = ?f k ?c" by simp
    have IH: "if ?c = ?n then \<forall>i < k. \<not> ok i else ?c < k \<and> ok ?c \<and> (\<forall>i < k. ok i \<longrightarrow>
        entry_signal (rt ! ?c) \<le> entry_signal (rt ! i) \<and> (entry_signal (rt ! i) = entry_signal (rt ! ?c) \<longrightarrow> ?c \<le> i))"
      using Suc by simp
    have kn: "k \<noteq> ?n" using Suc.prems by simp
    show ?case unfolding step using IH kn by (cases "?c = ?n") (auto simp: less_Suc_eq split: if_splits)
  qed simp
  from this [of ?n] show ?thesis unfolding c_def choose_realtime_def ok_def by simp
qed

lemma consume_ready:
  assumes ok: "signals_ok p q" and e: "pending_entry q e"
  shows "fst (signals_consume p q (delivery_of q e))"
proof -
  have r: "1 \<le> entry_signal e" "entry_signal e \<le> sp_maximum p" "se_sequence e \<noteq> 0"
    and n: "entry_signal e < 32 \<Longrightarrow> mask_contains (ps_normal_mask q) (entry_signal e) \<and> e = ps_normal q ! (entry_signal e - 1)"
    and t: "32 \<le> entry_signal e \<Longrightarrow> e \<in> set (ps_realtime q)"
    using ok e mask_contains_range by (fastforce simp: pending_entry_def signals_ok_def entry_ok_def)+
  show ?thesis
  proof (cases "entry_signal e < 32")
    case True
    then show ?thesis using r n by (auto simp: signals_consume_def delivery_of_def entry_matches_def)
  next
    case False
    then obtain k where "k < length (ps_realtime q)" "ps_realtime q ! k = e" using t by (auto simp: in_set_conv_nth)
    then obtain j where "first_index (\<lambda>x. entry_matches x (delivery_of q e)) (ps_realtime q) = Some j"
      using first_index_ex [of k "ps_realtime q" "\<lambda>x. entry_matches x (delivery_of q e)"] by (auto simp: entry_matches_def delivery_of_def)
    then show ?thesis using r False by (simp add: signals_consume_def delivery_of_def)
  qed
qed

lemma realtime_order:
  assumes ok: "signals_ok p q" and "i \<le> j" "j < length (ps_realtime q)"
  shows "se_sequence (ps_realtime q ! i) \<le> se_sequence (ps_realtime q ! j)"
  using assms sorted_wrt_nth_less [of _ "ps_realtime q" i j] by (cases "i = j") (auto simp: signals_ok_def intro: less_imp_le)

lemma normal_first:
  assumes ok: "signals_ok p q" and f: "find (\<lambda>s. eligible_normal p q blocked AND push_bit (s - 1) 1 \<noteq> 0) [1..<32] = Some s"
  defines "e \<equiv> ps_normal q ! (s - 1)"
  shows "pending_entry q e \<and> \<not> mask_contains blocked (entry_signal e)
    \<and> (\<forall>x. pending_entry q x \<and> \<not> mask_contains blocked (entry_signal x) \<longrightarrow> delivered_before p e x)"
proof -
  let ?b = "\<lambda>s. bit (eligible_normal p q blocked) (s - 1)"
  obtain k where k: "k < 31" "s = Suc k" "?b s" "\<forall>j<k. \<not> ?b (Suc j)"
    using f unfolding and_bit_nonzero find_Some_iff by (auto simp: nth_upt)
  have s: "1 \<le> s" "s < 32" using k by simp_all
  note b = k(3) [unfolded eligible_bit [OF s]]
  have least: "s \<le> r" if "1 \<le> r" "r < 32" "?b r" for r
  proof (rule ccontr)
    assume "\<not> s \<le> r"
    then show False using k(2,4) that by (cases r) auto
  qed
  have sig: "entry_signal e = s" using ok b unfolding e_def by (auto simp: signals_ok_def entry_ok_def)
  have "delivered_before p e x" if x: "pending_entry q x" "\<not> mask_contains blocked (entry_signal x)" for x
  proof (cases "entry_signal x < 32")
    case False
    then show ?thesis using s by (simp add: delivered_before_def sig delivery_class_def)
  next
    case True
    then have x': "mask_contains (ps_normal_mask q) (entry_signal x)" "x = ps_normal q ! (entry_signal x - 1)"
      using x(1) ok by (fastforce simp: pending_entry_def signals_ok_def entry_ok_def)+
    let ?r = "entry_signal x"
    have r: "1 \<le> ?r" using mask_contains_range [OF x'(1)] by simp
    have cl: "delivery_class p t \<le> 1" if "t < 32" for t using that by (simp add: delivery_class_def)
    show ?thesis
    proof (cases "?b ?r")
      case elig: True
      have le: "s \<le> ?r" by (rule least [OF r True elig])
      have "delivery_class p s = delivery_class p ?r"
        using b elig [unfolded eligible_bit [OF r True]] x(2) x'(1) r True s cl [of s] cl [of ?r] by (metis le_antisym le_zero_eq One_nat_def le_SucE)
      moreover have "se_sequence e \<le> se_sequence x" if "s = ?r" using x'(2) that unfolding e_def by simp
      ultimately show ?thesis using le unfolding delivered_before_def sig by linarith
    next
      case False
      then have "delivery_class p ?r \<noteq> 0" "\<exists>r. 1 \<le> r \<and> r < 32 \<and> mask_contains (ps_normal_mask q) r \<and> \<not> mask_contains blocked r \<and> delivery_class p r = 0"
        using x(2) x'(1) unfolding eligible_bit [OF r True] by auto
      then have "delivery_class p s = 0" using b by blast
      then show ?thesis using \<open>delivery_class p ?r \<noteq> 0\<close> by (simp add: delivered_before_def sig)
    qed
  qed
  then show ?thesis using b unfolding sig by (auto simp: pending_entry_def e_def)
qed

lemma realtime_first:
  assumes ok: "signals_ok p q" and none: "find (\<lambda>s. eligible_normal p q blocked AND push_bit (s - 1) 1 \<noteq> 0) [1..<32] = None"
    and x: "pending_entry q x" "\<not> mask_contains blocked (entry_signal x)"
  shows "32 \<le> entry_signal x \<and> x \<in> set (ps_realtime q)"
proof -
  let ?b = "\<lambda>s. bit (eligible_normal p q blocked) (s - 1)"
  have no: "\<not> ?b s" if "1 \<le> s" "s < 32" for s using none that unfolding and_bit_nonzero find_None_iff by auto
  have "\<not> (mask_contains (ps_normal_mask q) s \<and> \<not> mask_contains blocked s)" for s
  proof
    assume m: "mask_contains (ps_normal_mask q) s \<and> \<not> mask_contains blocked s"
    then have s: "1 \<le> s" "s < 32" using mask_contains_range ok by (auto simp: signals_ok_def)
    with no [OF s] m obtain r where r: "1 \<le> r" "r < 32" "mask_contains (ps_normal_mask q) r" "\<not> mask_contains blocked r"
      "delivery_class p r = 0" unfolding eligible_bit [OF s] by blast
    with no [OF r(1,2)] show False unfolding eligible_bit [OF r(1,2)] by blast
  qed
  then have "x \<in> set (ps_realtime q)" using x ok by (auto simp: pending_entry_def signals_ok_def entry_ok_def)
  then show ?thesis using ok by (auto simp: signals_ok_def)
qed

text \<open>
  C4: The next signal to deliver, in every reachable queue: \<open>peek\<close> finds nothing only when every
  pending signal is blocked; otherwise it returns a pending unblocked record that precedes all
  others (synchronous signals first, then the lowest standard number, then the lowest realtime
  number and, within one number, the oldest), and the returned ticket can be consumed.
\<close>

theorem signal_peek_order:
  assumes q: "q = fold (signal_exec p) xs (signals_new a)"
  shows "case signals_peek p q blocked of
      None \<Rightarrow> \<forall>e. pending_entry q e \<longrightarrow> mask_contains blocked (entry_signal e)
    | Some d \<Rightarrow> (\<exists>e. pending_entry q e \<and> \<not> mask_contains blocked (entry_signal e) \<and> d = delivery_of q e
        \<and> (\<forall>x. pending_entry q x \<and> \<not> mask_contains blocked (entry_signal x) \<longrightarrow> delivered_before p e x))
        \<and> fst (signals_consume p q d)"
proof -
  have ok: "signals_ok p q" unfolding q using signal_run_ok by blast
  let ?f = "find (\<lambda>s. eligible_normal p q blocked AND push_bit (s - 1) 1 \<noteq> 0) [1..<32]"
  let ?rt = "ps_realtime q" let ?c = "choose_realtime ?rt blocked"
  show ?thesis
  proof (cases ?f)
    case (Some s)
    then have "signals_peek p q blocked = Some (delivery_of q (ps_normal q ! (s - 1)))"
      unfolding signals_peek_def Let_def by simp
    then show ?thesis using normal_first [OF ok Some] consume_ready [OF ok] by auto
  next
    case None
    note rt = realtime_first [OF ok None]
    have peek: "signals_peek p q blocked = (if ?c = length ?rt then None else Some (delivery_of q (?rt ! ?c)))"
      using None unfolding signals_peek_def Let_def by simp
    show ?thesis
    proof (cases "?c = length ?rt")
      case True
      then have "\<forall>i < length ?rt. mask_contains blocked (entry_signal (?rt ! i))" using choose_realtime [of ?rt blocked] by simp
      then show ?thesis using rt True unfolding peek by (auto simp: in_set_conv_nth)
    next
      case False
      then have c: "?c < length ?rt" "\<not> mask_contains blocked (entry_signal (?rt ! ?c))"
        and least: "\<And>i. i < length ?rt \<Longrightarrow> \<not> mask_contains blocked (entry_signal (?rt ! i)) \<Longrightarrow>
          entry_signal (?rt ! ?c) \<le> entry_signal (?rt ! i) \<and> (entry_signal (?rt ! i) = entry_signal (?rt ! ?c) \<longrightarrow> ?c \<le> i)"
        using choose_realtime [of ?rt blocked] by simp_all
      let ?e = "?rt ! ?c"
      have mem: "pending_entry q ?e" using c(1) by (simp add: pending_entry_def)
      have c32: "32 \<le> entry_signal ?e" using rt [OF mem c(2)] by simp
      have "delivered_before p ?e x" if x: "pending_entry q x" "\<not> mask_contains blocked (entry_signal x)" for x
      proof -
        have x32: "32 \<le> entry_signal x" "x \<in> set ?rt" using rt [OF x] by simp_all
        then obtain i where i: "i < length ?rt" "?rt ! i = x" by (auto simp: in_set_conv_nth)
        note l = least [OF i(1), unfolded i(2), OF x(2)]
        have "se_sequence ?e \<le> se_sequence x" if "entry_signal x = entry_signal ?e"
          using realtime_order [OF ok _ i(1), of ?c] l that i(2) by simp
        then show ?thesis using l c32 x32(1) by (auto simp: delivered_before_def delivery_class_def)
      qed
      then show ?thesis using False mem c(2) consume_ready [OF ok mem] unfolding peek by auto
    qed
  qed
qed

theorem signal_peek_order_witness:
  "let q = fold (signal_exec example_profile) example_history (signals_new 5)
   in \<exists>d. signals_peek example_profile q mask_new = Some d \<and> pi_signal (sd_info d) = 11 \<and> fst (signals_consume example_profile q d)"
proof -
  let ?q = "fold (signal_exec example_profile) example_history (signals_new 5)"
  have "map_option (\<lambda>d. pi_signal (sd_info d)) (signals_peek example_profile ?q mask_new) = Some 11" by code_simp
  then obtain d where d: "signals_peek example_profile ?q mask_new = Some d" "pi_signal (sd_info d) = 11" by auto
  then show ?thesis using signal_peek_order [OF refl, where p = example_profile and xs = example_history and a = 5 and blocked = mask_new]
    by (simp add: Let_def)
qed

end
