(* ===== verification/OK_Pty.thy ===== *)
theory OK_Pty
  imports OK_Prelude
begin

text \<open>
  The pseudo-terminal transport of \<^verbatim>\<open>sched/raw_pty_transport.hpp\<close>: pairs of byte rings named by
  generation-checked handles. The template parameters are arguments: the ring capacity is the
  length of the byte array, and the limits of generations and revisions are a profile.
  Generations and revisions stop at their limits, so they are natural numbers.
\<close>

section \<open>Rings\<close>

record byte_ring =
  br_bytes :: "u8 list"
  br_head :: nat
  br_size :: nat

definition ring_new :: "nat \<Rightarrow> byte_ring" where
  "ring_new capacity = \<lparr>br_bytes = replicate capacity 0, br_head = 0, br_size = 0\<rparr>"

definition ring_clear :: "byte_ring \<Rightarrow> byte_ring" where
  "ring_clear q = q\<lparr>br_bytes := map (\<lambda>_. 0) (br_bytes q), br_head := 0, br_size := 0\<rparr>"

definition ring_next :: "byte_ring \<Rightarrow> nat \<Rightarrow> nat" where
  "ring_next q i = (if i + 1 = length (br_bytes q) then 0 else i + 1)"

text \<open>The copying loop of \<open>read\<close>: every byte handed out is erased behind it.\<close>

primrec ring_take :: "nat \<Rightarrow> byte_ring \<Rightarrow> u8 list \<times> byte_ring" where
  "ring_take 0 q = ([], q)"
| "ring_take (Suc n) q =
     (case ring_take n (q\<lparr>br_bytes := (br_bytes q)[br_head q := 0], br_head := ring_next q (br_head q)\<rparr>) of
        (out, q') \<Rightarrow> (br_bytes q ! br_head q # out, q'))"

definition ring_read :: "byte_ring \<Rightarrow> nat \<Rightarrow> u8 list \<times> byte_ring" where
  "ring_read q room =
     (let count = (if room < br_size q then room else br_size q) in
      case ring_take count q of (out, q1) \<Rightarrow>
        let q2 = q1\<lparr>br_size := br_size q - count\<rparr>
        in (out, if br_size q2 = 0 then q2\<lparr>br_head := 0\<rparr> else q2))"

primrec ring_put :: "byte_ring \<Rightarrow> nat \<Rightarrow> u8 list \<Rightarrow> u8 list \<Rightarrow> u8 list" where
  "ring_put q tail [] bytes = bytes"
| "ring_put q tail (x # xs) bytes = ring_put q (ring_next q tail) xs (bytes[tail := x])"

definition ring_write :: "byte_ring \<Rightarrow> u8 list \<Rightarrow> nat \<times> byte_ring" where
  "ring_write q input =
     (let capacity = length (br_bytes q); available = capacity - br_size q;
          count = (if length input < available then length input else available);
          tail = (if br_head q \<ge> capacity - br_size q then br_head q - (capacity - br_size q) else br_head q + br_size q)
      in (count, q\<lparr>br_bytes := ring_put q tail (take count input) (br_bytes q), br_size := br_size q + count\<rparr>))"

definition cleared_outside :: "byte_ring \<Rightarrow> bool" where
  "cleared_outside q \<longleftrightarrow> (\<forall>i < length (br_bytes q).
     (let offset = (if i \<ge> br_head q then i - br_head q else length (br_bytes q) - br_head q + i)
      in \<not> (offset \<ge> br_size q \<and> br_bytes q ! i \<noteq> 0)))"

section \<open>Pairs and handles\<close>

datatype pty_side = Pty_master | Pty_slave

record pty_handle =
  ph_slot :: nat
  ph_generation :: nat
  ph_side :: pty_side

record pty_stamp =
  sp_slot :: nat
  sp_generation :: nat
  sp_revision :: nat
  sp_saturated :: bool

record pty_change =
  pc_stamp :: pty_stamp
  pc_changed :: bool
  pc_master_retired :: bool
  pc_slave_retired :: bool
  pc_pair_freed :: bool

record pty_readiness =
  pr_stamp :: pty_stamp
  pr_buffered :: nat
  pr_available :: nat
  pr_readable :: bool
  pr_writable :: bool
  pr_hangup :: bool
  pr_error :: bool

record pty_audit =
  pa_live_pairs :: nat
  pa_live_endpoints :: nat
  pa_buffered :: nat
  pa_cleared :: bool

record pty_pair =
  pp_master_input :: byte_ring
  pp_slave_input :: byte_ring
  pp_generation :: nat
  pp_revision :: nat
  pp_used :: bool
  pp_master_alive :: bool
  pp_slave_alive :: bool

record pty_table =
  pt_generation_limit :: nat
  pt_revision_limit :: nat
  pt_pairs :: "pty_pair list"

definition pty_table_new :: "nat \<Rightarrow> nat \<Rightarrow> nat \<Rightarrow> nat \<Rightarrow> nat \<Rightarrow> pty_table" where
  "pty_table_new pairs capacity generations revisions initial =
     \<lparr>pt_generation_limit = generations, pt_revision_limit = revisions,
      pt_pairs = replicate pairs \<lparr>pp_master_input = ring_new capacity, pp_slave_input = ring_new capacity,
        pp_generation = initial, pp_revision = 0, pp_used = False, pp_master_alive = False, pp_slave_alive = False\<rparr>\<rparr>"

definition local_alive :: "pty_pair \<Rightarrow> pty_side \<Rightarrow> bool" where
  "local_alive p side = (if side = Pty_master then pp_master_alive p else pp_slave_alive p)"

definition peer_alive :: "pty_pair \<Rightarrow> pty_side \<Rightarrow> bool" where
  "peer_alive p side = (if side = Pty_master then pp_slave_alive p else pp_master_alive p)"

definition incoming :: "pty_pair \<Rightarrow> pty_side \<Rightarrow> byte_ring" where
  "incoming p side = (if side = Pty_master then pp_master_input p else pp_slave_input p)"

definition outgoing :: "pty_pair \<Rightarrow> pty_side \<Rightarrow> byte_ring" where
  "outgoing p side = (if side = Pty_master then pp_slave_input p else pp_master_input p)"

definition set_incoming :: "pty_side \<Rightarrow> byte_ring \<Rightarrow> pty_pair \<Rightarrow> pty_pair" where
  "set_incoming side q p = (if side = Pty_master then p\<lparr>pp_master_input := q\<rparr> else p\<lparr>pp_slave_input := q\<rparr>)"

definition set_outgoing :: "pty_side \<Rightarrow> byte_ring \<Rightarrow> pty_pair \<Rightarrow> pty_pair" where
  "set_outgoing side q p = (if side = Pty_master then p\<lparr>pp_slave_input := q\<rparr> else p\<lparr>pp_master_input := q\<rparr>)"

definition pty_resolve :: "pty_table \<Rightarrow> pty_handle \<Rightarrow> pty_pair option" where
  "pty_resolve t h =
     (if ph_slot h \<ge> length (pt_pairs t) \<or> ph_generation h = 0 then None
      else (let p = pt_pairs t ! ph_slot h in
        if pp_used p \<and> pp_generation p = ph_generation h \<and> local_alive p (ph_side h) then Some p else None))"

definition pty_stamp_of :: "pty_table \<Rightarrow> nat \<Rightarrow> pty_pair \<Rightarrow> pty_stamp" where
  "pty_stamp_of t slot p = \<lparr>sp_slot = slot, sp_generation = pp_generation p, sp_revision = pp_revision p,
     sp_saturated = (pp_revision p = pt_revision_limit t)\<rparr>"

definition pty_observe :: "pty_table \<Rightarrow> nat \<Rightarrow> pty_pair \<Rightarrow> bool \<Rightarrow> pty_change" where
  "pty_observe t slot p changed = \<lparr>pc_stamp = pty_stamp_of t slot p, pc_changed = changed,
     pc_master_retired = (\<not> pp_master_alive p), pc_slave_retired = (\<not> pp_slave_alive p), pc_pair_freed = (\<not> pp_used p)\<rparr>"

definition advance_revision :: "pty_table \<Rightarrow> pty_pair \<Rightarrow> pty_pair" where
  "advance_revision t p = (if pp_revision p \<noteq> pt_revision_limit t then p\<lparr>pp_revision := pp_revision p + 1\<rparr> else p)"

definition put_pair :: "pty_table \<Rightarrow> nat \<Rightarrow> pty_pair \<Rightarrow> pty_table" where
  "put_pair t slot p = t\<lparr>pt_pairs := (pt_pairs t)[slot := p]\<rparr>"

section \<open>Operations\<close>

definition pty_create :: "pty_table \<Rightarrow> (pty_handle \<times> pty_handle) result \<times> pty_table" where
  "pty_create t =
     (case first_index (\<lambda>p. \<not> pp_used p \<and> pp_generation p \<noteq> pt_generation_limit t) (pt_pairs t) of
        Some slot \<Rightarrow>
          (let p = pt_pairs t ! slot; g = pp_generation p + 1;
               p' = \<lparr>pp_master_input = ring_clear (pp_master_input p), pp_slave_input = ring_clear (pp_slave_input p),
                 pp_generation = g, pp_revision = 1, pp_used = True, pp_master_alive = True, pp_slave_alive = True\<rparr>
           in (Inr (\<lparr>ph_slot = slot, ph_generation = g, ph_side = Pty_master\<rparr>,
                    \<lparr>ph_slot = slot, ph_generation = g, ph_side = Pty_slave\<rparr>), put_pair t slot p'))
      | None \<Rightarrow> (Inl (if \<exists>p\<in>set (pt_pairs t). \<not> pp_used p \<and> pp_generation p = pt_generation_limit t
                      then S_overflow else S_system_file_limit), t))"

definition pty_read :: "pty_table \<Rightarrow> pty_handle \<Rightarrow> nat \<Rightarrow> (u8 list \<times> pty_change) result \<times> pty_table" where
  "pty_read t h room =
     (case pty_resolve t h of None \<Rightarrow> (Inl S_bad_descriptor, t)
      | Some p \<Rightarrow>
          if room = 0 then (Inr ([], pty_observe t (ph_slot h) p False), t)
          else if br_size (incoming p (ph_side h)) = 0
          then (if peer_alive p (ph_side h) then (Inl S_would_block, t)
                else if ph_side h = Pty_master then (Inl S_io_error, t)
                else (Inr ([], pty_observe t (ph_slot h) p False), t))
          else (case ring_read (incoming p (ph_side h)) room of (out, q) \<Rightarrow>
            let p' = advance_revision t (set_incoming (ph_side h) q p)
            in (Inr (out, pty_observe t (ph_slot h) p' True), put_pair t (ph_slot h) p')))"

definition pty_write :: "pty_table \<Rightarrow> pty_handle \<Rightarrow> u8 list \<Rightarrow> (nat \<times> pty_change) result \<times> pty_table" where
  "pty_write t h input =
     (case pty_resolve t h of None \<Rightarrow> (Inl S_bad_descriptor, t)
      | Some p \<Rightarrow>
          if input = [] then (Inr (0, pty_observe t (ph_slot h) p False), t)
          else if \<not> peer_alive p (ph_side h) then (Inl S_io_error, t)
          else if br_size (outgoing p (ph_side h)) = length (br_bytes (outgoing p (ph_side h))) then (Inl S_would_block, t)
          else (case ring_write (outgoing p (ph_side h)) input of (count, q) \<Rightarrow>
            let p' = advance_revision t (set_outgoing (ph_side h) q p)
            in (Inr (count, pty_observe t (ph_slot h) p' True), put_pair t (ph_slot h) p')))"

definition pty_readiness_of :: "pty_table \<Rightarrow> pty_handle \<Rightarrow> pty_readiness result" where
  "pty_readiness_of t h =
     (case pty_resolve t h of None \<Rightarrow> Inl S_bad_descriptor
      | Some p \<Rightarrow>
          (let input = incoming p (ph_side h); output = outgoing p (ph_side h); peer = peer_alive p (ph_side h);
               capacity = length (br_bytes output)
           in Inr \<lparr>pr_stamp = pty_stamp_of t (ph_slot h) p, pr_buffered = br_size input,
                pr_available = capacity - br_size output, pr_readable = (br_size input \<noteq> 0 \<or> \<not> peer),
                pr_writable = (peer \<and> br_size output \<noteq> capacity), pr_hangup = (\<not> peer),
                pr_error = (ph_side h = Pty_slave \<and> \<not> peer)\<rparr>))"

definition pty_retire :: "pty_table \<Rightarrow> pty_handle \<Rightarrow> pty_change result \<times> pty_table" where
  "pty_retire t h =
     (case pty_resolve t h of None \<Rightarrow> (Inl S_bad_descriptor, t)
      | Some p \<Rightarrow>
          (let p1 = (if ph_side h = Pty_master then p\<lparr>pp_master_alive := False\<rparr> else p\<lparr>pp_slave_alive := False\<rparr>);
               p2 = advance_revision t (set_incoming (ph_side h) (ring_clear (incoming p1 (ph_side h))) p1);
               p3 = (if \<not> pp_master_alive p2 \<and> \<not> pp_slave_alive p2
                     then p2\<lparr>pp_master_input := ring_clear (pp_master_input p2),
                             pp_slave_input := ring_clear (pp_slave_input p2), pp_used := False\<rparr> else p2)
           in (Inr (pty_observe t (ph_slot h) p3 True), put_pair t (ph_slot h) p3)))"

definition pty_audit_of :: "pty_table \<Rightarrow> pty_audit" where
  "pty_audit_of t = fold (\<lambda>p a. a\<lparr>
       pa_live_pairs := pa_live_pairs a + (if pp_used p then 1 else 0),
       pa_live_endpoints := pa_live_endpoints a + (if pp_master_alive p then 1 else 0) + (if pp_slave_alive p then 1 else 0),
       pa_buffered := pa_buffered a + (br_size (pp_master_input p) + br_size (pp_slave_input p)),
       pa_cleared := (pa_cleared a \<and> cleared_outside (pp_master_input p) \<and> cleared_outside (pp_slave_input p)
         \<and> (pp_master_alive p \<or> br_size (pp_master_input p) = 0) \<and> (pp_slave_alive p \<or> br_size (pp_slave_input p) = 0)
         \<and> (pp_used p \<or> (\<not> pp_master_alive p \<and> \<not> pp_slave_alive p)))\<rparr>) (pt_pairs t)
     \<lparr>pa_live_pairs = 0, pa_live_endpoints = 0, pa_buffered = 0, pa_cleared = True\<rparr>"

section \<open>Previewed reads\<close>

record prepared_read =
  rd_owned :: bool
  rd_handle :: pty_handle
  rd_revision :: nat
  rd_bytes :: "u8 list"

primrec ring_preview :: "byte_ring \<Rightarrow> nat \<Rightarrow> nat \<Rightarrow> u8 list" where
  "ring_preview q cursor 0 = []"
| "ring_preview q cursor (Suc n) = br_bytes q ! cursor # ring_preview q (ring_next q cursor) n"

definition prepare_read :: "pty_table \<Rightarrow> pty_handle \<Rightarrow> nat \<Rightarrow> prepared_read result" where
  "prepare_read t h count =
     (case pty_resolve t h of None \<Rightarrow> Inl S_bad_descriptor
      | Some p \<Rightarrow>
          (let q = incoming p (ph_side h);
               preview = (\<lambda>bytes. \<lparr>rd_owned = True, rd_handle = h, rd_revision = pp_revision p, rd_bytes = bytes\<rparr>) in
           if count = 0 then Inr (preview [])
           else if br_size q = 0
           then (if peer_alive p (ph_side h) then Inl S_would_block
                 else if ph_side h = Pty_master then Inl S_io_error else Inr (preview []))
           else if pp_revision p = pt_revision_limit t then Inl S_overflow
           else Inr (preview (ring_preview q (br_head q) (if count > br_size q then br_size q else count)))))"

definition preview_cancel :: "prepared_read \<Rightarrow> prepared_read" where
  "preview_cancel r = r\<lparr>rd_owned := False\<rparr>"

definition preview_commit ::
  "pty_table \<Rightarrow> prepared_read \<Rightarrow> (u8 list \<times> pty_change) result \<times> prepared_read \<times> pty_table" where
  "preview_commit t r =
     (if \<not> rd_owned r then (Inl S_busy, r, t)
      else (let r' = r\<lparr>rd_owned := False\<rparr> in
        case pty_resolve t (rd_handle r) of
          None \<Rightarrow> (Inl S_bad_descriptor, r', t)
        | Some p \<Rightarrow>
            if length (rd_bytes r) \<noteq> 0 \<and> (pp_revision p \<noteq> rd_revision r \<or> pp_revision p = pt_revision_limit t)
            then (Inl S_busy, r', t)
            else (case pty_read t (rd_handle r) (length (rd_bytes r)) of (x, t') \<Rightarrow> (x, r', t'))))"

end
