(* ===== verification/OK_Pty_Proofs.thy ===== *)
theory OK_Pty_Proofs
  imports OK_Pty
begin

text \<open>
  The rings are byte queues, and bytes that left a ring are erased: after any sequence of
  operations the audit of the table finds every byte outside the live ones zero, and no bytes
  buffered for a side that is gone.
\<close>

section \<open>Rings as queues\<close>

text \<open>The ring read from its head: the live bytes, then the rest.\<close>

definition ring_view :: "byte_ring \<Rightarrow> u8 list" where
  "ring_view q = rotate (br_head q) (br_bytes q)"

definition contents :: "byte_ring \<Rightarrow> u8 list" where
  "contents q = take (br_size q) (ring_view q)"

definition ring_ok :: "byte_ring \<Rightarrow> bool" where
  "ring_ok q \<longleftrightarrow> br_head q < length (br_bytes q) \<and> br_size q \<le> length (br_bytes q)
     \<and> (\<forall>x\<in>set (drop (br_size q) (ring_view q)). x = 0)"

lemma length_ring_view [simp]: "length (ring_view q) = length (br_bytes q)"
  by (simp add: ring_view_def)

lemma length_contents: "ring_ok q \<Longrightarrow> length (contents q) = br_size q"
  by (simp add: contents_def ring_ok_def)

lemma ring_next_mod: "i < length (br_bytes q) \<Longrightarrow> ring_next q i = Suc i mod length (br_bytes q)"
  by (auto simp: ring_next_def)

lemma mod_shift_neq:
  fixes h k j n :: nat
  assumes "k < n" "j < n" "k \<noteq> j"
  shows "(h + k) mod n \<noteq> (h + j) mod n"
proof -
  have *: "(h + j) mod n \<noteq> (h + k) mod n" if "k < j" "j < n" for k j
  proof
    assume "(h + j) mod n = (h + k) mod n"
    then have "n dvd (h + j) - (h + k)" using that by (simp add: mod_eq_dvd_iff_nat)
    then show False using that by (auto dest: dvd_imp_le)
  qed
  show ?thesis using *[of k j] *[of j k] assms by (cases "k < j") auto
qed

lemma rotate_update:
  assumes "k < length xs"
  shows "rotate h (xs[(h + k) mod length xs := x]) = (rotate h xs)[k := x]"
proof (rule nth_equalityI)
  fix i assume "i < length (rotate h (xs[(h + k) mod length xs := x]))"
  then have i: "i < length xs" by simp
  have "(h + k) mod length xs < length xs" using assms by (intro mod_less_divisor) linarith
  then show "rotate h (xs[(h + k) mod length xs := x]) ! i = (rotate h xs)[k := x] ! i"
    using i assms mod_shift_neq [OF assms i, of h] by (cases "k = i") (simp_all add: nth_rotate)
qed simp

lemma rotate_Suc: "xs \<noteq> [] \<Longrightarrow> rotate (Suc h) xs = tl (rotate h xs) @ [hd (rotate h xs)]"
  by (simp add: rotate1_hd_tl)

lemma rotate_mod: "rotate (h mod length xs) xs = rotate h xs"
  by (rule rotate_conv_mod [symmetric])

lemma ring_take_view:
  assumes "br_head q < length (br_bytes q)" and "n \<le> length (br_bytes q)"
  shows "fst (ring_take n q) = take n (ring_view q) \<and> ring_view (snd (ring_take n q)) = drop n (ring_view q) @ replicate n 0
    \<and> br_head (snd (ring_take n q)) < length (br_bytes q) \<and> br_size (snd (ring_take n q)) = br_size q"
  using assms
proof (induction n arbitrary: q)
  case (Suc n)
  let ?q = "q\<lparr>br_bytes := (br_bytes q)[br_head q := 0], br_head := ring_next q (br_head q)\<rparr>"
  let ?b = "br_bytes q" and ?v = "ring_view q"
  have ne: "?b \<noteq> []" using Suc.prems by auto
  have v0: "?v \<noteq> []" "hd ?v = ?b ! br_head q" using ne Suc.prems(1) hd_rotate_conv_nth [of ?b "br_head q"] by (auto simp: ring_view_def)
  have upd: "rotate (br_head q) (?b[br_head q := 0]) = ?v[0 := 0]"
    using rotate_update [of 0 ?b "br_head q" 0] Suc.prems(1) ne by (simp add: ring_view_def)
  have "ring_view ?q = rotate (Suc (br_head q)) (?b[br_head q := 0])"
    using rotate_mod [of "Suc (br_head q)" "?b[br_head q := 0]"] Suc.prems(1) by (simp add: ring_view_def ring_next_mod)
  also have "\<dots> = tl (?v[0 := 0]) @ [hd (?v[0 := 0])]" using ne rotate_Suc [of "?b[br_head q := 0]" "br_head q"] by (simp only: upd) simp
  also have "\<dots> = tl ?v @ [0]" using v0(1) by (cases ?v) simp_all
  finally have vq: "ring_view ?q = tl ?v @ [0]" .
  have "br_head ?q < length (br_bytes ?q)" using Suc.prems(1) ne by (simp add: ring_next_mod)
  from Suc.IH [OF this] Suc.prems(2) have IH: "fst (ring_take n ?q) = take n (tl ?v @ [0])"
    "ring_view (snd (ring_take n ?q)) = drop n (tl ?v @ [0]) @ replicate n 0"
    "br_head (snd (ring_take n ?q)) < length ?b" "br_size (snd (ring_take n ?q)) = br_size q"
    by (simp_all add: vq)
  have len: "n \<le> length (tl ?v)" using Suc.prems(2) by simp
  show ?case using IH len v0 by (cases ?v) (auto simp: case_prod_beta replicate_append_same)
qed simp

lemma ring_put_view:
  assumes "br_head q < length (br_bytes q)" and "length b = length (br_bytes q)" and "k + length xs \<le> length b"
  shows "rotate (br_head q) (ring_put q ((br_head q + k) mod length b) xs b)
    = take k (rotate (br_head q) b) @ xs @ drop (k + length xs) (rotate (br_head q) b)
    \<and> length (ring_put q ((br_head q + k) mod length b) xs b) = length b"
  using assms(2,3)
proof (induction xs arbitrary: k b)
  case (Cons x xs)
  let ?i = "(br_head q + k) mod length b" let ?b = "b[?i := x]"
  have k: "k < length b" using Cons.prems(2) by simp
  have "?i < length b" using k by (intro mod_less_divisor) linarith
  then have nxt: "ring_next q ?i = (br_head q + Suc k) mod length ?b"
    using Cons.prems(1) ring_next_mod [of ?i q] by (simp add: mod_Suc_eq)
  have "length ?b = length (br_bytes q)" "Suc k + length xs \<le> length ?b" using Cons.prems by simp_all
  from Cons.IH [OF this] show ?case
    using k unfolding ring_put.simps nxt rotate_update [OF k] by (simp add: take_Suc_conv_app_nth drop_update_cancel)
qed simp

lemma ring_new_ok: "0 < n \<Longrightarrow> ring_ok (ring_new n)"
  by (simp add: ring_ok_def ring_new_def ring_view_def)

lemma ring_clear_ok: "0 < length (br_bytes q) \<Longrightarrow> ring_ok (ring_clear q) \<and> contents (ring_clear q) = []
    \<and> length (br_bytes (ring_clear q)) = length (br_bytes q)"
  by (auto simp: ring_ok_def ring_clear_def ring_view_def contents_def)

lemma ring_read_correct:
  assumes "ring_ok q"
  shows "fst (ring_read q n) = take n (contents q)" and "contents (snd (ring_read q n)) = drop n (contents q)"
    and "ring_ok (snd (ring_read q n))" and "length (br_bytes (snd (ring_read q n))) = length (br_bytes q)"
proof -
  let ?c = "if n < br_size q then n else br_size q" let ?r = "ring_take ?c q"
  have ok: "br_head q < length (br_bytes q)" "br_size q \<le> length (br_bytes q)" "\<forall>x\<in>set (drop (br_size q) (ring_view q)). x = 0"
    using assms by (simp_all add: ring_ok_def)
  have c: "?c \<le> br_size q" "?c \<le> length (br_bytes q)" using ok by simp_all
  note t = ring_take_view [OF ok(1) c(2)]
  have len: "length (br_bytes (snd ?r)) = length (br_bytes q)"
    using arg_cong [OF conjunct1 [OF conjunct2 [OF t]], of length] c by simp
  have read: "ring_read q n = (fst ?r, if br_size q - ?c = 0 then (snd ?r)\<lparr>br_size := br_size q - ?c, br_head := 0\<rparr>
      else (snd ?r)\<lparr>br_size := br_size q - ?c\<rparr>)"
    by (simp add: ring_read_def Let_def case_prod_beta)
  have tk: "take ?c (ring_view q) = take n (contents q)" unfolding contents_def take_take min_def by auto
  have dr: "take (br_size q - ?c) (drop ?c (ring_view q)) = drop n (contents q)" unfolding contents_def drop_take by auto
  show "fst (ring_read q n) = take n (contents q)" using t tk by (simp add: read)
  show "length (br_bytes (snd (ring_read q n))) = length (br_bytes q)" by (simp add: read len)
  have zeros: "\<forall>x\<in>set (drop (br_size q - ?c) (ring_view (snd ?r))). x = 0"
  proof -
    have "drop (br_size q - ?c) (ring_view (snd ?r)) = drop (br_size q) (ring_view q) @ replicate ?c 0"
      using t c ok by simp
    then show ?thesis using ok(3) by auto
  qed
  show "contents (snd (ring_read q n)) = drop n (contents q)"
  proof (cases "br_size q - ?c = 0")
    case True
    then show ?thesis using dr by (simp add: read contents_def)
  next
    case False
    then have "contents (snd (ring_read q n)) = take (br_size q - ?c) (ring_view (snd ?r))"
      by (simp add: read contents_def ring_view_def)
    then show ?thesis using t c ok dr by simp
  qed
  show "ring_ok (snd (ring_read q n))"
  proof (cases "br_size q - ?c = 0")
    case True
    then have "\<forall>x\<in>set (br_bytes (snd ?r)). x = 0" using zeros by (simp add: ring_view_def)
    then show ?thesis using True ok(1) by (auto simp: read ring_ok_def ring_view_def len)
  next
    case False
    then have f: "ring_view (snd (ring_read q n)) = ring_view (snd ?r)" "br_size (snd (ring_read q n)) = br_size q - ?c"
      "br_head (snd (ring_read q n)) = br_head (snd ?r)" "length (br_bytes (snd (ring_read q n))) = length (br_bytes q)"
      by (simp_all add: read ring_view_def len)
    show ?thesis unfolding ring_ok_def f using zeros t ok(2) by (intro conjI) auto
  qed
qed

lemma ring_write_correct:
  assumes "ring_ok q"
  defines "free \<equiv> length (br_bytes q) - br_size q"
  shows "fst (ring_write q xs) = min (length xs) free"
    and "contents (snd (ring_write q xs)) = contents q @ take free xs"
    and "ring_ok (snd (ring_write q xs))" and "length (br_bytes (snd (ring_write q xs))) = length (br_bytes q)"
proof -
  let ?b = "br_bytes q" let ?n = "length ?b" let ?ys = "take (min (length xs) free) xs"
  have ok: "br_head q < ?n" "br_size q \<le> ?n" "\<forall>x\<in>set (drop (br_size q) (ring_view q)). x = 0"
    using assms by (simp_all add: ring_ok_def)
  have tail: "(if br_head q \<ge> ?n - br_size q then br_head q - (?n - br_size q) else br_head q + br_size q) = (br_head q + br_size q) mod ?n"
    using ok(1,2) by (auto simp: mod_if)
  have wr: "ring_write q xs = (min (length xs) free,
      q\<lparr>br_bytes := ring_put q ((br_head q + br_size q) mod ?n) ?ys ?b, br_size := br_size q + min (length xs) free\<rparr>)"
    unfolding ring_write_def Let_def tail by (simp add: free_def min_def)
  have fit: "br_size q + length ?ys \<le> ?n" using ok(2) by (auto simp: free_def min_def)
  note v = ring_put_view [OF ok(1) refl fit]
  have ys: "?ys = take free xs" "length ?ys = min (length xs) free" by (simp_all add: min_def)
  show "fst (ring_write q xs) = min (length xs) free" by (simp add: wr)
  show "length (br_bytes (snd (ring_write q xs))) = ?n" using v by (simp add: wr)
  have view: "ring_view (snd (ring_write q xs)) = contents q @ ?ys @ drop (br_size q + length ?ys) (ring_view q)"
    using v by (simp add: wr ring_view_def contents_def)
  have lc: "length (contents q) = br_size q" by (rule length_contents [OF assms(1)])
  have sz: "br_size (snd (ring_write q xs)) = br_size q + length ?ys" by (simp add: wr)
  show "contents (snd (ring_write q xs)) = contents q @ take free xs"
    unfolding contents_def [of "snd _"] view sz using lc ys(1) by simp
  have "drop (br_size q + length ?ys) (ring_view (snd (ring_write q xs))) = drop (br_size q + length ?ys) (ring_view q)"
    unfolding view using lc by simp
  moreover have "set (drop (br_size q + length ?ys) (ring_view q)) \<subseteq> set (drop (br_size q) (ring_view q))"
    by (metis add.commute drop_drop set_drop_subset)
  ultimately have "\<forall>x\<in>set (drop (br_size q + length ?ys) (ring_view (snd (ring_write q xs)))). x = 0" using ok(3) by auto
  then show "ring_ok (snd (ring_write q xs))" using ok(1) fit v by (simp add: ring_ok_def sz) (simp add: wr)
qed

section \<open>Tables\<close>

lemma ring_ok_cleared:
  assumes "ring_ok q"
  shows "cleared_outside q"
  unfolding cleared_outside_def Let_def
proof (intro allI impI)
  fix i assume i: "i < length (br_bytes q)"
  let ?n = "length (br_bytes q)"
  let ?k = "if br_head q \<le> i then i - br_head q else ?n - br_head q + i"
  have h: "br_head q < ?n" using assms by (simp add: ring_ok_def)
  have k: "?k < ?n" using i h by auto
  have "(br_head q + ?k) mod ?n = i" using i h by (auto simp: mod_if)
  then have "br_bytes q ! i = ring_view q ! ?k" using k by (simp add: ring_view_def nth_rotate)
  moreover have "ring_view q ! ?k \<in> set (drop (br_size q) (ring_view q))" if "br_size q \<le> ?k"
  proof -
    have "ring_view q ! ?k = drop (br_size q) (ring_view q) ! (?k - br_size q)" using that k by simp
    moreover have "?k - br_size q < length (drop (br_size q) (ring_view q))" using that k by simp
    ultimately show ?thesis by (metis nth_mem)
  qed
  ultimately show "\<not> (br_size q \<le> ?k \<and> br_bytes q ! i \<noteq> 0)" using assms by (auto simp: ring_ok_def)
qed

text \<open>A pair: both rings in order, nothing buffered for a side that is gone, and no side alive in a free pair.\<close>

definition pair_ok :: "pty_pair \<Rightarrow> bool" where
  "pair_ok p \<longleftrightarrow> ring_ok (pp_master_input p) \<and> ring_ok (pp_slave_input p) \<and>
     (pp_master_alive p \<or> br_size (pp_master_input p) = 0) \<and> (pp_slave_alive p \<or> br_size (pp_slave_input p) = 0) \<and>
     (pp_used p \<or> \<not> pp_master_alive p \<and> \<not> pp_slave_alive p)"

definition pty_ok :: "pty_table \<Rightarrow> bool" where
  "pty_ok t \<longleftrightarrow> (\<forall>p \<in> set (pt_pairs t). pair_ok p)"

lemma pty_ok_put: "pty_ok t \<Longrightarrow> pair_ok p \<Longrightarrow> pty_ok (put_pair t i p)"
  using set_update_subset_insert [of "pt_pairs t" i p] by (auto simp: pty_ok_def put_pair_def)

lemma pty_resolve_Some:
  assumes "pty_resolve t h = Some p" and "pty_ok t"
  shows "pair_ok p" and "local_alive p (ph_side h)" and "pp_used p"
  using assms by (auto simp: pty_resolve_def pty_ok_def Let_def split: if_splits)

lemma advance_fields [simp]:
  "pp_master_input (advance_revision t p) = pp_master_input p" "pp_slave_input (advance_revision t p) = pp_slave_input p"
  "pp_used (advance_revision t p) = pp_used p" "pp_master_alive (advance_revision t p) = pp_master_alive p"
  "pp_slave_alive (advance_revision t p) = pp_slave_alive p"
  by (simp_all add: advance_revision_def)

lemma pair_ok_advance [simp]: "pair_ok (advance_revision t p) = pair_ok p"
  by (simp add: pair_ok_def)

lemma ring_ok_side: "pair_ok p \<Longrightarrow> ring_ok (incoming p s)" "pair_ok p \<Longrightarrow> ring_ok (outgoing p s)"
  by (simp_all add: pair_ok_def incoming_def outgoing_def)

lemma pair_ok_set_incoming: "pair_ok p \<Longrightarrow> local_alive p s \<Longrightarrow> ring_ok q \<Longrightarrow> pair_ok (set_incoming s q p)"
  by (cases s) (auto simp: pair_ok_def local_alive_def set_incoming_def)

lemma pair_ok_set_outgoing: "pair_ok p \<Longrightarrow> peer_alive p s \<Longrightarrow> ring_ok q \<Longrightarrow> pair_ok (set_outgoing s q p)"
  by (cases s) (auto simp: pair_ok_def peer_alive_def set_outgoing_def)

lemma ring_read_ok: "ring_read q n = (out, q') \<Longrightarrow> ring_ok q \<Longrightarrow> ring_ok q'"
  using ring_read_correct(3) [of q n] by simp

lemma ring_write_ok: "ring_write q xs = (count, q') \<Longrightarrow> ring_ok q \<Longrightarrow> ring_ok q'"
  using ring_write_correct(3) [of q xs] by simp

lemma pty_read_ok:
  assumes "pty_ok t"
  shows "pty_ok (snd (pty_read t h n))"
proof (cases "pty_resolve t h")
  case (Some p)
  note r = pty_resolve_Some [OF Some assms]
  obtain out q where q: "ring_read (incoming p (ph_side h)) n = (out, q)" by fastforce
  have "pty_ok (put_pair t (ph_slot h) (advance_revision t (set_incoming (ph_side h) q p)))"
    using assms pair_ok_set_incoming [OF r(1,2) ring_read_ok [OF q ring_ok_side(1) [OF r(1)]]] by (simp add: pty_ok_put)
  then show ?thesis unfolding pty_read_def Some option.case q prod.case Let_def by (simp add: assms)
qed (simp add: pty_read_def assms)

lemma pty_write_ok:
  assumes "pty_ok t"
  shows "pty_ok (snd (pty_write t h xs))"
proof (cases "pty_resolve t h")
  case (Some p)
  note r = pty_resolve_Some [OF Some assms]
  obtain count q where q: "ring_write (outgoing p (ph_side h)) xs = (count, q)" by fastforce
  have "peer_alive p (ph_side h) \<Longrightarrow> pty_ok (put_pair t (ph_slot h) (advance_revision t (set_outgoing (ph_side h) q p)))"
    using assms pair_ok_set_outgoing [OF r(1) _ ring_write_ok [OF q ring_ok_side(2) [OF r(1)]]] by (simp add: pty_ok_put)
  then show ?thesis unfolding pty_write_def Some option.case q prod.case Let_def by (simp add: assms)
qed (simp add: pty_write_def assms)

lemma ring_cleared: "ring_ok q \<Longrightarrow> ring_ok (ring_clear q) \<and> br_size (ring_clear q) = 0"
proof -
  assume "ring_ok q"
  then have "0 < length (br_bytes q)" unfolding ring_ok_def by linarith
  then show ?thesis using ring_clear_ok [of q] by (simp add: ring_clear_def)
qed

lemma pty_retire_ok:
  assumes "pty_ok t"
  shows "pty_ok (snd (pty_retire t h))"
proof (cases "pty_resolve t h")
  case (Some p)
  note r = pty_resolve_Some [OF Some assms]
  have c: "ring_ok (ring_clear (pp_master_input p))" "br_size (ring_clear (pp_master_input p)) = 0"
    "ring_ok (ring_clear (pp_slave_input p))" "br_size (ring_clear (pp_slave_input p)) = 0"
    "ring_ok (ring_clear (ring_clear (pp_master_input p)))" "br_size (ring_clear (ring_clear (pp_master_input p))) = 0"
    "ring_ok (ring_clear (ring_clear (pp_slave_input p)))" "br_size (ring_clear (ring_clear (pp_slave_input p))) = 0"
    using r(1) ring_cleared by (simp_all add: pair_ok_def)
  show ?thesis
    using assms Some r c
    by (cases "ph_side h") (auto simp: pty_retire_def Let_def set_incoming_def incoming_def pair_ok_def intro!: pty_ok_put)
qed (simp add: pty_retire_def assms)

lemma pty_create_ok:
  assumes "pty_ok t"
  shows "pty_ok (snd (pty_create t))"
proof (cases "first_index (\<lambda>p. \<not> pp_used p \<and> pp_generation p \<noteq> pt_generation_limit t) (pt_pairs t)")
  case (Some i)
  let ?p = "pt_pairs t ! i"
  have "pair_ok ?p" using assms by (simp add: pty_ok_def first_indexD(1) [OF Some])
  then have "ring_ok (pp_master_input ?p)" and "ring_ok (pp_slave_input ?p)" by (simp_all add: pair_ok_def)
  then have "pair_ok \<lparr>pp_master_input = ring_clear (pp_master_input ?p), pp_slave_input = ring_clear (pp_slave_input ?p),
      pp_generation = pp_generation ?p + 1, pp_revision = 1, pp_used = True, pp_master_alive = True, pp_slave_alive = True\<rparr>"
    by (simp add: pair_ok_def ring_cleared)
  then show ?thesis unfolding pty_create_def Some option.case Let_def snd_conv by (rule pty_ok_put [OF assms])
next
  case None
  then show ?thesis using assms by (simp add: pty_create_def del: first_index_None)
qed

lemma pty_commit_ok: "pty_ok t \<Longrightarrow> pty_ok (snd (snd (preview_commit t r)))"
  using pty_read_ok [of t "rd_handle r" "length (rd_bytes r)"]
  by (auto simp: preview_commit_def Let_def split: option.splits prod.splits)

text \<open>Sequences of operations; a previewed read is committed with any preview.\<close>

datatype pty_op =
    PO_create
  | PO_read pty_handle nat
  | PO_write pty_handle "u8 list"
  | PO_retire pty_handle
  | PO_commit prepared_read

fun pty_exec :: "pty_op \<Rightarrow> pty_table \<Rightarrow> pty_table" where
  "pty_exec PO_create t = snd (pty_create t)"
| "pty_exec (PO_read h n) t = snd (pty_read t h n)"
| "pty_exec (PO_write h xs) t = snd (pty_write t h xs)"
| "pty_exec (PO_retire h) t = snd (pty_retire t h)"
| "pty_exec (PO_commit r) t = snd (snd (preview_commit t r))"

lemma pty_exec_ok: "pty_ok t \<Longrightarrow> pty_ok (pty_exec x t)"
  by (cases x) (simp_all add: pty_create_ok pty_read_ok pty_write_ok pty_retire_ok pty_commit_ok)

lemma pty_run_ok: "pty_ok t \<Longrightarrow> pty_ok (fold pty_exec ops t)"
  by (induction ops arbitrary: t) (simp_all add: pty_exec_ok)

definition audit_step :: "pty_pair \<Rightarrow> pty_audit \<Rightarrow> pty_audit" where
  "audit_step p a = a\<lparr>
       pa_live_pairs := pa_live_pairs a + (if pp_used p then 1 else 0),
       pa_live_endpoints := pa_live_endpoints a + (if pp_master_alive p then 1 else 0) + (if pp_slave_alive p then 1 else 0),
       pa_buffered := pa_buffered a + (br_size (pp_master_input p) + br_size (pp_slave_input p)),
       pa_cleared := (pa_cleared a \<and> cleared_outside (pp_master_input p) \<and> cleared_outside (pp_slave_input p)
         \<and> (pp_master_alive p \<or> br_size (pp_master_input p) = 0) \<and> (pp_slave_alive p \<or> br_size (pp_slave_input p) = 0)
         \<and> (pp_used p \<or> (\<not> pp_master_alive p \<and> \<not> pp_slave_alive p)))\<rparr>"

lemma audit_fold:
  "\<forall>p \<in> set ps. pair_ok p \<Longrightarrow> pa_cleared (fold audit_step ps a) = pa_cleared a \<and>
     pa_buffered (fold audit_step ps a) = pa_buffered a + sum_list (map (\<lambda>p. length (contents (pp_master_input p)) + length (contents (pp_slave_input p))) ps)"
proof (induction ps arbitrary: a)
  case (Cons p ps)
  then have p: "pair_ok p" by simp
  then have "pa_cleared (audit_step p a) = pa_cleared a"
    by (auto simp: audit_step_def pair_ok_def ring_ok_cleared)
  moreover have "pa_buffered (audit_step p a) = pa_buffered a + (length (contents (pp_master_input p)) + length (contents (pp_slave_input p)))"
    using p by (simp add: audit_step_def pair_ok_def length_contents)
  ultimately show ?case using Cons.IH [of "audit_step p a"] Cons.prems by simp
qed simp

section \<open>Property\<close>

text \<open>
  C13: the audit of the terminal table always passes. With rings of at least one byte, after any
  sequence of creations, reads, writes, retirements and committed previews, every ring byte
  outside the live ones is zero, no bytes are buffered for a side that is gone, no side is alive in
  a free pair, and the buffered bytes the audit counts are the live contents of the rings.
\<close>

theorem pty_audit_always_clean:
  assumes "0 < capacity" and "t = fold pty_exec ops (pty_table_new pairs capacity generations revisions initial)"
  shows "pa_cleared (pty_audit_of t) \<and>
    pa_buffered (pty_audit_of t)
      = sum_list (map (\<lambda>p. length (contents (pp_master_input p)) + length (contents (pp_slave_input p))) (pt_pairs t))"
proof -
  have "pty_ok (pty_table_new pairs capacity generations revisions initial)"
    using ring_new_ok [OF assms(1)] by (auto simp: pty_ok_def pty_table_new_def pair_ok_def) (simp_all add: ring_new_def)
  then have "\<forall>p \<in> set (pt_pairs t). pair_ok p"
    using pty_run_ok unfolding assms(2) by (auto simp: pty_ok_def)
  moreover have "pty_audit_of t = fold audit_step (pt_pairs t)
      \<lparr>pa_live_pairs = 0, pa_live_endpoints = 0, pa_buffered = 0, pa_cleared = True\<rparr>"
    unfolding pty_audit_of_def audit_step_def ..
  ultimately show ?thesis by (simp add: audit_fold)
qed

theorem pty_audit_always_clean_witness:
  "pa_cleared (pty_audit_of (fold pty_exec
     [PO_create, PO_write \<lparr>ph_slot = 0, ph_generation = 1, ph_side = Pty_master\<rparr> [1, 2, 3],
      PO_read \<lparr>ph_slot = 0, ph_generation = 1, ph_side = Pty_slave\<rparr> 2]
     (pty_table_new 1 4 9 9 0)))"
  by (rule conjunct1 [OF pty_audit_always_clean [OF _ refl]]) simp

end
