(* ===== verification/OK_Wire.thy ===== *)
theory OK_Wire
  imports OK_Prelude
begin

text \<open>
  The packet codecs of \<^verbatim>\<open>net/wire.hpp\<close> and \<^verbatim>\<open>net/tcp_wire.hpp\<close>. A byte span is the list of its
  bytes, and a borrowed view is the list it shows. Where a builder compares the addresses of its
  input and of its output, both addresses are arguments; past that comparison the two spans are
  disjoint, so the input does not change while the output is written. A span handed to a field
  helper covers the field, which the parsers check first.
\<close>

section \<open>Fields and the Internet checksum\<close>

type_synonym bytes = "u8 list"
type_synonym mac = "u8 list"
type_synonym ipv4_address = "u8 list"

definition byte_at :: "bytes \<Rightarrow> nat \<Rightarrow> u8" where
  "byte_at bs i = bs ! i"

definition be16 :: "bytes \<Rightarrow> nat \<Rightarrow> u16" where
  "be16 bs i = push_bit 8 (ucast (byte_at bs i)) OR ucast (byte_at bs (i + 1))"

definition put_be16 :: "bytes \<Rightarrow> nat \<Rightarrow> u16 \<Rightarrow> bytes" where
  "put_be16 bs i v = bs[i := ucast (drop_bit 8 v), i + 1 := ucast v]"

definition fold16 :: "u32 \<Rightarrow> u32" where
  "fold16 v = (v AND 0xffff) + drop_bit 16 v"

text \<open>One 16-bit group of the summation loop; a missing second byte counts as zero.\<close>

definition sum_group :: "u8 \<Rightarrow> u8 \<Rightarrow> u16" where
  "sum_group hi lo = push_bit 8 (ucast hi) OR ucast lo"

fun sum_loop :: "bytes \<Rightarrow> u32 \<Rightarrow> u32" where
  "sum_loop [] v = v"
| "sum_loop [x] v = fold16 (v + ucast (sum_group x 0))"
| "sum_loop (x # y # bs) v = sum_loop bs (fold16 (v + ucast (sum_group x y)))"

lemma unat_low16: "unat (v AND 0xffff :: u32) = unat v mod 65536"
proof -
  have "v AND 0xffff = take_bit 16 v" by (simp add: take_bit_eq_mask mask_eq_exp_minus_1)
  then show ?thesis by (simp add: take_bit_eq_mod unat_mod)
qed

lemma unat_high16: "unat (drop_bit 16 v :: u32) = unat v div 65536"
  by (simp add: drop_bit_eq_div unat_div)

lemma unat_fold16: "unat (fold16 v) = unat v mod 65536 + unat v div 65536"
proof -
  have "unat v < 4294967296" using unsigned_less [of v, where ?'a = nat] by simp
  then have "unat v mod 65536 + unat v div 65536 < 4294967296" by linarith
  then show ?thesis unfolding fold16_def by (simp add: unat_word_ariths unat_low16 unat_high16)
qed

text \<open>The closing loop folds until no carry is left; each round makes the value smaller.\<close>

function sum_fold :: "u32 \<Rightarrow> u32" where
  "sum_fold v = (if drop_bit 16 v \<noteq> 0 then sum_fold (fold16 v) else v)"
  by auto
termination
proof (relation "measure unat")
  fix v :: u32
  assume "drop_bit 16 v \<noteq> 0"
  then have "unat (drop_bit 16 v) \<noteq> 0" unfolding unat_eq_0 .
  then have "0 < unat v div 65536" unfolding unat_high16 by blast
  moreover have "unat v = 65536 * (unat v div 65536) + unat v mod 65536" by simp
  ultimately have "unat v mod 65536 + unat v div 65536 < unat v" by linarith
  then show "(fold16 v, v) \<in> measure unat" by (simp add: unat_fold16)
qed simp

declare sum_fold.simps [simp del]

definition wire_sum :: "bytes \<Rightarrow> u32 \<Rightarrow> u32" where
  "wire_sum bs initial = sum_fold (sum_loop bs (fold16 initial))"

definition checksum :: "bytes \<Rightarrow> u16" where
  "checksum bs = ucast (NOT (wire_sum bs 0))"

section \<open>Ethernet and ARP\<close>

record ethernet_view =
  eth_destination :: mac
  eth_source :: mac
  eth_type :: u16
  eth_payload :: bytes

definition ethernet :: "bytes \<Rightarrow> ethernet_view result" where
  "ethernet frame =
     (if length frame < 14 then Inl S_invalid_argument
      else let type = be16 frame 12 in
        if type < 0x0600 then Inl S_unsupported
        else if type = 0x8100 \<or> type = 0x88a8 then Inl S_unsupported
        else Inr \<lparr>eth_destination = map (\<lambda>i. byte_at frame i) [0..<6],
                   eth_source = map (\<lambda>i. byte_at frame (i + 6)) [0..<6],
                   eth_type = type, eth_payload = drop 14 frame\<rparr>)"

record arp_view =
  arp_operation :: u16
  arp_sender_mac :: mac
  arp_target_mac :: mac
  arp_sender_ip :: ipv4_address
  arp_target_ip :: ipv4_address

definition arp :: "bytes \<Rightarrow> arp_view result" where
  "arp payload =
     (if length payload < 28 then Inl S_invalid_argument
      else if be16 payload 0 \<noteq> 1 \<or> be16 payload 2 \<noteq> 0x0800 \<or> byte_at payload 4 \<noteq> 6 \<or> byte_at payload 5 \<noteq> 4
        then Inl S_unsupported
      else let operation = be16 payload 6 in
        if operation \<noteq> 1 \<and> operation \<noteq> 2 then Inl S_unsupported
        else Inr \<lparr>arp_operation = operation,
                   arp_sender_mac = map (\<lambda>i. byte_at payload (8 + i)) [0..<6],
                   arp_target_mac = map (\<lambda>i. byte_at payload (18 + i)) [0..<6],
                   arp_sender_ip = map (\<lambda>i. byte_at payload (14 + i)) [0..<4],
                   arp_target_ip = map (\<lambda>i. byte_at payload (24 + i)) [0..<4]\<rparr>)"

section \<open>IPv4\<close>

record ipv4_packet =
  p4_source :: ipv4_address
  p4_destination :: ipv4_address
  p4_traffic_class :: u8
  p4_ttl :: u8
  p4_protocol :: u8
  p4_identification :: u16
  p4_dont_fragment :: bool
  p4_payload :: bytes

definition ipv4 :: "bytes \<Rightarrow> ipv4_packet result" where
  "ipv4 packet =
     (if length packet < 20 then Inl S_invalid_argument
      else if drop_bit 4 (byte_at packet 0) \<noteq> 4 then Inl S_unsupported
      else let header = unat (byte_at packet 0 AND 15) * 4 in
        if header < 20 \<or> header > length packet then Inl S_invalid_argument
        else let len = unat (be16 packet 2) in
          if len < header \<or> len > length packet then Inl S_invalid_argument
          else if checksum (take header packet) \<noteq> 0 then Inl S_invalid_argument
          else let fragments = be16 packet 6 in
            if fragments AND 0x8000 \<noteq> 0 then Inl S_invalid_argument
            else if fragments AND 0x3fff \<noteq> 0 then Inl S_unsupported
            else if header \<noteq> 20 then Inl S_unsupported
            else Inr \<lparr>p4_source = map (\<lambda>i. byte_at packet (12 + i)) [0..<4],
                       p4_destination = map (\<lambda>i. byte_at packet (16 + i)) [0..<4],
                       p4_traffic_class = byte_at packet 1, p4_ttl = byte_at packet 8,
                       p4_protocol = byte_at packet 9, p4_identification = be16 packet 4,
                       p4_dont_fragment = (fragments AND 0x4000 \<noteq> 0),
                       p4_payload = take (len - header) (drop header packet)\<rparr>)"

definition address_group :: "u8 list \<Rightarrow> nat \<Rightarrow> u32" where
  "address_group a i = push_bit 8 (ucast (a ! i)) OR ucast (a ! (i + 1))"

definition pseudo_sum4 :: "ipv4_address \<Rightarrow> ipv4_address \<Rightarrow> u8 \<Rightarrow> u16 \<Rightarrow> u32" where
  "pseudo_sum4 source destination protocol len =
     (let v0 = ucast protocol + ucast len;
          v1 = fold (\<lambda>i v. v + address_group source i) [0, 2] v0;
          v2 = fold (\<lambda>i v. v + address_group destination i) [0, 2] v1
      in fold16 v2)"

section \<open>UDP\<close>

record udp_view =
  udp_source_port :: u16
  udp_destination_port :: u16
  udp_checksum_present :: bool
  udp_payload :: bytes

definition udp4 :: "ipv4_packet \<Rightarrow> udp_view result" where
  "udp4 ip =
     (if p4_protocol ip \<noteq> 17 then Inl S_unsupported
      else if length (p4_payload ip) < 8 then Inl S_invalid_argument
      else let len = unat (be16 (p4_payload ip) 4) in
        if len < 8 \<or> len > length (p4_payload ip) then Inl S_invalid_argument
        else let datagram = take len (p4_payload ip) in
          if be16 datagram 2 = 0 then Inl S_invalid_argument
          else let present = be16 datagram 6 \<noteq> 0 in
            if present \<and> wire_sum datagram
                 (pseudo_sum4 (p4_source ip) (p4_destination ip) 17 (of_nat len)) \<noteq> 0xffff
            then Inl S_invalid_argument
            else Inr \<lparr>udp_source_port = be16 datagram 0, udp_destination_port = be16 datagram 2,
                       udp_checksum_present = present, udp_payload = drop 8 datagram\<rparr>)"

text \<open>Writing the bytes of \<open>xs\<close> from offset \<open>i\<close> on, one by one, and clearing \<open>n\<close> bytes.\<close>

primrec put_bytes :: "bytes \<Rightarrow> nat \<Rightarrow> bytes \<Rightarrow> bytes" where
  "put_bytes out i [] = out"
| "put_bytes out i (x # xs) = put_bytes (out[i := x]) (i + 1) xs"

definition zero_bytes :: "bytes \<Rightarrow> nat \<Rightarrow> nat \<Rightarrow> bytes" where
  "zero_bytes out i n = put_bytes out i (replicate n 0)"

text \<open>The 20-byte header every IPv4 builder writes, the checksum last.\<close>

definition ipv4_fields :: "bytes \<Rightarrow> ipv4_address \<Rightarrow> ipv4_address \<Rightarrow> u8 \<Rightarrow> u16 \<Rightarrow> u8 \<Rightarrow> u16 \<Rightarrow> bytes" where
  "ipv4_fields out source destination protocol total_length ttl identification =
     (let o1 = out[0 := 0x45, 8 := ttl, 9 := protocol];
          o2 = put_be16 (put_be16 (put_be16 o1 2 total_length) 4 identification) 6 0x4000;
          o3 = put_bytes (put_bytes o2 12 source) 16 destination
      in put_be16 o3 10 (checksum (take 20 o3)))"

definition build_udp4 :: "bytes \<Rightarrow> uptr \<Rightarrow> ipv4_address \<Rightarrow> ipv4_address \<Rightarrow> u16 \<Rightarrow> u16 \<Rightarrow> u16 \<Rightarrow> u8 \<Rightarrow> bytes \<Rightarrow> uptr
    \<Rightarrow> nat result \<times> bytes" where
  "build_udp4 out out_at source destination source_port destination_port identification ttl payload in_at =
     (if ttl = 0 then (Inl S_invalid_argument, out)
      else if length payload > 65507 \<or> length out < 28 + length payload then (Inl S_overflow, out)
      else let len = 28 + length payload in
        if payload \<noteq> [] \<and> (if in_at \<ge> out_at then unat (in_at - out_at) < len
                              else unat (out_at - in_at) < length payload)
        then (Inl S_invalid_argument, out)
        else let o1 = ipv4_fields (zero_bytes out 0 28) source destination 17 (of_nat len) ttl identification;
                 o2 = put_be16 (put_be16 (put_be16 o1 20 source_port) 22 destination_port) 24 (of_nat (len - 20));
                 o3 = put_bytes o2 28 payload;
                 c = ucast (NOT (wire_sum (take (len - 20) (drop 20 o3))
                       (pseudo_sum4 source destination 17 (of_nat (len - 20)))));
                 c' = (if c = 0 then 0xffff else c)
             in (Inr len, put_be16 o3 26 c'))"

section \<open>TCP\<close>

definition tcp_syn :: u8 where
  "tcp_syn = 0x02"

record tcp_option =
  opt_kind :: u8
  opt_bytes :: bytes
  opt_data :: bytes

text \<open>The option cursor: the size of the whole span, the part not read yet, and the flags.\<close>

record tcp_options =
  to_size :: nat
  to_rest :: bytes
  to_flags :: u8

definition tcp_options_new :: "bytes \<Rightarrow> u8 \<Rightarrow> tcp_options" where
  "tcp_options_new opts flags = \<lparr>to_size = length opts, to_rest = opts, to_flags = flags\<rparr>"

definition tcp_options_next :: "tcp_options \<Rightarrow> tcp_option option result \<times> tcp_options" where
  "tcp_options_next c =
     (let rest = to_rest c in
      if to_size c > 40 then (Inl S_invalid_argument, c)
      else if rest = [] then (Inr None, c)
      else let kind = byte_at rest 0 in
        if kind = 0 then
          (if \<exists>b \<in> set (drop 1 rest). b \<noteq> 0 then (Inl S_invalid_argument, c)
           else (Inr (Some \<lparr>opt_kind = kind, opt_bytes = take 1 rest, opt_data = []\<rparr>), c\<lparr>to_rest := []\<rparr>))
        else if kind = 1 then
          (Inr (Some \<lparr>opt_kind = kind, opt_bytes = take 1 rest, opt_data = []\<rparr>), c\<lparr>to_rest := drop 1 rest\<rparr>)
        else if length rest < 2 then (Inl S_invalid_argument, c)
        else let len = unat (byte_at rest 1) in
          if len < 2 \<or> len > length rest then (Inl S_invalid_argument, c)
          else if kind = 2 \<and> (len \<noteq> 4 \<or> to_flags c AND tcp_syn = 0) then (Inl S_invalid_argument, c)
          else (Inr (Some \<lparr>opt_kind = kind, opt_bytes = take len rest, opt_data = drop 2 (take len rest)\<rparr>),
                c\<lparr>to_rest := drop len rest\<rparr>))"

lemma tcp_options_next_shrinks:
  "tcp_options_next c = (Inr (Some q), c') \<Longrightarrow> length (to_rest c') < length (to_rest c)"
  by (auto simp: tcp_options_next_def Let_def split: if_splits)

function tcp_options_loop :: "tcp_options \<Rightarrow> status_code" where
  "tcp_options_loop c =
     (case tcp_options_next c of
        (Inl e, _) \<Rightarrow> e
      | (Inr None, _) \<Rightarrow> S_ok
      | (Inr (Some _), c') \<Rightarrow> tcp_options_loop c')"
  by auto
termination
  by (relation "measure (\<lambda>c. length (to_rest c))") (auto dest: tcp_options_next_shrinks [OF sym])

declare tcp_options_loop.simps [simp del]

definition tcp_options_status :: "bytes \<Rightarrow> u8 \<Rightarrow> status_code" where
  "tcp_options_status opts flags = tcp_options_loop (tcp_options_new opts flags)"

definition be32 :: "bytes \<Rightarrow> nat \<Rightarrow> u32" where
  "be32 bs i = push_bit 16 (ucast (be16 bs i)) OR ucast (be16 bs (i + 2))"

definition put_be32 :: "bytes \<Rightarrow> nat \<Rightarrow> u32 \<Rightarrow> bytes" where
  "put_be32 bs i v = put_be16 (put_be16 bs i (ucast (drop_bit 16 v))) (i + 2) (ucast v)"

text \<open>Spans overlap: the sizes and the addresses of the input and of the output.\<close>

definition overlaps :: "nat \<Rightarrow> uptr \<Rightarrow> nat \<Rightarrow> uptr \<Rightarrow> bool" where
  "overlaps in_size in_at out_size out_at =
     (if in_size = 0 \<or> out_size = 0 then False
      else if in_at \<ge> out_at then unat (in_at - out_at) < out_size
      else unat (out_at - in_at) < in_size)"

record tcp_fields =
  tf_source_port :: u16
  tf_destination_port :: u16
  tf_sequence :: u32
  tf_acknowledgment :: u32
  tf_flags :: u8
  tf_window :: u16
  tf_urgent_pointer :: u16

record tcp_view =
  tcp_fields_of :: tcp_fields
  tcp_options_of :: bytes
  tcp_payload :: bytes

definition tcp_segment :: "bytes \<Rightarrow> nat \<Rightarrow> tcp_view" where
  "tcp_segment segment header =
     \<lparr>tcp_fields_of = \<lparr>tf_source_port = be16 segment 0, tf_destination_port = be16 segment 2,
                       tf_sequence = be32 segment 4, tf_acknowledgment = be32 segment 8,
                       tf_flags = byte_at segment 13, tf_window = be16 segment 14,
                       tf_urgent_pointer = be16 segment 18\<rparr>,
      tcp_options_of = take (header - 20) (drop 20 segment), tcp_payload = drop header segment\<rparr>"

definition tcp4 :: "ipv4_packet \<Rightarrow> tcp_view result" where
  "tcp4 ip =
     (if p4_protocol ip \<noteq> 6 then Inl S_unsupported
      else let segment = p4_payload ip in
        if length segment < 20 \<or> length segment > 65515 then Inl S_invalid_argument
        else let header = unat (drop_bit 4 (byte_at segment 12)) * 4 in
          if header < 20 \<or> header > length segment then Inl S_invalid_argument
          else if wire_sum segment (pseudo_sum4 (p4_source ip) (p4_destination ip) 6 (of_nat (length segment))) \<noteq> 0xffff
            then Inl S_invalid_argument
          else let status = tcp_options_status (take (header - 20) (drop 20 segment)) (byte_at segment 13) in
            if \<not> status_ok status then Inl status
            else Inr (tcp_segment segment header))"

text \<open>The length of the TCP header: the fixed part and the options rounded up to four bytes.\<close>

definition tcp_header_size :: "nat \<Rightarrow> nat" where
  "tcp_header_size n = 20 + (n + 3) div 4 * 4"

text \<open>The fields of the TCP header at offset \<open>at\<close>, as both builders write them.\<close>

definition put_tcp_fields :: "bytes \<Rightarrow> nat \<Rightarrow> tcp_fields \<Rightarrow> nat \<Rightarrow> bytes" where
  "put_tcp_fields out i f header =
     (let o1 = put_be16 (put_be16 out i (tf_source_port f)) (i + 2) (tf_destination_port f);
          o2 = put_be32 (put_be32 o1 (i + 4) (tf_sequence f)) (i + 8) (tf_acknowledgment f);
          o3 = o2[i + 12 := push_bit 4 (of_nat (header div 4)), i + 13 := tf_flags f]
      in put_be16 (put_be16 o3 (i + 14) (tf_window f)) (i + 18) (tf_urgent_pointer f))"

definition build_tcp4 :: "bytes \<Rightarrow> uptr \<Rightarrow> ipv4_address \<Rightarrow> ipv4_address \<Rightarrow> u16 \<Rightarrow> u8 \<Rightarrow> tcp_fields
    \<Rightarrow> bytes \<Rightarrow> uptr \<Rightarrow> bytes \<Rightarrow> uptr \<Rightarrow> nat result \<times> bytes" where
  "build_tcp4 out out_at source destination identification ttl f opts opts_at payload payload_at =
     (if ttl = 0 then (Inl S_invalid_argument, out)
      else if \<not> status_ok (tcp_options_status opts (tf_flags f))
        then (Inl (tcp_options_status opts (tf_flags f)), out)
      else let header = tcp_header_size (length opts) in
        if length payload > 65515 - header then (Inl S_overflow, out)
        else let len = 20 + header + length payload in
          if length out < len then (Inl S_overflow, out)
          else if overlaps (length opts) opts_at len out_at \<or> overlaps (length payload) payload_at len out_at
            then (Inl S_invalid_argument, out)
          else let o1 = ipv4_fields (zero_bytes out 0 (20 + header)) source destination 6 (of_nat len) ttl identification;
                   o2 = put_tcp_fields o1 20 f header;
                   o3 = put_bytes (put_bytes o2 40 opts) (20 + header) payload;
                   c = ucast (NOT (wire_sum (take (len - 20) (drop 20 o3))
                         (pseudo_sum4 source destination 6 (of_nat (len - 20)))))
               in (Inr len, put_be16 o3 36 c))"

end
