(* ===== verification/OK_Ip.thy ===== *)
theory OK_Ip
  imports OK_Wire
begin

text \<open>
  The IPv6 codec and the family-generic transport codecs of \<^verbatim>\<open>net/ip.hpp\<close>, and the address type
  of \<^verbatim>\<open>net/address.hpp\<close>. The template parameter \<open>Family\<close> is a record of the constants and
  functions the concept \<open>AddressFamily\<close> asks for.
\<close>

section \<open>Addresses\<close>

type_synonym ipv6_address = "u8 list"

definition ethertype_ipv4 :: u16 where "ethertype_ipv4 = 0x0800"
definition ethertype_ipv6 :: u16 where "ethertype_ipv6 = 0x86dd"
definition protocol_icmp :: u8 where "protocol_icmp = 1"
definition protocol_tcp :: u8 where "protocol_tcp = 6"
definition protocol_udp :: u8 where "protocol_udp = 17"
definition protocol_icmpv6 :: u8 where "protocol_icmpv6 = 58"

definition mac_multicast :: "mac \<Rightarrow> bool" where
  "mac_multicast m \<longleftrightarrow> m ! 0 AND 1 \<noteq> 0"

definition multicast4 :: "ipv4_address \<Rightarrow> bool" where
  "multicast4 a \<longleftrightarrow> a ! 0 \<ge> 224 \<and> a ! 0 < 240"

definition broadcast4 :: "ipv4_address \<Rightarrow> bool" where
  "broadcast4 a \<longleftrightarrow> a = [255, 255, 255, 255]"

definition unspecified4 :: "ipv4_address \<Rightarrow> bool" where
  "unspecified4 a \<longleftrightarrow> a = replicate 4 0"

definition loopback4 :: "ipv4_address \<Rightarrow> bool" where
  "loopback4 a \<longleftrightarrow> a ! 0 = 127"

definition multicast6 :: "ipv6_address \<Rightarrow> bool" where
  "multicast6 a \<longleftrightarrow> a ! 0 = 0xff"

definition unspecified6 :: "ipv6_address \<Rightarrow> bool" where
  "unspecified6 a \<longleftrightarrow> a = replicate 16 0"

definition loopback6 :: "ipv6_address \<Rightarrow> bool" where
  "loopback6 a \<longleftrightarrow> a = (replicate 16 0)[15 := 1]"

definition link_local :: "ipv6_address \<Rightarrow> bool" where
  "link_local a \<longleftrightarrow> a ! 0 = 0xfe \<and> a ! 1 AND 0xc0 = 0x80"

definition ipv4_mapped :: "ipv6_address \<Rightarrow> bool" where
  "ipv4_mapped a \<longleftrightarrow> (\<forall>i<10. a ! i = 0) \<and> a ! 10 = 0xff \<and> a ! 11 = 0xff"

definition solicited_node :: "ipv6_address \<Rightarrow> ipv6_address" where
  "solicited_node t = [0xff, 0x02, 0, 0, 0, 0, 0, 0, 0, 0, 0, 1, 0xff, t ! 13, t ! 14, t ! 15]"

definition multicast_mac :: "ipv6_address \<Rightarrow> mac" where
  "multicast_mac a = [0x33, 0x33, a ! 12, a ! 13, a ! 14, a ! 15]"

definition with_interface_id :: "ipv6_address \<Rightarrow> mac \<Rightarrow> ipv6_address" where
  "with_interface_id p m =
     p[8 := (m ! 0) XOR 2, 9 := m ! 1, 10 := m ! 2, 11 := 0xff,
       12 := 0xfe, 13 := m ! 3, 14 := m ! 4, 15 := m ! 5]"

definition link_local_from_mac :: "mac \<Rightarrow> ipv6_address" where
  "link_local_from_mac m = with_interface_id ((replicate 16 0)[0 := 0xfe, 1 := 0x80]) m"

text \<open>
  The shift of \<open>0xff\<close> happens in 32 bits before the cast to a byte; the bits that leave the byte
  are cut either way.
\<close>

definition prefix_match :: "u8 list \<Rightarrow> u8 list \<Rightarrow> nat \<Rightarrow> bool" where
  "prefix_match a b len =
     (let bytes = len div 8; bits = len mod 8 in
      (\<forall>i<bytes. a ! i = b ! i) \<and>
      (bits = 0 \<or> (let mask = push_bit (8 - bits) 0xff in a ! bytes AND mask = b ! bytes AND mask)))"

datatype address_family = F_ipv4 | F_ipv6

record ip_address =
  ia_family :: address_family
  ia_bytes :: "u8 list"

definition ip_address_v4 :: "ipv4_address \<Rightarrow> ip_address" where
  "ip_address_v4 a = \<lparr>ia_family = F_ipv4, ia_bytes = put_bytes (replicate 16 0) 0 a\<rparr>"

definition ip_address_v6 :: "ipv6_address \<Rightarrow> ip_address" where
  "ip_address_v6 a = \<lparr>ia_family = F_ipv6, ia_bytes = a\<rparr>"

definition ia_v4 :: "ip_address \<Rightarrow> bool" where "ia_v4 x \<longleftrightarrow> ia_family x = F_ipv4"
definition ia_v6 :: "ip_address \<Rightarrow> bool" where "ia_v6 x \<longleftrightarrow> ia_family x = F_ipv6"
definition ia_ipv4 :: "ip_address \<Rightarrow> ipv4_address" where
  "ia_ipv4 x = [ia_bytes x ! 0, ia_bytes x ! 1, ia_bytes x ! 2, ia_bytes x ! 3]"

definition ia_unspecified :: "ip_address \<Rightarrow> bool" where
  "ia_unspecified x = (if ia_v4 x then unspecified4 (ia_ipv4 x) else unspecified6 (ia_bytes x))"

definition ia_unicast :: "ip_address \<Rightarrow> bool" where
  "ia_unicast x =
     (if ia_v4 x then ia_bytes x ! 0 \<noteq> 0 \<and> ia_bytes x ! 0 < 224
      else let a = ia_bytes x in \<not> unspecified6 a \<and> \<not> multicast6 a \<and> \<not> loopback6 a \<and> \<not> ipv4_mapped a)"

definition ia_equals4 :: "ip_address \<Rightarrow> ipv4_address \<Rightarrow> bool" where
  "ia_equals4 x a \<longleftrightarrow> ia_v4 x \<and> ia_ipv4 x = a"

definition ia_equals6 :: "ip_address \<Rightarrow> ipv6_address \<Rightarrow> bool" where
  "ia_equals6 x a \<longleftrightarrow> ia_v6 x \<and> ia_bytes x = a"

section \<open>IPv6\<close>

record ipv6_packet =
  p6_source :: ipv6_address
  p6_destination :: ipv6_address
  p6_traffic_class :: u8
  p6_hop_limit :: u8
  p6_protocol :: u8
  p6_flow_label :: u32
  p6_payload :: bytes

text \<open>The options of an extension header, from the byte the cursor stands on.\<close>

function ip_options_from :: "bytes \<Rightarrow> status_code" where
  "ip_options_from rest =
     (if rest = [] then S_ok
      else let type = byte_at rest 0 in
        if type = 0 then ip_options_from (drop 1 rest)
        else if length rest < 2 then S_invalid_argument
        else let len = 2 + unat (byte_at rest 1) in
          if len > length rest then S_invalid_argument
          else if type \<noteq> 1 \<and> drop_bit 6 type \<noteq> 0 then S_unsupported
          else ip_options_from (drop len rest))"
  by auto
termination
  by (relation "measure length") auto

declare ip_options_from.simps [simp del]

definition ip_options :: "bytes \<Rightarrow> status_code" where
  "ip_options header = ip_options_from (drop 2 header)"

text \<open>
  The walk over the extension headers: whether it stands on the first header, the number of the
  next header, and the payload from there on.
\<close>

function ipv6_headers :: "bool \<Rightarrow> u8 \<Rightarrow> bytes \<Rightarrow> (u8 \<times> bytes) result" where
  "ipv6_headers first nxt rest =
     (if nxt = 0 \<and> \<not> first then Inl S_invalid_argument
      else if nxt \<noteq> 0 \<and> nxt \<noteq> 43 \<and> nxt \<noteq> 60 then
        (if nxt = 44 then Inl S_unsupported else Inr (nxt, rest))
      else if length rest < 8 then Inl S_invalid_argument
      else let sz = (unat (byte_at rest 1) + 1) * 8 in
        if sz > length rest then Inl S_invalid_argument
        else let header = take sz rest;
                 status = (if nxt = 43 then (if byte_at header 3 \<noteq> 0 then S_unsupported else S_ok)
                           else ip_options header)
             in if \<not> status_ok status then Inl status
                else ipv6_headers False (byte_at header 0) (drop sz rest))"
  by auto
termination
  by (relation "measure (\<lambda>(_, _, rest). length rest)") auto

declare ipv6_headers.simps [simp del]

definition ipv6 :: "bytes \<Rightarrow> ipv6_packet result" where
  "ipv6 packet =
     (if length packet < 40 then Inl S_invalid_argument
      else if drop_bit 4 (byte_at packet 0) \<noteq> 6 then Inl S_unsupported
      else let len = unat (be16 packet 4) in
        if 40 + len > length packet then Inl S_invalid_argument
        else let source = map (\<lambda>i. byte_at packet (8 + i)) [0..<16];
                 destination = map (\<lambda>i. byte_at packet (24 + i)) [0..<16]
             in if multicast6 source then Inl S_invalid_argument
                else case ipv6_headers True (byte_at packet 6) (take len (drop 40 packet)) of
                  Inl e \<Rightarrow> Inl e
                | Inr (protocol, payload) \<Rightarrow>
                    Inr \<lparr>p6_source = source, p6_destination = destination,
                         p6_traffic_class = push_bit 4 (byte_at packet 0 AND 15) OR drop_bit 4 (byte_at packet 1),
                         p6_hop_limit = byte_at packet 7, p6_protocol = protocol,
                         p6_flow_label = push_bit 16 (ucast (byte_at packet 1 AND 15)) OR ucast (be16 packet 2),
                         p6_payload = payload\<rparr>)"

definition pseudo_sum6 :: "ipv6_address \<Rightarrow> ipv6_address \<Rightarrow> u8 \<Rightarrow> u32 \<Rightarrow> u32" where
  "pseudo_sum6 source destination protocol len =
     fold16 (fold (\<lambda>i v. fold16 (v + address_group source i + address_group destination i))
       [0, 2, 4, 6, 8, 10, 12, 14] (ucast protocol + drop_bit 16 len + (len AND 0xffff)))"

section \<open>Address families\<close>

record 'p family =
  fam_version :: u8
  fam_icmp_protocol :: u8
  fam_ethertype :: u16
  fam_header_size :: nat
  fam_max_packet :: nat
  fam_parse :: "bytes \<Rightarrow> 'p result"
  fam_pseudo :: "u8 list \<Rightarrow> u8 list \<Rightarrow> u8 \<Rightarrow> nat \<Rightarrow> u32"
  fam_icmp_initial :: "u8 list \<Rightarrow> u8 list \<Rightarrow> nat \<Rightarrow> u32"
  fam_header :: "bytes \<Rightarrow> u8 list \<Rightarrow> u8 list \<Rightarrow> u8 \<Rightarrow> nat \<Rightarrow> u8 \<Rightarrow> u16 \<Rightarrow> bytes"
  fam_source :: "'p \<Rightarrow> u8 list"
  fam_destination :: "'p \<Rightarrow> u8 list"
  fam_protocol :: "'p \<Rightarrow> u8"
  fam_payload :: "'p \<Rightarrow> bytes"

definition ipv4_header :: "bytes \<Rightarrow> ipv4_address \<Rightarrow> ipv4_address \<Rightarrow> u8 \<Rightarrow> nat \<Rightarrow> u8 \<Rightarrow> u16 \<Rightarrow> bytes" where
  "ipv4_header out source destination protocol len ttl identification =
     ipv4_fields (zero_bytes out 0 20) source destination protocol (of_nat (20 + len)) ttl identification"

definition ipv6_header :: "bytes \<Rightarrow> ipv6_address \<Rightarrow> ipv6_address \<Rightarrow> u8 \<Rightarrow> nat \<Rightarrow> u8 \<Rightarrow> u16 \<Rightarrow> bytes" where
  "ipv6_header out source destination protocol len hop_limit identification =
     (let o1 = (zero_bytes out 0 40)[0 := 0x60];
          o2 = (put_be16 o1 4 (of_nat len))[6 := protocol, 7 := hop_limit]
      in put_bytes (put_bytes o2 8 source) 24 destination)"

definition ipv4_family :: "ipv4_packet family" where
  "ipv4_family = \<lparr>fam_version = 4, fam_icmp_protocol = protocol_icmp, fam_ethertype = ethertype_ipv4,
     fam_header_size = 20, fam_max_packet = 65535, fam_parse = ipv4,
     fam_pseudo = (\<lambda>s d p n. pseudo_sum4 s d p (of_nat n)), fam_icmp_initial = (\<lambda>_ _ _. 0),
     fam_header = ipv4_header,
     fam_source = p4_source, fam_destination = p4_destination, fam_protocol = p4_protocol, fam_payload = p4_payload\<rparr>"

definition ipv6_family :: "ipv6_packet family" where
  "ipv6_family = \<lparr>fam_version = 6, fam_icmp_protocol = protocol_icmpv6, fam_ethertype = ethertype_ipv6,
     fam_header_size = 40, fam_max_packet = 40 + 65535, fam_parse = ipv6,
     fam_pseudo = (\<lambda>s d p n. pseudo_sum6 s d p (of_nat n)),
     fam_icmp_initial = (\<lambda>s d n. pseudo_sum6 s d protocol_icmpv6 (of_nat n)),
     fam_header = ipv6_header,
     fam_source = p6_source, fam_destination = p6_destination, fam_protocol = p6_protocol, fam_payload = p6_payload\<rparr>"

definition ip_version :: "bytes \<Rightarrow> u8" where
  "ip_version packet = (if packet = [] then 0 else drop_bit 4 (byte_at packet 0))"

section \<open>Transport codecs of both families\<close>

definition udp_of :: "'p family \<Rightarrow> 'p \<Rightarrow> udp_view result" where
  "udp_of F ip =
     (let payload = fam_payload F ip in
      if fam_protocol F ip \<noteq> protocol_udp then Inl S_unsupported
      else if length payload < 8 then Inl S_invalid_argument
      else let len = unat (be16 payload 4) in
        if len < 8 \<or> len > length payload then Inl S_invalid_argument
        else let datagram = take len payload in
          if be16 datagram 2 = 0 then Inl S_invalid_argument
          else let present = be16 datagram 6 \<noteq> 0 in
            if \<not> present \<and> fam_version F = 6 then Inl S_invalid_argument
            else if present \<and> wire_sum datagram (fam_pseudo F (fam_source F ip) (fam_destination F ip) protocol_udp len) \<noteq> 0xffff
            then Inl S_invalid_argument
            else Inr \<lparr>udp_source_port = be16 datagram 0, udp_destination_port = be16 datagram 2,
                       udp_checksum_present = present, udp_payload = drop 8 datagram\<rparr>)"

definition tcp_of :: "'p family \<Rightarrow> 'p \<Rightarrow> tcp_view result" where
  "tcp_of F ip =
     (let segment = fam_payload F ip in
      if fam_protocol F ip \<noteq> protocol_tcp then Inl S_unsupported
      else if length segment < 20 \<or> length segment > fam_max_packet F - fam_header_size F then Inl S_invalid_argument
      else let header = unat (drop_bit 4 (byte_at segment 12)) * 4 in
        if header < 20 \<or> header > length segment then Inl S_invalid_argument
        else if wire_sum segment (fam_pseudo F (fam_source F ip) (fam_destination F ip) protocol_tcp (length segment)) \<noteq> 0xffff
          then Inl S_invalid_argument
        else let status = tcp_options_status (take (header - 20) (drop 20 segment)) (byte_at segment 13) in
          if \<not> status_ok status then Inl status
          else Inr (tcp_segment segment header))"

definition build_udp_of :: "'p family \<Rightarrow> bytes \<Rightarrow> uptr \<Rightarrow> u8 list \<Rightarrow> u8 list \<Rightarrow> u16 \<Rightarrow> u16 \<Rightarrow> u16 \<Rightarrow> u8
    \<Rightarrow> bytes \<Rightarrow> uptr \<Rightarrow> nat result \<times> bytes" where
  "build_udp_of F out out_at source destination source_port destination_port identification ttl payload in_at =
     (let header = fam_header_size F in
      if ttl = 0 then (Inl S_invalid_argument, out)
      else if length payload > fam_max_packet F - header - 8 \<or> length payload > 65535 - 8 \<or>
              length out < header + 8 + length payload then (Inl S_overflow, out)
      else let len = header + 8 + length payload in
        if overlaps (length payload) in_at len out_at then (Inl S_invalid_argument, out)
        else let o1 = fam_header F out source destination protocol_udp (len - header) ttl identification;
                 o2 = put_be16 (put_be16 o1 header source_port) (header + 2) destination_port;
                 o3 = put_be16 (put_be16 o2 (header + 4) (of_nat (len - header))) (header + 6) 0;
                 o4 = put_bytes o3 (header + 8) payload;
                 c = ucast (NOT (wire_sum (take (len - header) (drop header o4))
                       (fam_pseudo F source destination protocol_udp (len - header))));
                 c' = (if c = 0 then 0xffff else c)
             in (Inr len, put_be16 o4 (header + 6) c'))"

definition build_tcp_of :: "'p family \<Rightarrow> bytes \<Rightarrow> uptr \<Rightarrow> u8 list \<Rightarrow> u8 list \<Rightarrow> u16 \<Rightarrow> u8 \<Rightarrow> tcp_fields
    \<Rightarrow> bytes \<Rightarrow> uptr \<Rightarrow> bytes \<Rightarrow> uptr \<Rightarrow> nat result \<times> bytes" where
  "build_tcp_of F out out_at source destination identification ttl f opts opts_at payload payload_at =
     (let ip = fam_header_size F in
      if ttl = 0 then (Inl S_invalid_argument, out)
      else if \<not> status_ok (tcp_options_status opts (tf_flags f))
        then (Inl (tcp_options_status opts (tf_flags f)), out)
      else let header = tcp_header_size (length opts) in
        if length payload > fam_max_packet F - ip - header then (Inl S_overflow, out)
        else let len = ip + header + length payload in
          if length out < len then (Inl S_overflow, out)
          else if overlaps (length opts) opts_at len out_at \<or> overlaps (length payload) payload_at len out_at
            then (Inl S_invalid_argument, out)
          else let o1 = fam_header F out source destination protocol_tcp (len - ip) ttl identification;
                   o2 = put_tcp_fields (zero_bytes o1 ip header) ip f header;
                   o3 = put_bytes (put_bytes o2 (ip + 20) opts) (ip + header) payload
               in (Inr len, put_be16 o3 (ip + 16) (ucast (NOT (wire_sum (take (len - ip) (drop ip o3))
                     (fam_pseudo F source destination protocol_tcp (len - ip)))))))"

section \<open>Ethernet and ARP builders\<close>

definition build_ethernet :: "bytes \<Rightarrow> mac \<Rightarrow> mac \<Rightarrow> u16 \<Rightarrow> nat \<Rightarrow> nat result \<times> bytes" where
  "build_ethernet out destination source type payload =
     (if type < 0x0600 then (Inl S_invalid_argument, out)
      else if payload > 1500 \<or> length out < 14 + payload then (Inl S_overflow, out)
      else (Inr (14 + payload), put_be16 (put_bytes (put_bytes out 0 destination) 6 source) 12 type))"

definition build_arp :: "bytes \<Rightarrow> u16 \<Rightarrow> mac \<Rightarrow> ipv4_address \<Rightarrow> mac \<Rightarrow> ipv4_address \<Rightarrow> nat result \<times> bytes" where
  "build_arp out operation sender_mac sender_ip target_mac target_ip =
     (if operation \<noteq> 1 \<and> operation \<noteq> 2 then (Inl S_invalid_argument, out)
      else if length out < 28 then (Inl S_overflow, out)
      else let o1 = (put_be16 (put_be16 out 0 1) 2 ethertype_ipv4)[4 := 6, 5 := 4];
               o2 = put_be16 o1 6 operation;
               o3 = put_bytes (put_bytes o2 8 sender_mac) 18 target_mac
           in (Inr 28, put_bytes (put_bytes o3 14 sender_ip) 24 target_ip))"

end
