(* ===== verification/OK_Icmp.thy ===== *)
theory OK_Icmp
  imports OK_Ip
begin

text \<open>
  ICMP and neighbour discovery messages of \<^verbatim>\<open>net/icmp.hpp\<close>: the parsers and builders for both
  families, over the codecs of the network layer.
\<close>

section \<open>Messages\<close>

definition icmpv4_errors :: "u8 list" where
  "icmpv4_errors = [3, 11, 12]"

definition nd_router_solicitation :: u8 where "nd_router_solicitation = 133"
definition nd_router_advertisement :: u8 where "nd_router_advertisement = 134"
definition nd_neighbor_solicitation :: u8 where "nd_neighbor_solicitation = 135"
definition nd_neighbor_advertisement :: u8 where "nd_neighbor_advertisement = 136"

definition all_routers :: ipv6_address where
  "all_routers = [0xff, 0x02, 0, 0, 0, 0, 0, 0, 0, 0, 0, 0, 0, 0, 0, 2]"

record icmp_view =
  ic_type :: u8
  ic_code :: u8
  ic_rest :: u32
  ic_message :: bytes
  ic_body :: bytes

definition icmp_of :: "'p family \<Rightarrow> 'p \<Rightarrow> icmp_view result" where
  "icmp_of F ip =
     (let payload = fam_payload F ip in
      if fam_protocol F ip \<noteq> fam_icmp_protocol F then Inl S_unsupported
      else if length payload < 8 then Inl S_invalid_argument
      else if wire_sum payload (fam_icmp_initial F (fam_source F ip) (fam_destination F ip) (length payload)) \<noteq> 0xffff
        then Inl S_invalid_argument
      else Inr \<lparr>ic_type = byte_at payload 0, ic_code = byte_at payload 1, ic_rest = be32 payload 4,
                 ic_message = payload, ic_body = drop 8 payload\<rparr>)"

definition icmp_error :: "'p family \<Rightarrow> u8 \<Rightarrow> bool" where
  "icmp_error F type =
     (if fam_version F = 6 then type < 128 else type \<in> set icmpv4_errors \<or> type = 4 \<or> type = 5)"

definition build_icmp :: "'p family \<Rightarrow> bytes \<Rightarrow> uptr \<Rightarrow> u8 list \<Rightarrow> u8 list \<Rightarrow> u8 \<Rightarrow> u16 \<Rightarrow> u8 \<Rightarrow> u8 \<Rightarrow> u32
    \<Rightarrow> bytes \<Rightarrow> uptr \<Rightarrow> nat result \<times> bytes" where
  "build_icmp F out out_at source destination ttl identification type code rest body body_at =
     (let header = fam_header_size F in
      if ttl = 0 then (Inl S_invalid_argument, out)
      else if length body > fam_max_packet F - header - 8 \<or> length body > 65535 - 8 \<or>
              length out < header + 8 + length body then (Inl S_overflow, out)
      else let len = header + 8 + length body in
        if overlaps (length body) body_at len out_at then (Inl S_invalid_argument, out)
        else let o1 = fam_header F out source destination (fam_icmp_protocol F) (len - header) ttl identification;
                 o2 = put_be16 (o1[header := type, header + 1 := code]) (header + 2) 0;
                 o3 = put_bytes (put_be32 o2 (header + 4) rest) (header + 8) body
             in (Inr len, put_be16 o3 (header + 2) (ucast (NOT (wire_sum (take (len - header) (drop header o3))
                   (fam_icmp_initial F source destination (len - header)))))))"

definition build_icmp_error :: "'p family \<Rightarrow> bytes \<Rightarrow> uptr \<Rightarrow> u8 list \<Rightarrow> u8 list \<Rightarrow> u16 \<Rightarrow> u8 \<Rightarrow> u8 \<Rightarrow> u32
    \<Rightarrow> bytes \<Rightarrow> uptr \<Rightarrow> nat result \<times> bytes" where
  "build_icmp_error F out out_at source destination identification type code rest offending offending_at =
     (let limit = (if fam_version F = 6 then 1280 else 576) in
      if \<not> icmp_error F type then (Inl S_invalid_argument, out)
      else let room = limit - fam_header_size F - 8
           in build_icmp F out out_at source destination 64 identification type code rest
                (take (if length offending < room then length offending else room) offending) offending_at)"

section \<open>Neighbour discovery\<close>

record prefix_information =
  pi_prefix :: ipv6_address
  pi_length :: u8
  pi_on_link :: bool
  pi_autonomous :: bool
  pi_valid_lifetime :: u32
  pi_preferred_lifetime :: u32

datatype nd_kind = ND_router_solicitation | ND_router_advertisement | ND_neighbor_solicitation | ND_neighbor_advertisement

text \<open>The prefixes of a message are the entries in use of its array of four.\<close>

record nd_message =
  nd_kind_of :: nd_kind
  nd_target :: ipv6_address
  nd_router :: bool
  nd_solicited :: bool
  nd_override :: bool
  nd_managed :: bool
  nd_other :: bool
  nd_hop_limit :: u8
  nd_router_lifetime :: u16
  nd_reachable_time :: u32
  nd_retransmit_timer :: u32
  nd_source_link :: "mac option"
  nd_target_link :: "mac option"
  nd_mtu :: "u32 option"
  nd_prefixes :: "prefix_information list"
  nd_prefixes_ignored :: nat

definition nd_message_new :: nd_message where
  "nd_message_new = \<lparr>nd_kind_of = ND_router_solicitation, nd_target = replicate 16 0, nd_router = False,
     nd_solicited = False, nd_override = False, nd_managed = False, nd_other = False, nd_hop_limit = 0,
     nd_router_lifetime = 0, nd_reachable_time = 0, nd_retransmit_timer = 0, nd_source_link = None,
     nd_target_link = None, nd_mtu = None, nd_prefixes = [], nd_prefixes_ignored = 0\<rparr>"

text \<open>One option of a message, given its type and all its bytes.\<close>

definition nd_option :: "u8 \<Rightarrow> bytes \<Rightarrow> nd_message \<Rightarrow> nd_message result" where
  "nd_option type opt m =
     (if type = 1 \<or> type = 2 then
        (if length opt \<noteq> 8 then Inl S_invalid_argument
         else let mac = map (\<lambda>i. byte_at opt (2 + i)) [0..<6]
              in Inr (if type = 1 then m\<lparr>nd_source_link := Some mac\<rparr> else m\<lparr>nd_target_link := Some mac\<rparr>))
      else if type = 3 then
        (if length opt \<noteq> 32 then Inl S_invalid_argument
         else let prefix = \<lparr>pi_prefix = map (\<lambda>i. byte_at opt (16 + i)) [0..<16], pi_length = byte_at opt 2,
                pi_on_link = (byte_at opt 3 AND 0x80 \<noteq> 0), pi_autonomous = (byte_at opt 3 AND 0x40 \<noteq> 0),
                pi_valid_lifetime = be32 opt 4, pi_preferred_lifetime = be32 opt 8\<rparr>
              in Inr (if pi_length prefix > 128 \<or> pi_preferred_lifetime prefix > pi_valid_lifetime prefix \<or>
                         link_local (pi_prefix prefix) \<or> length (nd_prefixes m) = 4
                      then m\<lparr>nd_prefixes_ignored := nd_prefixes_ignored m + 1\<rparr>
                      else m\<lparr>nd_prefixes := nd_prefixes m @ [prefix]\<rparr>))
      else if type = 5 then
        (if length opt \<noteq> 8 then Inl S_invalid_argument else Inr (m\<lparr>nd_mtu := Some (be32 opt 4)\<rparr>))
      else Inr m)"

function nd_options :: "bytes \<Rightarrow> nd_message \<Rightarrow> nd_message result" where
  "nd_options rest m =
     (if rest = [] then Inr m
      else if length rest < 2 then Inl S_invalid_argument
      else let len = unat (byte_at rest 1) * 8 in
        if len = 0 \<or> len > length rest then Inl S_invalid_argument
        else case nd_option (byte_at rest 0) (take len rest) m of
          Inl e \<Rightarrow> Inl e
        | Inr m' \<Rightarrow> nd_options (drop len rest) m')"
  by auto
termination
  by (relation "measure (\<lambda>(rest, _). length rest)") auto

declare nd_options.simps [simp del]

text \<open>The fixed part of a message, and the bytes its options start at.\<close>

definition nd_fixed :: "ipv6_packet \<Rightarrow> icmp_view \<Rightarrow> (nat \<times> nd_message) result" where
  "nd_fixed ip message =
     (let bytes = ic_message message; view = nd_message_new in
      if ic_type message = nd_router_solicitation then Inr (8, view\<lparr>nd_kind_of := ND_router_solicitation\<rparr>)
      else if ic_type message = nd_router_advertisement then
        (if \<not> link_local (p6_source ip) then Inl S_invalid_argument
         else if length bytes < 16 then Inl S_invalid_argument
         else Inr (16, view\<lparr>nd_kind_of := ND_router_advertisement, nd_hop_limit := byte_at bytes 4,
                nd_managed := (byte_at bytes 5 AND 0x80 \<noteq> 0), nd_other := (byte_at bytes 5 AND 0x40 \<noteq> 0),
                nd_router_lifetime := be16 bytes 6, nd_reachable_time := be32 bytes 8,
                nd_retransmit_timer := be32 bytes 12\<rparr>))
      else if length bytes < 24 then Inl S_invalid_argument
      else let target = map (\<lambda>i. byte_at bytes (8 + i)) [0..<16] in
        if multicast6 target then Inl S_invalid_argument
        else if ic_type message = nd_neighbor_solicitation
          then Inr (24, view\<lparr>nd_target := target, nd_kind_of := ND_neighbor_solicitation\<rparr>)
        else let flags = byte_at bytes 4; solicited = (flags AND 0x40 \<noteq> 0) in
          if solicited \<and> multicast6 (p6_destination ip) then Inl S_invalid_argument
          else Inr (24, view\<lparr>nd_target := target, nd_kind_of := ND_neighbor_advertisement,
                 nd_router := (flags AND 0x80 \<noteq> 0), nd_solicited := solicited, nd_override := (flags AND 0x20 \<noteq> 0)\<rparr>))"

definition neighbor_discovery :: "ipv6_packet \<Rightarrow> icmp_view \<Rightarrow> nd_message result" where
  "neighbor_discovery ip message =
     (if ic_type message < nd_router_solicitation \<or> ic_type message > nd_neighbor_advertisement then Inl S_unsupported
      else if p6_hop_limit ip \<noteq> 255 \<or> ic_code message \<noteq> 0 then Inl S_invalid_argument
      else case nd_fixed ip message of
        Inl e \<Rightarrow> Inl e
      | Inr (fixed, view) \<Rightarrow>
          (case nd_options (drop fixed (ic_message message)) view of
             Inl e \<Rightarrow> Inl e
           | Inr m \<Rightarrow>
               if unspecified6 (p6_source ip) then
                 (if nd_source_link m \<noteq> None then Inl S_invalid_argument
                  else if nd_kind_of m = ND_neighbor_solicitation \<and> p6_destination ip \<noteq> solicited_node (nd_target m)
                    then Inl S_invalid_argument
                  else if nd_kind_of m = ND_neighbor_advertisement \<or> nd_kind_of m = ND_router_advertisement
                    then Inl S_invalid_argument
                  else Inr m)
               else Inr m))"

text \<open>
  The body is a local array of the builder, so it lies outside the output; its address is the
  argument \<open>body_at\<close>.
\<close>

definition nd_body :: "ipv6_address option \<Rightarrow> u8 \<Rightarrow> mac option \<Rightarrow> bytes" where
  "nd_body target opt link =
     (let body = replicate 24 0;
          (b1, n1) = (case target of None \<Rightarrow> (body, 0) | Some t \<Rightarrow> (put_bytes body 0 t, 16));
          (b2, n2) = (case link of None \<Rightarrow> (b1, n1)
                      | Some l \<Rightarrow> (put_bytes (b1[n1 := opt, n1 + 1 := 1]) (n1 + 2) l, n1 + 8))
      in take n2 b2)"

definition nd_build :: "bytes \<Rightarrow> uptr \<Rightarrow> uptr \<Rightarrow> ipv6_address \<Rightarrow> ipv6_address \<Rightarrow> u8 \<Rightarrow> u32 \<Rightarrow> ipv6_address option
    \<Rightarrow> u8 \<Rightarrow> mac option \<Rightarrow> nat result \<times> bytes" where
  "nd_build out out_at body_at source destination type rest target opt link =
     build_icmp ipv6_family out out_at source destination 255 0 type 0 rest (nd_body target opt link) body_at"

definition build_neighbor_solicitation :: "bytes \<Rightarrow> uptr \<Rightarrow> uptr \<Rightarrow> ipv6_address \<Rightarrow> ipv6_address \<Rightarrow> ipv6_address
    \<Rightarrow> mac option \<Rightarrow> nat result \<times> bytes" where
  "build_neighbor_solicitation out out_at body_at source destination target link =
     (if multicast6 target then (Inl S_invalid_argument, out)
      else if unspecified6 source \<and> link \<noteq> None then (Inl S_invalid_argument, out)
      else nd_build out out_at body_at source destination nd_neighbor_solicitation 0 (Some target) 1 link)"

definition build_neighbor_advertisement :: "bytes \<Rightarrow> uptr \<Rightarrow> uptr \<Rightarrow> ipv6_address \<Rightarrow> ipv6_address \<Rightarrow> ipv6_address
    \<Rightarrow> bool \<Rightarrow> bool \<Rightarrow> bool \<Rightarrow> mac option \<Rightarrow> nat result \<times> bytes" where
  "build_neighbor_advertisement out out_at body_at source destination target router solicited override_flag link =
     (if multicast6 target \<or> unspecified6 source then (Inl S_invalid_argument, out)
      else if solicited \<and> multicast6 destination then (Inl S_invalid_argument, out)
      else let flags = (if router then 0x80000000 else 0) OR (if solicited then 0x40000000 else 0)
                         OR (if override_flag then 0x20000000 else 0)
           in nd_build out out_at body_at source destination nd_neighbor_advertisement flags (Some target) 2 link)"

definition build_router_solicitation :: "bytes \<Rightarrow> uptr \<Rightarrow> uptr \<Rightarrow> ipv6_address \<Rightarrow> mac option \<Rightarrow> nat result \<times> bytes" where
  "build_router_solicitation out out_at body_at source link =
     (if unspecified6 source \<and> link \<noteq> None then (Inl S_invalid_argument, out)
      else nd_build out out_at body_at source all_routers nd_router_solicitation 0 None 1 link)"

end
