(* ===== verification/OK_Wire_Proofs.thy ===== *)
theory OK_Wire_Proofs
  imports OK_Ip
begin

text \<open>
  The Internet checksum and the datagrams built with it. The summation loop is related to the sum
  of the 16-bit groups as natural numbers, modulo 65535; that a packet with its checksum filled in
  sums to \<open>0xffff\<close> follows for every builder. On top of it: a built UDP datagram parses back to
  its fields and payload, and the family-generic codecs agree with the IPv4 ones.
\<close>

section \<open>The sum of 16-bit groups\<close>

fun be_value :: "bytes \<Rightarrow> nat" where
  "be_value [] = 0"
| "be_value [x] = unat x * 256"
| "be_value (x # y # bs) = unat x * 256 + unat y + be_value bs"

lemma unat_byte: "unat (x :: u8) < 256"
  using unsigned_less [of x, where ?'a = nat] by simp

lemma unat_ucast_small: "unat x < 2 ^ LENGTH('b) \<Longrightarrow> unat (ucast (x :: 'a::len word) :: 'b::len word) = unat x"
  by (simp add: unsigned_ucast_eq take_bit_eq_mod)

lemma unat_be16_word: "unat (push_bit 8 (ucast (x :: u8)) OR ucast (y :: u8) :: u16) = unat x * 256 + unat y"
proof -
  have x: "unat (ucast x :: u16) = unat x" and y: "unat (ucast y :: u16) = unat y"
    using unat_byte [of x] unat_byte [of y] by (simp_all add: unat_ucast_small)
  have "push_bit 8 (ucast x) OR ucast y = (push_bit 8 (ucast x) + ucast y :: u16)"
    by (rule disjunctive_add [symmetric]) (auto simp: bit_push_bit_iff bit_unsigned_iff dest: bit_imp_le_length)
  also have "\<dots> = ucast x * 256 + ucast y" by (simp add: push_bit_eq_mult)
  finally show ?thesis using unat_byte [of x] unat_byte [of y] by (simp add: unat_word_ariths x y)
qed

lemma unat_sum_group: "unat (ucast (sum_group x y) :: u32) = unat x * 256 + unat y"
proof -
  have g: "unat (sum_group x y) = unat x * 256 + unat y" unfolding sum_group_def by (rule unat_be16_word)
  have "unat (ucast (sum_group x y) :: u32) = unat (sum_group x y)"
    by (rule unat_ucast_small) (use g unat_byte [of x] unat_byte [of y] in simp)
  then show ?thesis unfolding g .
qed

text \<open>Folding the carry keeps the value modulo 65535, and keeps a nonzero value nonzero.\<close>

lemma fold16_mod: "unat (fold16 v) mod 65535 = unat v mod 65535"
proof -
  have "unat v = 65536 * (unat v div 65536) + unat v mod 65536" by simp
  then have "unat v = unat v mod 65536 + unat v div 65536 + 65535 * (unat v div 65536)" by linarith
  then have "unat v mod 65535 = (unat v mod 65536 + unat v div 65536 + 65535 * (unat v div 65536)) mod 65535"
    by (rule arg_cong)
  then show ?thesis unfolding unat_fold16 mod_mult_self2 by (rule sym)
qed

lemma fold16_zero: "unat (fold16 v) = 0 \<longleftrightarrow> unat v = 0"
proof
  assume "unat (fold16 v) = 0"
  then have "unat v mod 65536 = 0" and "unat v div 65536 = 0" unfolding unat_fold16 by linarith+
  then show "unat v = 0" by (metis div_mult_mod_eq mult_0 add_0)
next
  assume "unat v = 0"
  then show "unat (fold16 v) = 0" unfolding unat_fold16 by (simp only: div_0 mod_0 add_0)
qed

lemma fold16_less: "unat (fold16 v) < 131072"
proof -
  have "unat v < 4294967296" using unsigned_less [of v, where ?'a = nat] by simp
  then show ?thesis unfolding unat_fold16 by linarith
qed

lemma sum_step:
  assumes "unat v < 131072" and "unat w < 65536"
  shows "unat (fold16 (v + w)) mod 65535 = (unat v + unat w) mod 65535"
    and "unat (fold16 (v + w)) = 0 \<longleftrightarrow> unat v = 0 \<and> unat w = 0"
proof -
  have "unat (v + w) = unat v + unat w" using assms by (simp add: unat_word_ariths)
  then show "unat (fold16 (v + w)) mod 65535 = (unat v + unat w) mod 65535"
    and "unat (fold16 (v + w)) = 0 \<longleftrightarrow> unat v = 0 \<and> unat w = 0"
    by (simp_all add: fold16_mod fold16_zero del: unat_eq_0)
qed

lemma group_less: "unat (x :: u8) * 256 + unat (y :: u8) < 65536"
  using unat_byte [of x] unat_byte [of y] by linarith

lemma sum_loop_spec:
  assumes "unat v < 131072"
  shows "unat (sum_loop bs v) mod 65535 = (unat v + be_value bs) mod 65535
    \<and> (unat (sum_loop bs v) = 0 \<longleftrightarrow> unat v = 0 \<and> be_value bs = 0)"
  using assms
proof (induction bs v rule: sum_loop.induct)
  case (1 v)
  then show ?case by simp
next
  case (2 x v)
  then show ?case
    using sum_step [of v "ucast (sum_group x 0)"] group_less [of x 0]
    by (simp add: unat_sum_group del: unat_eq_0)
next
  case (3 x y bs v)
  let ?w = "ucast (sum_group x y) :: u32"
  have s: "unat (fold16 (v + ?w)) mod 65535 = (unat v + unat ?w) mod 65535"
    "unat (fold16 (v + ?w)) = 0 \<longleftrightarrow> unat v = 0 \<and> unat ?w = 0"
    using sum_step [of v ?w] 3 group_less [of x y] by (simp_all add: unat_sum_group del: unat_eq_0)
  have "(unat (fold16 (v + ?w)) + be_value bs) mod 65535 = (unat v + unat ?w + be_value bs) mod 65535"
    by (rule mod_add_cong [OF s(1) refl])
  then show ?case using 3(1) [OF fold16_less] s(2)
    by (simp add: unat_sum_group add.assoc del: unat_eq_0)
qed

lemma sum_fold_spec:
  "unat (sum_fold v) mod 65535 = unat v mod 65535 \<and> (unat (sum_fold v) = 0 \<longleftrightarrow> unat v = 0) \<and> unat (sum_fold v) < 65536"
proof (induction v rule: sum_fold.induct)
  case (1 v)
  show ?case
  proof (cases "drop_bit 16 v = 0")
    case True
    then have "unat (drop_bit 16 v) = 0" by (simp only: unat_0)
    then have "unat v div 65536 = 0" by (simp only: unat_high16)
    then have "unat v < 65536" by linarith
    then show ?thesis by (subst (1 2 3) sum_fold.simps) (simp add: True del: unat_eq_0)
  next
    case False
    then show ?thesis using 1 fold16_mod [of v] fold16_zero [of v]
      by (subst (1 2 3) sum_fold.simps) (simp del: unat_eq_0)
  qed
qed

lemma wire_sum_spec:
  "unat (wire_sum bs i) mod 65535 = (unat i + be_value bs) mod 65535
   \<and> (unat (wire_sum bs i) = 0 \<longleftrightarrow> unat i = 0 \<and> be_value bs = 0) \<and> unat (wire_sum bs i) < 65536"
proof -
  have "(unat (fold16 i) + be_value bs) mod 65535 = (unat i + be_value bs) mod 65535"
    by (rule mod_add_cong [OF fold16_mod refl])
  then show ?thesis
    using sum_fold_spec [of "sum_loop bs (fold16 i)"] sum_loop_spec [OF fold16_less, of bs i] fold16_zero [of i]
    unfolding wire_sum_def by argo
qed

text \<open>A sum is \<open>0xffff\<close> exactly when the total is a positive multiple of 65535.\<close>

lemma residue_full: "(s :: nat) < 65536 \<Longrightarrow> s = 65535 \<longleftrightarrow> s mod 65535 = 0 \<and> s \<noteq> 0"
  by (cases "s = 65535") (auto simp: mod_less)

lemma wire_sum_full: "wire_sum bs i = 0xffff \<longleftrightarrow> (unat i + be_value bs) mod 65535 = 0 \<and> unat i + be_value bs \<noteq> 0"
proof -
  have "wire_sum bs i = 0xffff \<longleftrightarrow> unat (wire_sum bs i) = 65535" by (simp add: word_unat_eq_iff)
  moreover have "unat (wire_sum bs i) = 65535 \<longleftrightarrow> unat (wire_sum bs i) mod 65535 = 0 \<and> unat (wire_sum bs i) \<noteq> 0"
    by (rule residue_full) (use wire_sum_spec in blast)
  ultimately show ?thesis using wire_sum_spec [of bs i] by (simp only: add_is_0)
qed

lemma unat_complement16:
  assumes "unat (s :: u32) < 65536"
  shows "unat (ucast (NOT s) :: u16) = 65535 - unat s"
proof -
  have "NOT s = -1 - s" by (simp add: not_eq_complement)
  then have n: "unat (NOT s) = 4294967295 - unat s" by (simp only: unat_max_minus) simp
  have "4294967295 - unat s = 65535 - unat s + 65536 * 65535" using assms by linarith
  then have "(4294967295 - unat s) mod 65536 = (65535 - unat s) mod 65536" by (simp only: mod_mult_self2)
  moreover have "(65535 - unat s) mod 65536 = 65535 - unat s" by (rule mod_less) linarith
  ultimately show ?thesis by (simp add: unsigned_ucast_eq take_bit_eq_mod n)
qed

section \<open>Filling in a checksum\<close>

lemma unat_halves: "unat (ucast (drop_bit 8 v) :: u8) * 256 + unat (ucast v :: u8) = unat (v :: u16)"
proof -
  have v: "unat v < 65536" using unsigned_less [of v, where ?'a = nat] by simp
  have "unat (drop_bit 8 v) = unat v div 256" by (simp add: drop_bit_eq_div unat_div)
  moreover have "unat v div 256 < 256" using v by linarith
  ultimately have "unat (ucast (drop_bit 8 v) :: u8) = unat v div 256" by (simp add: unat_ucast_small)
  moreover have "unat (ucast v :: u8) = unat v mod 256" by (simp add: unsigned_ucast_eq take_bit_eq_mod)
  ultimately show ?thesis by simp
qed

lemma be16_halves [simp]: "push_bit 8 (ucast (ucast (drop_bit 8 v) :: u8)) OR ucast (ucast v :: u8) = (v :: u16)"
  unfolding word_unat_eq_iff unat_be16_word by (rule unat_halves)

lemma length_put_be16 [simp]: "length (put_be16 bs i v) = length bs"
  by (simp add: put_be16_def)

lemma be_value_put:
  "even i \<Longrightarrow> i + 1 < length bs \<Longrightarrow> bs ! i = 0 \<Longrightarrow> bs ! (i + 1) = 0 \<Longrightarrow>
   be_value (put_be16 bs i v) = be_value bs + unat v"
proof (induction bs arbitrary: i rule: be_value.induct)
  case (3 x y bs)
  show ?case
  proof (cases i)
    case 0
    then show ?thesis using 3(4,5) unat_halves [of v] by (simp add: put_be16_def)
  next
    case (Suc j)
    then obtain k where k: "i = k + 2" using 3(2) by (cases j) auto
    then have "put_be16 (x # y # bs) i v = x # y # put_be16 bs k v" by (simp add: put_be16_def)
    then show ?thesis using 3(1) [of k] 3(2-) k by simp
  qed
qed simp_all

text \<open>
  With a zero field at an even offset, writing the complement of the sum there makes the bytes sum
  to \<open>0xffff\<close>; so does writing \<open>0xffff\<close> when the complement is zero.
\<close>

lemma complement_total:
  fixes S s :: nat
  assumes "s mod 65535 = S mod 65535" and "s = 0 \<longleftrightarrow> S = 0" and "s < 65536"
  shows "(S + (65535 - s)) mod 65535 = 0 \<and> S + (65535 - s) \<noteq> 0"
proof -
  have "(S + (65535 - s)) mod 65535 = (s + (65535 - s)) mod 65535"
    by (rule mod_add_cong [OF assms(1) [symmetric] refl])
  also have "s + (65535 - s) = 65535" using assms(3) by simp
  finally show ?thesis using assms(2) by auto
qed

definition fill :: "u32 \<Rightarrow> u16" where
  "fill s = ucast (NOT s)"

lemma unat_fill: "unat (fill (wire_sum bs i)) = 65535 - unat (wire_sum bs i)"
  unfolding fill_def by (rule unat_complement16) (use wire_sum_spec in blast)

lemma sum_filled:
  assumes "even j" and "j + 1 < length bs" and "bs ! j = 0" and "bs ! (j + 1) = 0"
  shows "wire_sum (put_be16 bs j (fill (wire_sum bs i))) i = 0xffff"
  unfolding wire_sum_full be_value_put [OF assms] unat_fill add.assoc [symmetric]
  by (rule complement_total) (use wire_sum_spec [of bs i] in auto)

lemma sum_filled_nonzero:
  assumes "even j" and "j + 1 < length bs" and "bs ! j = 0" and "bs ! (j + 1) = 0"
    and "fill (wire_sum bs i) = 0"
  shows "wire_sum (put_be16 bs j 0xffff) i = 0xffff"
proof -
  have "unat (fill (wire_sum bs i)) = 0" using assms(5) by (simp only: unat_0)
  then have s: "unat (wire_sum bs i) = 65535"
    using wire_sum_spec [of bs i] unfolding unat_fill by linarith
  then have S: "(unat i + be_value bs) mod 65535 = 0" using wire_sum_spec [of bs i] by simp
  then have "(unat i + be_value bs + 65535) mod 65535 = 0" by (simp only: mod_add_self2)
  then show ?thesis unfolding wire_sum_full be_value_put [OF assms(1-4)] by (simp add: add.assoc)
qed

lemma checksum_fill: "checksum bs = fill (wire_sum bs 0)"
  by (simp add: checksum_def fill_def)

lemma checksum_zero_iff: "checksum bs = 0 \<longleftrightarrow> wire_sum bs 0 = 0xffff"
proof -
  have "checksum bs = 0 \<longleftrightarrow> unat (checksum bs) = 0" by (simp only: unat_eq_0)
  also have "\<dots> \<longleftrightarrow> unat (wire_sum bs 0) = 65535"
    using wire_sum_spec [of bs 0] unfolding checksum_fill unat_fill by linarith
  also have "\<dots> \<longleftrightarrow> wire_sum bs 0 = 0xffff" by (simp add: word_unat_eq_iff)
  finally show ?thesis .
qed

section \<open>Writing into a buffer\<close>

lemma length_put_bytes [simp]: "length (put_bytes out i xs) = length out"
  by (induction xs arbitrary: out i) simp_all

lemma put_bytes_eq:
  "i + length xs \<le> length out \<Longrightarrow> put_bytes out i xs = take i out @ xs @ drop (i + length xs) out"
proof (induction xs arbitrary: out i)
  case (Cons x xs)
  then have "put_bytes out i (x # xs) = take (i + 1) (out[i := x]) @ xs @ drop (i + 1 + length xs) (out[i := x])"
    by simp
  moreover have "take (i + 1) (out[i := x]) = take i out @ [x]"
    using Cons.prems by (simp add: take_Suc_conv_app_nth)
  ultimately show ?case by simp
qed simp

lemma zero_bytes_eq: "i + n \<le> length out \<Longrightarrow> zero_bytes out i n = take i out @ replicate n 0 @ drop (i + n) out"
  unfolding zero_bytes_def by (simp add: put_bytes_eq)

lemma put_be16_append1: "i + 1 < length xs \<Longrightarrow> put_be16 (xs @ ys) i v = put_be16 xs i v @ ys"
  by (simp add: put_be16_def list_update_append1)

lemma put_be16_append2: "length xs = n \<Longrightarrow> n \<le> i \<Longrightarrow> put_be16 (xs @ ys) i v = xs @ put_be16 ys (i - n) v"
  by (simp add: put_be16_def list_update_append Suc_diff_le)

lemma put_bytes_append1: "i + length bs \<le> length xs \<Longrightarrow> put_bytes (xs @ ys) i bs = put_bytes xs i bs @ ys"
  by (simp add: put_bytes_eq)

lemma put_bytes_append2: "length xs = n \<Longrightarrow> n \<le> i \<Longrightarrow> put_bytes (xs @ ys) i bs = xs @ put_bytes ys (i - n) bs"
  by (induction bs arbitrary: ys i) (simp_all add: list_update_append Suc_diff_le)

section \<open>The IPv4 header\<close>

lemma list4: "length xs = 4 \<Longrightarrow> \<exists>a b c d. xs = [a, b, c, d]"
  by (auto simp: eval_nat_numeral length_Suc_conv)

lemma ipv4_fields_append:
  assumes "length xs = 20" and "length source = 4" and "length destination = 4"
  shows "ipv4_fields (xs @ ys) source destination p n ttl k = ipv4_fields xs source destination p n ttl k @ ys"
  using assms by (simp add: ipv4_fields_def Let_def list_update_append1 put_be16_append1 put_bytes_append1)

definition ipv4_bytes :: "ipv4_address \<Rightarrow> ipv4_address \<Rightarrow> u8 \<Rightarrow> u16 \<Rightarrow> u8 \<Rightarrow> u16 \<Rightarrow> bytes" where
  "ipv4_bytes source destination p n ttl k = ipv4_fields (replicate 20 0) source destination p n ttl k"

lemma ipv4_fields_zeroed:
  assumes "length source = 4" and "length destination = 4" and "20 \<le> n" and "n \<le> length out"
  shows "ipv4_fields (zero_bytes out 0 n) source destination p m ttl k
    = ipv4_bytes source destination p m ttl k @ replicate (n - 20) 0 @ drop n out"
proof -
  have "replicate n 0 = replicate 20 (0 :: u8) @ replicate (n - 20) 0"
    using assms(3) by (simp flip: replicate_add)
  then have "zero_bytes out 0 n = replicate 20 0 @ replicate (n - 20) 0 @ drop n out"
    using assms(4) by (simp add: zero_bytes_eq)
  then show ?thesis unfolding ipv4_bytes_def by (simp only: ipv4_fields_append [OF length_replicate assms(1,2)])
qed

text \<open>The header before its checksum is written, byte by byte.\<close>

definition ipv4_plain :: "ipv4_address \<Rightarrow> ipv4_address \<Rightarrow> u8 \<Rightarrow> u16 \<Rightarrow> u8 \<Rightarrow> u16 \<Rightarrow> bytes" where
  "ipv4_plain source destination p n ttl k =
     [0x45, 0, ucast (drop_bit 8 n), ucast n, ucast (drop_bit 8 k), ucast k, 0x40, 0, ttl, p, 0, 0] @ source @ destination"

lemma zeros20: "replicate 20 0 = ([0, 0, 0, 0, 0, 0, 0, 0, 0, 0, 0, 0, 0, 0, 0, 0, 0, 0, 0, 0] :: bytes)"
  by (simp add: eval_nat_numeral)

lemma ipv4_bytes_eq:
  assumes "length source = 4" and "length destination = 4"
  shows "ipv4_bytes source destination p n ttl k
    = put_be16 (ipv4_plain source destination p n ttl k) 10 (fill (wire_sum (ipv4_plain source destination p n ttl k) 0))"
proof -
  obtain a b c d where s: "source = [a, b, c, d]" using list4 [OF assms(1)] by blast
  obtain e f g h where t: "destination = [e, f, g, h]" using list4 [OF assms(2)] by blast
  have "put_bytes (put_bytes (put_be16 (put_be16 (put_be16 ((replicate 20 0)[0 := 0x45, 8 := ttl, 9 := p]) 2 n) 4 k) 6 0x4000) 12 source) 16 destination
    = ipv4_plain source destination p n ttl k"
    by (simp add: s t ipv4_plain_def put_be16_def zeros20)
  then show ?thesis
    using assms by (simp add: ipv4_bytes_def ipv4_fields_def Let_def checksum_fill) (simp add: ipv4_plain_def)
qed

lemma length_ipv4_bytes [simp]:
  "length source = 4 \<Longrightarrow> length destination = 4 \<Longrightarrow> length (ipv4_bytes source destination p n ttl k) = 20"
  by (simp add: ipv4_bytes_eq) (simp add: ipv4_plain_def)

lemma ipv4_bytes_checksum:
  assumes "length source = 4" and "length destination = 4"
  shows "checksum (ipv4_bytes source destination p n ttl k) = 0"
  unfolding checksum_zero_iff ipv4_bytes_eq [OF assms]
  by (rule sum_filled) (simp_all add: ipv4_plain_def)

lemma ipv4_bytes_list:
  assumes "length source = 4" and "length destination = 4"
  shows "\<exists>x y. ipv4_bytes source destination p n ttl k =
    [0x45, 0, ucast (drop_bit 8 n), ucast n, ucast (drop_bit 8 k), ucast k, 0x40, 0, ttl, p, x, y] @ source @ destination"
  unfolding ipv4_bytes_eq [OF assms] by (simp add: ipv4_plain_def put_be16_def)

lemma ipv4_parse:
  assumes "length source = 4" and "length destination = 4"
    and "20 \<le> m" and "m \<le> 20 + length rest" and "m \<le> 65535"
  shows "ipv4 (ipv4_bytes source destination p (of_nat m) ttl k @ rest)
    = Inr \<lparr>p4_source = source, p4_destination = destination, p4_traffic_class = 0, p4_ttl = ttl, p4_protocol = p,
           p4_identification = k, p4_dont_fragment = True, p4_payload = take (m - 20) rest\<rparr>"
proof -
  let ?h = "ipv4_bytes source destination p (of_nat m) ttl k"
  obtain a b c d where s: "source = [a, b, c, d]" using list4 [OF assms(1)] by blast
  obtain e f g h where t: "destination = [e, f, g, h]" using list4 [OF assms(2)] by blast
  obtain x y where l: "?h = [0x45, 0, ucast (drop_bit 8 (of_nat m :: u16)), ucast (of_nat m :: u16),
      ucast (drop_bit 8 k), ucast k, 0x40, 0, ttl, p, x, y, a, b, c, d, e, f, g, h]"
    using ipv4_bytes_list [OF assms(1,2), of p "of_nat m" ttl k] by (auto simp: s t)
  have len: "unat (be16 (?h @ rest) 2) = m"
    unfolding be16_def byte_at_def l using assms(5) by (simp add: unat_of_nat_small del: unat_of_nat)
  have k: "be16 (?h @ rest) 4 = k" and fr: "be16 (?h @ rest) 6 = 0x4000"
    unfolding be16_def byte_at_def l by simp_all
  have c: "checksum (take 20 (?h @ rest)) = 0"
    using ipv4_bytes_checksum [OF assms(1,2)] assms(1,2) by simp
  have n: "length (?h @ rest) = 20 + length rest" and r: "drop 20 (?h @ rest) = rest"
    using assms(1,2) by simp_all
  have b: "byte_at (?h @ rest) 0 = 0x45" "byte_at (?h @ rest) 1 = 0" "byte_at (?h @ rest) 8 = ttl" "byte_at (?h @ rest) 9 = p"
    unfolding byte_at_def l by simp_all
  have src: "map (\<lambda>i. byte_at (?h @ rest) (12 + i)) [0..<4] = source"
    and dst: "map (\<lambda>i. byte_at (?h @ rest) (16 + i)) [0..<4] = destination"
    unfolding byte_at_def l unfolding s t by (simp_all add: upt_rec)
  show ?thesis
    unfolding ipv4_def Let_def len k fr b src dst n using c r assms(3-5) by simp
qed

section \<open>UDP datagrams\<close>

definition udp_plain :: "u16 \<Rightarrow> u16 \<Rightarrow> bytes \<Rightarrow> bytes" where
  "udp_plain sp dp payload =
     (let n = of_nat (8 + length payload) :: u16 in
      [ucast (drop_bit 8 sp), ucast sp, ucast (drop_bit 8 dp), ucast dp, ucast (drop_bit 8 n), ucast n, 0, 0] @ payload)"

definition udp_fill :: "u32 \<Rightarrow> u16" where
  "udp_fill s = (if fill s = 0 then 0xffff else fill s)"

definition udp_bytes :: "u32 \<Rightarrow> u16 \<Rightarrow> u16 \<Rightarrow> bytes \<Rightarrow> bytes" where
  "udp_bytes pseudo sp dp payload =
     put_be16 (udp_plain sp dp payload) 6 (udp_fill (wire_sum (udp_plain sp dp payload) pseudo))"

lemma length_udp_bytes [simp]: "length (udp_bytes i sp dp payload) = 8 + length payload"
  by (simp add: udp_bytes_def udp_plain_def Let_def)

lemma length_udp_plain [simp]: "length (udp_plain sp dp payload) = 8 + length payload"
  by (simp add: udp_plain_def Let_def)

lemma udp_fill_nonzero: "udp_fill s \<noteq> 0"
  by (simp add: udp_fill_def)

lemma udp_bytes_sum: "wire_sum (udp_bytes i sp dp payload) i = 0xffff"
  unfolding udp_bytes_def udp_fill_def
  by (cases "fill (wire_sum (udp_plain sp dp payload) i) = 0")
    (simp_all add: sum_filled sum_filled_nonzero udp_plain_def Let_def)

text \<open>The fields of a datagram, whatever follows it.\<close>

lemma udp_bytes_fields:
  assumes "length payload \<le> 65527"
  shows "be16 (udp_bytes i sp dp payload @ rest) 0 = sp" and "be16 (udp_bytes i sp dp payload @ rest) 2 = dp"
    and "unat (be16 (udp_bytes i sp dp payload @ rest) 4) = 8 + length payload"
    and "be16 (udp_bytes i sp dp payload @ rest) 6 \<noteq> 0" and "drop 8 (udp_bytes i sp dp payload) = payload"
proof -
  let ?n = "of_nat (8 + length payload) :: u16"
  let ?c = "udp_fill (wire_sum (udp_plain sp dp payload) i)"
  have l: "udp_bytes i sp dp payload = [ucast (drop_bit 8 sp), ucast sp, ucast (drop_bit 8 dp), ucast dp,
      ucast (drop_bit 8 ?n), ucast ?n, ucast (drop_bit 8 ?c), ucast ?c] @ payload"
    unfolding udp_bytes_def udp_plain_def Let_def put_be16_def by simp
  show "be16 (udp_bytes i sp dp payload @ rest) 0 = sp" and "be16 (udp_bytes i sp dp payload @ rest) 2 = dp"
    and "drop 8 (udp_bytes i sp dp payload) = payload"
    unfolding be16_def byte_at_def l by simp_all
  have "be16 (udp_bytes i sp dp payload @ rest) 4 = ?n" and "be16 (udp_bytes i sp dp payload @ rest) 6 = ?c"
    unfolding be16_def byte_at_def l by (simp_all del: of_nat_add)
  moreover have "unat ?n = 8 + length payload" by (rule unat_of_nat_small) (use assms in simp)
  ultimately show "unat (be16 (udp_bytes i sp dp payload @ rest) 4) = 8 + length payload"
    and "be16 (udp_bytes i sp dp payload @ rest) 6 \<noteq> 0"
    using udp_fill_nonzero by simp_all
qed

lemma udp4_parse:
  assumes "length payload \<le> 65527" and "p4_protocol ip = 17"
    and "p4_payload ip = udp_bytes (pseudo_sum4 (p4_source ip) (p4_destination ip) 17 (of_nat (8 + length payload))) sp dp payload"
  shows "udp4 ip = (if dp = 0 then Inl S_invalid_argument else Inr
    \<lparr>udp_source_port = sp, udp_destination_port = dp, udp_checksum_present = True, udp_payload = payload\<rparr>)"
proof -
  note f = udp_bytes_fields(1-4) [OF assms(1), where rest = "[]", unfolded append_Nil2] udp_bytes_fields(5) [OF assms(1)]
  have t: "take (8 + length payload) (udp_bytes i sp dp payload) = udp_bytes i sp dp payload" for i by simp
  show ?thesis
    unfolding udp4_def assms(2,3) Let_def f(3) t using f udp_bytes_sum by (simp del: of_nat_add)
qed

lemma drop8: "drop (8 + m) (a # b # c # d # e # f # g # h # xs) = drop m xs"
  by (simp add: numeral_eq_Suc)

text \<open>What a successful call writes: the header, the datagram, and nothing behind them.\<close>

lemma build_udp4_ok:
  assumes "length source = 4" and "length destination = 4"
    and "build_udp4 out out_at source destination sp dp k ttl payload in_at = (Inr n, out')"
  shows "n = 28 + length payload \<and> n \<le> length out \<and> length payload \<le> 65507 \<and> ttl \<noteq> 0 \<and>
    out' = ipv4_bytes source destination 17 (of_nat n) ttl k
      @ udp_bytes (pseudo_sum4 source destination 17 (of_nat (8 + length payload))) sp dp payload @ drop n out"
proof -
  let ?h = "ipv4_bytes source destination 17 (of_nat (28 + length payload)) ttl k"
  have n: "n = 28 + length payload" and room: "n \<le> length out" and small: "length payload \<le> 65507" and ttl: "ttl \<noteq> 0"
    using assms(3) by (auto simp: build_udp4_def Let_def split: if_splits)
  have z: "replicate 8 0 = ([0, 0, 0, 0, 0, 0, 0, 0] :: bytes)" by (simp add: eval_nat_numeral)
  have h: "ipv4_fields (zero_bytes out 0 28) source destination 17 (of_nat (28 + length payload)) ttl k
      = ?h @ [0, 0, 0, 0, 0, 0, 0, 0] @ drop 28 out"
    using ipv4_fields_zeroed [OF assms(1,2), of 28 out 17 _ ttl k] n room z by simp
  have w: "put_bytes (put_be16 (put_be16 (put_be16 (?h @ [0, 0, 0, 0, 0, 0, 0, 0] @ drop 28 out) 20 sp) 22 dp) 24
        (of_nat (28 + length payload - 20))) 28 payload = ?h @ udp_plain sp dp payload @ drop n out"
    using assms(1,2) n room
    by (simp add: put_be16_append2 [where n = 20] put_bytes_append2 [where n = 20] put_be16_append1 udp_plain_def Let_def)
      (simp add: put_be16_def put_bytes_eq drop8 add.commute [of 28])
  have d: "take (28 + length payload - 20) (drop 20 (?h @ udp_plain sp dp payload @ drop n out)) = udp_plain sp dp payload"
    using assms(1,2) by simp
  have e: "28 + length payload - 20 = 8 + length payload" by simp
  have f: "put_be16 (?h @ udp_plain sp dp payload @ drop n out) 26 c
      = ?h @ put_be16 (udp_plain sp dp payload) 6 c @ drop n out" for c
    using assms(1,2) by (simp add: put_be16_append2 [where n = 20] put_be16_append1)
  show ?thesis
    using assms(3) n room small ttl
    unfolding build_udp4_def Let_def h w d f by (simp add: e udp_bytes_def udp_fill_def fill_def split: if_splits)
qed

section \<open>The generic codecs at IPv4\<close>

lemmas family_defs = ipv4_family_def protocol_udp_def protocol_tcp_def

lemma udp_of_ipv4: "udp_of ipv4_family ip = udp4 ip"
  by (simp add: udp_of_def udp4_def family_defs Let_def)

lemma tcp_of_ipv4: "tcp_of ipv4_family ip = tcp4 ip"
  by (simp add: tcp_of_def tcp4_def family_defs Let_def)

lemma ipv4_header_eq:
  assumes "length source = 4" and "length destination = 4" and "20 \<le> length out"
  shows "ipv4_header out source destination p n ttl k = ipv4_bytes source destination p (of_nat (20 + n)) ttl k @ drop 20 out"
  using ipv4_fields_zeroed [OF assms(1,2), of 20 out] assms(3) by (simp add: ipv4_header_def)

lemma list8: "8 \<le> length xs \<Longrightarrow> \<exists>a b c d e f g h ys. xs = a # b # c # d # e # f # g # h # ys"
  by (auto simp: numeral_eq_Suc Suc_le_length_iff)

text \<open>Writing the UDP header over eight arbitrary bytes or over eight zeros gives the same bytes.\<close>

lemma udp_header_over:
  assumes "8 \<le> length xs"
  shows "put_be16 (put_be16 (put_be16 (put_be16 xs 0 sp) 2 dp) 4 n) 6 0
    = put_be16 (put_be16 (put_be16 (replicate 8 0 @ drop 8 xs) 0 sp) 2 dp) 4 n"
proof -
  obtain a b c d e f g h ys where "xs = a # b # c # d # e # f # g # h # ys" using list8 [OF assms] by blast
  moreover have "replicate 8 0 = ([0, 0, 0, 0, 0, 0, 0, 0] :: bytes)" by (simp add: eval_nat_numeral)
  ultimately show ?thesis by (simp add: put_be16_def)
qed

lemma udp_header_over_out:
  assumes "length source = 4" and "length destination = 4" and "28 \<le> length out"
  shows "put_be16 (put_be16 (put_be16 (put_be16
      (ipv4_header out source destination p n ttl k) 20 sp) 22 dp) 24 m) 26 0
    = put_be16 (put_be16 (put_be16
      (ipv4_fields (zero_bytes out 0 28) source destination p (of_nat (20 + n)) ttl k) 20 sp) 22 dp) 24 m"
proof -
  have "8 \<le> length (drop 20 out)" using assms(3) by simp
  note w = udp_header_over [OF this, of sp dp m]
  have "drop 8 (drop 20 out) = drop 28 out" by simp
  then show ?thesis
    using assms(3) w by (simp add: ipv4_header_eq [OF assms(1,2)] ipv4_fields_zeroed [OF assms(1,2)]
        put_be16_append2 [where n = 20] assms(1,2) del: of_nat_add)
qed

lemma build_udp_of_ipv4:
  assumes "length source = 4" and "length destination = 4"
  shows "build_udp_of ipv4_family out out_at source destination sp dp k ttl payload payload_at
      = build_udp4 out out_at source destination sp dp k ttl payload payload_at"
proof (cases "28 + length payload \<le> length out \<and> length payload \<le> 65507")
  case True
  then have "28 \<le> length out" by linarith
  note w = udp_header_over_out [OF assms this]
  have "20 + (28 + length payload - 20) = 28 + length payload" by simp
  note w' = w [of _ "28 + length payload - 20", unfolded this]
  have e: "20 + 8 + length payload = 28 + length payload" "20 + 2 = (22 :: nat)" "20 + 4 = (24 :: nat)"
    "20 + 6 = (26 :: nat)" "20 + 8 = (28 :: nat)" "\<not> length payload > 65535 - 20 - 8" "\<not> length payload > 65535 - 8"
    "\<not> length out < 28 + length payload" "\<not> length payload > 65507"
    using True by simp_all
  have o: "overlaps (length payload) payload_at (28 + length payload) out_at \<longleftrightarrow>
      payload \<noteq> [] \<and> (if payload_at \<ge> out_at then unat (payload_at - out_at) < 28 + length payload
                       else unat (out_at - payload_at) < length payload)"
    by (simp add: overlaps_def)
  show ?thesis
    unfolding build_udp_of_def build_udp4_def Let_def family_defs family.simps e w' o
    by (simp only: e simp_thms if_False)
next
  case False
  then consider "length payload > 65507" | "length out < 28 + length payload" by linarith
  then show ?thesis by cases (simp_all add: build_udp_of_def build_udp4_def Let_def family_defs)
qed

lemma build_tcp_of_ipv4:
  assumes "length source = 4" and "length destination = 4"
  shows "build_tcp_of ipv4_family out out_at source destination k ttl f opts opts_at payload payload_at
      = build_tcp4 out out_at source destination k ttl f opts opts_at payload payload_at"
proof (cases "length out < 20 + tcp_header_size (length opts) + length payload")
  case True
  then show ?thesis by (simp add: build_tcp_of_def build_tcp4_def Let_def family_defs)
next
  case False
  define h where "h = tcp_header_size (length opts)"
  let ?n = "20 + h + length payload"
  have room: "20 + h \<le> length out" using False by (simp add: h_def)
  have e: "20 + (?n - 20) = ?n" "20 + 20 = (40 :: nat)" "20 + 16 = (36 :: nat)" "65535 - 20 - h = 65515 - h" by simp_all
  have z: "zero_bytes (ipv4_header out source destination 6 (?n - 20) ttl k) 20 h
      = ipv4_fields (zero_bytes out 0 (20 + h)) source destination 6 (of_nat ?n) ttl k"
  proof -
    let ?H = "ipv4_bytes source destination 6 (of_nat ?n) ttl k"
    have "ipv4_header out source destination 6 (?n - 20) ttl k = ?H @ drop 20 out"
      using ipv4_header_eq [OF assms, of out 6 "?n - 20"] room by (simp only: e)
    moreover have "zero_bytes (?H @ drop 20 out) 20 h = ?H @ replicate h 0 @ drop (20 + h) out"
      using zero_bytes_eq [of 20 h "?H @ drop 20 out"] room assms by (simp add: add.commute)
    moreover have "ipv4_fields (zero_bytes out 0 (20 + h)) source destination 6 (of_nat ?n) ttl k
        = ?H @ replicate h 0 @ drop (20 + h) out"
      using ipv4_fields_zeroed [OF assms, of "20 + h" out] room by simp
    ultimately show ?thesis by (simp only:)
  qed
  show ?thesis
    unfolding build_tcp_of_def build_tcp4_def Let_def family_defs family.simps h_def [symmetric] z e by (rule refl)
qed

section \<open>Properties\<close>

text \<open>
  C12: a UDP packet that was built parses back. When \<open>build_udp\<close> returns a length, the bytes it
  wrote, followed by any link-layer padding, parse as an IPv4 packet with the addresses, hop limit
  and identification given. Its payload parses as a datagram with the ports and the payload given
  and with a checksum that verifies, except that a destination port of 0, which \<open>build_udp\<close>
  accepts, is refused by \<open>udp()\<close>. The output behind the packet is unchanged. When \<open>build_udp\<close>
  returns an error the whole output is unchanged.
\<close>

theorem udp_build_parse_roundtrip:
  assumes "length source = 4" and "length destination = 4"
    and "build_udp4 out out_at source destination sp dp k ttl payload in_at = (r, out')"
  shows "case r of
      Inl e \<Rightarrow> out' = out
    | Inr n \<Rightarrow> length out' = length out \<and> drop n out' = drop n out \<and>
        (\<exists>ip. ipv4 (take n out' @ padding) = Inr ip \<and> p4_source ip = source \<and> p4_destination ip = destination \<and>
          p4_ttl ip = ttl \<and> p4_identification ip = k \<and>
          udp4 ip = (if dp = 0 then Inl S_invalid_argument
            else Inr \<lparr>udp_source_port = sp, udp_destination_port = dp, udp_checksum_present = True,
                      udp_payload = payload\<rparr>))"
proof (cases r)
  case (Inl e)
  then show ?thesis using assms(3) by (auto simp: build_udp4_def Let_def split: if_splits)
next
  case (Inr n)
  let ?h = "ipv4_bytes source destination 17 (of_nat n) ttl k"
  let ?u = "udp_bytes (pseudo_sum4 source destination 17 (of_nat (8 + length payload))) sp dp payload"
  have n: "n = 28 + length payload" "n \<le> length out" and small: "length payload \<le> 65507"
    and out': "out' = ?h @ ?u @ drop n out"
    using build_udp4_ok [OF assms(1,2)] assms(3) Inr by blast+
  have t: "take n out' = ?h @ ?u" and d: "drop n out' = drop n out"
    using n assms(1,2) by (simp_all add: out')
  have "ipv4 (?h @ (?u @ padding)) = Inr \<lparr>p4_source = source, p4_destination = destination, p4_traffic_class = 0,
      p4_ttl = ttl, p4_protocol = 17, p4_identification = k, p4_dont_fragment = True,
      p4_payload = take (n - 20) (?u @ padding)\<rparr>" (is "_ = Inr ?ip")
    by (rule ipv4_parse [OF assms(1,2)]) (use n small in simp_all)
  moreover have "p4_payload ?ip = ?u" using n by simp
  then have "udp4 ?ip = (if dp = 0 then Inl S_invalid_argument else Inr
      \<lparr>udp_source_port = sp, udp_destination_port = dp, udp_checksum_present = True, udp_payload = payload\<rparr>)"
    by (intro udp4_parse) (use small in simp_all)
  ultimately show ?thesis using Inr t d n assms(1,2) by (auto simp: out')
qed

theorem udp_build_parse_roundtrip_witness:
  "case build_udp4 (replicate 31 7) 0x1000 [10, 0, 2, 15] [10, 0, 2, 2] 4000 53 9 64 [1, 2, 3] 0x9000 of
     (Inl e, out') \<Rightarrow> out' = replicate 31 7
   | (Inr n, out') \<Rightarrow> n = 31 \<and> (\<exists>ip. ipv4 (take n out' @ [0, 0]) = Inr ip \<and> p4_source ip = [10, 0, 2, 15] \<and>
       udp4 ip = Inr \<lparr>udp_source_port = 4000, udp_destination_port = 53, udp_checksum_present = True,
                      udp_payload = [1, 2, 3]\<rparr>)"
proof -
  let ?b = "build_udp4 (replicate 31 7) 0x1000 [10, 0, 2, 15] [10, 0, 2, 2] 4000 53 9 64 [1, 2, 3] 0x9000"
  have "fst ?b = Inr 31" by (simp add: build_udp4_def Let_def)
  then obtain out' where b: "?b = (Inr 31, out')" by (cases ?b) simp
  show ?thesis
    using udp_build_parse_roundtrip [OF _ _ b, where padding = "[0, 0]"] by (auto simp: b)
qed

text \<open>
  C23: the family-generic codecs, taken at IPv4, are the IPv4 codecs: they accept the same packets
  with the same result, and they write the same bytes and return the same status, for addresses of
  four bytes.
\<close>

theorem generic_codecs_agree:
  assumes "length source = 4" and "length destination = 4"
  shows "udp_of ipv4_family ip = udp4 ip \<and> tcp_of ipv4_family ip = tcp4 ip \<and>
    build_udp_of ipv4_family out out_at source destination sp dp k ttl payload payload_at
      = build_udp4 out out_at source destination sp dp k ttl payload payload_at \<and>
    build_tcp_of ipv4_family out out_at source destination k ttl f opts opts_at payload payload_at
      = build_tcp4 out out_at source destination k ttl f opts opts_at payload payload_at"
  by (simp add: udp_of_ipv4 tcp_of_ipv4 build_udp_of_ipv4 [OF assms] build_tcp_of_ipv4 [OF assms])

theorem generic_codecs_agree_witness:
  "build_udp_of ipv4_family (replicate 31 7) 0x1000 [10, 0, 2, 15] [10, 0, 2, 2] 4000 53 9 64 [1, 2, 3] 0x9000
   = build_udp4 (replicate 31 7) 0x1000 [10, 0, 2, 15] [10, 0, 2, 2] 4000 53 9 64 [1, 2, 3] 0x9000"
  using generic_codecs_agree [of "[10, 0, 2, 15]" "[10, 0, 2, 2]"] by simp

end
