(* ===== verification/OK_Family_Proofs.thy ===== *)
theory OK_Family_Proofs
  imports OK_Wire_Proofs
begin

text \<open>
  The concept \<open>AddressFamily\<close> of \<^verbatim>\<open>net/ip.hpp\<close> as an interface. Its laws are what the generic
  builders and parsers rely on: the header is written in front and nothing else is touched, and
  the parser of the family reads such a header back, or refuses it if the source is none that may
  send. A built UDP packet then parses back in every
  family; IPv4 and IPv6 satisfy the laws.
\<close>

section \<open>The interface\<close>

locale network_family =
  fixes F :: "'p family"
    and address_size :: nat
    and sender :: "u8 list \<Rightarrow> bool"
    and header_bytes :: "u8 list \<Rightarrow> u8 list \<Rightarrow> u8 \<Rightarrow> nat \<Rightarrow> u8 \<Rightarrow> u16 \<Rightarrow> bytes"
  assumes length_header: "length s = address_size \<Longrightarrow> length d = address_size \<Longrightarrow>
      length (header_bytes s d p n ttl k) = fam_header_size F"
    and header_written: "length s = address_size \<Longrightarrow> length d = address_size \<Longrightarrow> fam_header_size F \<le> length out \<Longrightarrow>
      fam_header F out s d p n ttl k = header_bytes s d p n ttl k @ drop (fam_header_size F) out"
    and header_parsed: "length s = address_size \<Longrightarrow> length d = address_size \<Longrightarrow> sender s \<Longrightarrow>
      p \<in> {protocol_udp, protocol_tcp} \<Longrightarrow> n \<le> length rest \<Longrightarrow> n \<le> fam_max_packet F - fam_header_size F \<Longrightarrow>
      \<exists>ip. fam_parse F (header_bytes s d p n ttl k @ rest) = Inr ip \<and> fam_source F ip = s \<and> fam_destination F ip = d \<and>
        fam_protocol F ip = p \<and> fam_payload F ip = take n rest"
    and header_refused: "length s = address_size \<Longrightarrow> length d = address_size \<Longrightarrow> \<not> sender s \<Longrightarrow>
      n \<le> length rest \<Longrightarrow> n \<le> fam_max_packet F - fam_header_size F \<Longrightarrow>
      fam_parse F (header_bytes s d p n ttl k @ rest) = Inl S_invalid_argument"
    and datagram_room: "8 \<le> fam_max_packet F - fam_header_size F"
begin

lemma udp_written:
  assumes "8 + length payload \<le> length xs"
  shows "put_bytes (put_be16 (put_be16 (put_be16 (put_be16 xs 0 sp) 2 dp) 4 (of_nat (8 + length payload))) 6 0) 8 payload
    = udp_plain sp dp payload @ drop (8 + length payload) xs"
proof -
  have "8 \<le> length xs" using assms by linarith
  then obtain a b c d e f g h ys where x: "xs = a # b # c # d # e # f # g # h # ys" using list8 by blast
  have "length payload \<le> length ys" using assms x by simp
  then show ?thesis
    unfolding x by (simp add: put_be16_def put_bytes_eq udp_plain_def Let_def drop8)
qed

lemma udp_parse:
  assumes "length payload \<le> 65527" and "fam_protocol F ip = protocol_udp"
    and "fam_payload F ip
      = udp_bytes (fam_pseudo F (fam_source F ip) (fam_destination F ip) protocol_udp (8 + length payload)) sp dp payload"
  shows "udp_of F ip = (if dp = 0 then Inl S_invalid_argument else Inr
    \<lparr>udp_source_port = sp, udp_destination_port = dp, udp_checksum_present = True, udp_payload = payload\<rparr>)"
proof -
  note f = udp_bytes_fields(1-4) [OF assms(1), where rest = "[]", unfolded append_Nil2] udp_bytes_fields(5) [OF assms(1)]
  have t: "take (8 + length payload) (udp_bytes i sp dp payload) = udp_bytes i sp dp payload" for i by simp
  show ?thesis
    unfolding udp_of_def Let_def assms(2,3) f(3) t using f udp_bytes_sum by simp
qed

lemma build_udp_writes:
  assumes "length s = address_size" and "length d = address_size"
    and "build_udp_of F out out_at s d sp dp k ttl payload in_at = (Inr n, out')"
  shows "n = fam_header_size F + 8 + length payload \<and> n \<le> length out \<and> length payload \<le> 65527 \<and>
    8 + length payload \<le> fam_max_packet F - fam_header_size F \<and>
    out' = header_bytes s d protocol_udp (8 + length payload) ttl k
      @ udp_bytes (fam_pseudo F s d protocol_udp (8 + length payload)) sp dp payload @ drop n out"
proof -
  let ?h = "fam_header_size F" let ?m = "8 + length payload"
  let ?H = "header_bytes s d protocol_udp ?m ttl k"
  have n: "n = ?h + 8 + length payload" and room: "n \<le> length out"
    and small: "length payload \<le> 65527" "length payload \<le> fam_max_packet F - ?h - 8"
    using assms(3) by (auto simp: build_udp_of_def Let_def split: if_splits)
  have H: "length ?H = ?h" using assms(1,2) by (rule length_header)
  have e: "?h + 8 + length payload - ?h = ?m" by simp
  have h: "fam_header F out s d protocol_udp ?m ttl k = ?H @ drop ?h out"
    using assms(1,2) n room by (intro header_written) simp_all
  have w: "put_bytes (put_be16 (put_be16 (put_be16 (put_be16 (?H @ drop ?h out) ?h sp) (?h + 2) dp) (?h + 4) (of_nat ?m)) (?h + 6) 0)
      (?h + 8) payload = ?H @ udp_plain sp dp payload @ drop n out"
  proof -
    have a: "put_be16 (?H @ ys) ?h v = ?H @ put_be16 ys 0 v" "put_be16 (?H @ ys) (?h + i) v = ?H @ put_be16 ys i v"
      "put_bytes (?H @ ys) (?h + i) bs = ?H @ put_bytes ys i bs" for ys v i bs
      by (simp_all add: put_be16_append2 [OF H] put_bytes_append2 [OF H])
    have "drop ?m (drop ?h out) = drop n out" using n by (simp add: ac_simps)
    moreover have "?m \<le> length (drop ?h out)" using n room by simp
    ultimately show ?thesis unfolding a using udp_written by simp
  qed
  have t: "take ?m (drop ?h (?H @ udp_plain sp dp payload @ drop n out)) = udp_plain sp dp payload"
    using H by simp
  have f: "put_be16 (?H @ udp_plain sp dp payload @ drop n out) (?h + 6) c
      = ?H @ put_be16 (udp_plain sp dp payload) 6 c @ drop n out" for c
    by (simp add: put_be16_append2 [OF H] put_be16_append1)
  have "out' = ?H @ udp_bytes (fam_pseudo F s d protocol_udp ?m) sp dp payload @ drop n out"
    using assms(3) unfolding build_udp_of_def Let_def e h w t f
    by (simp add: udp_bytes_def udp_fill_def fill_def split: if_splits)
  then show ?thesis using n room small datagram_room by simp
qed

lemma udp_roundtrip:
  assumes "length s = address_size" and "length d = address_size"
    and "build_udp_of F out out_at s d sp dp k ttl payload in_at = (Inr n, out')"
  shows "drop n out' = drop n out \<and> (if sender s then \<exists>ip. fam_parse F (take n out' @ padding) = Inr ip \<and>
      fam_source F ip = s \<and> fam_destination F ip = d \<and>
      udp_of F ip = (if dp = 0 then Inl S_invalid_argument else Inr
        \<lparr>udp_source_port = sp, udp_destination_port = dp, udp_checksum_present = True, udp_payload = payload\<rparr>)
    else fam_parse F (take n out' @ padding) = Inl S_invalid_argument)"
proof -
  let ?m = "8 + length payload"
  let ?H = "header_bytes s d protocol_udp ?m ttl k"
  let ?u = "udp_bytes (fam_pseudo F s d protocol_udp ?m) sp dp payload"
  have n: "n = fam_header_size F + 8 + length payload" "n \<le> length out" and small: "length payload \<le> 65527"
    and fit: "?m \<le> fam_max_packet F - fam_header_size F" and out': "out' = ?H @ ?u @ drop n out"
    using build_udp_writes [OF assms] by blast+
  have t: "take n out' = ?H @ ?u" and d: "drop n out' = drop n out"
    using n length_header [OF assms(1,2)] by (simp_all add: out')
  show ?thesis
  proof (cases "sender s")
    case True
    obtain ip where ip: "fam_parse F (?H @ (?u @ padding)) = Inr ip" "fam_source F ip = s" "fam_destination F ip = d"
      "fam_protocol F ip = protocol_udp" "fam_payload F ip = take ?m (?u @ padding)"
      using header_parsed [OF assms(1,2) True, of protocol_udp ?m "?u @ padding"] fit by auto
    have "udp_of F ip = (if dp = 0 then Inl S_invalid_argument else Inr
        \<lparr>udp_source_port = sp, udp_destination_port = dp, udp_checksum_present = True, udp_payload = payload\<rparr>)"
      by (rule udp_parse [OF small ip(4)]) (simp add: ip)
    then show ?thesis using True ip t d by auto
  next
    case False
    then show ?thesis using header_refused [OF assms(1,2) False, of ?m "?u @ padding"] fit t d by simp
  qed
qed

end

section \<open>IPv4 and IPv6\<close>

interpretation v4: network_family ipv4_family 4 "\<lambda>_. True"
  "\<lambda>s d p n ttl k. ipv4_bytes s d p (of_nat (20 + n)) ttl k"
proof unfold_locales
  fix s d :: "u8 list" and p ttl :: u8 and n :: nat and k :: u16 and rest :: bytes
  assume s: "length s = 4" "length d = 4" and n: "n \<le> length rest"
    "n \<le> fam_max_packet ipv4_family - fam_header_size ipv4_family"
  show "\<exists>ip. fam_parse ipv4_family (ipv4_bytes s d p (of_nat (20 + n)) ttl k @ rest) = Inr ip \<and>
      fam_source ipv4_family ip = s \<and> fam_destination ipv4_family ip = d \<and> fam_protocol ipv4_family ip = p \<and>
      fam_payload ipv4_family ip = take n rest"
    using ipv4_parse [OF s, of "20 + n" rest p ttl k] n by (simp add: ipv4_family_def del: of_nat_add)
qed (simp_all add: ipv4_family_def ipv4_header_eq del: of_nat_add)

definition ipv6_bytes :: "ipv6_address \<Rightarrow> ipv6_address \<Rightarrow> u8 \<Rightarrow> nat \<Rightarrow> u8 \<Rightarrow> bytes" where
  "ipv6_bytes s d p n hop =
     [0x60, 0, 0, 0, ucast (drop_bit 8 (of_nat n :: u16)), ucast (of_nat n :: u16), p, hop] @ s @ d"

lemma ipv6_header_eq:
  assumes "length s = 16" and "length d = 16" and "40 \<le> length out"
  shows "ipv6_header out s d p n hop k = ipv6_bytes s d p n hop @ drop 40 out"
proof -
  have "replicate 40 (0 :: u8) = [0, 0, 0, 0, 0, 0, 0, 0] @ replicate 32 0" by (simp add: numeral_eq_Suc)
  then have z: "zero_bytes out 0 40 = [0, 0, 0, 0, 0, 0, 0, 0] @ (replicate 32 0 @ drop 40 out)"
    using assms(3) by (simp add: zero_bytes_eq)
  show ?thesis
    unfolding ipv6_header_def z Let_def using assms by (simp add: put_be16_def put_bytes_eq ipv6_bytes_def numeral_eq_Suc)
qed

lemma map_byte_at:
  "length xs = n \<Longrightarrow> length ys = m \<Longrightarrow> map (\<lambda>i. byte_at (xs @ ys @ zs) (n + i)) [0..<m] = ys"
  by (rule nth_equalityI) (simp_all add: byte_at_def nth_append)

lemma ipv6_parse:
  assumes "length s = 16" and "length d = 16" and "n \<le> length rest" and "n \<le> 65535"
  shows "multicast6 s \<Longrightarrow> ipv6 (ipv6_bytes s d p n hop @ rest) = Inl S_invalid_argument"
    and "\<not> multicast6 s \<Longrightarrow> p \<in> {protocol_udp, protocol_tcp, protocol_icmpv6} \<Longrightarrow> \<exists>ip. ipv6 (ipv6_bytes s d p n hop @ rest) = Inr ip \<and> p6_source ip = s \<and> p6_destination ip = d \<and>
    p6_protocol ip = p \<and> p6_hop_limit ip = hop \<and> p6_payload ip = take n rest"
proof -
  let ?f = "[0x60, 0, 0, 0, ucast (drop_bit 8 (of_nat n :: u16)), ucast (of_nat n :: u16), p, hop]"
  let ?b = "ipv6_bytes s d p n hop @ rest"
  have b: "?b = ?f @ s @ d @ rest" by (simp add: ipv6_bytes_def)
  have len: "unat (be16 ?b 4) = n"
    unfolding be16_def byte_at_def b using assms(4) by (simp add: unat_of_nat_small del: unat_of_nat)
  have src: "map (\<lambda>i. byte_at ?b (8 + i)) [0..<16] = s"
    unfolding b by (rule map_byte_at) (use assms(1) in simp_all)
  have dst: "map (\<lambda>i. byte_at ?b (24 + i)) [0..<16] = d"
    unfolding b append_assoc [of ?f s, symmetric] by (rule map_byte_at) (use assms(1,2) in simp_all)
  have f: "byte_at ?b 0 = 0x60" "byte_at ?b 6 = p" "byte_at ?b 7 = hop" unfolding byte_at_def b by simp_all
  have l: "length ?b = 40 + length rest" "drop 40 ?b = rest" using assms(1,2) unfolding b by simp_all
  show "multicast6 s \<Longrightarrow> ipv6 ?b = Inl S_invalid_argument"
    unfolding ipv6_def Let_def len src dst f l using assms(3) by simp
  assume "\<not> multicast6 s" "p \<in> {protocol_udp, protocol_tcp, protocol_icmpv6}"
  moreover from this(2) have "ipv6_headers True p (take n rest) = Inr (p, take n rest)"
    by (subst ipv6_headers.simps) (auto simp: protocol_udp_def protocol_tcp_def protocol_icmpv6_def)
  ultimately show "\<exists>ip. ipv6 ?b = Inr ip \<and> p6_source ip = s \<and> p6_destination ip = d \<and>
    p6_protocol ip = p \<and> p6_hop_limit ip = hop \<and> p6_payload ip = take n rest"
    unfolding ipv6_def Let_def len src dst f l using assms(3) by simp
qed

interpretation v6: network_family ipv6_family 16 "\<lambda>s. \<not> multicast6 s" "\<lambda>s d p n ttl k. ipv6_bytes s d p n ttl"
proof unfold_locales
  fix s d :: "u8 list" and p ttl :: u8 and n :: nat and rest :: bytes
  assume s: "length s = 16" "length d = 16"
    and n: "n \<le> length rest" "n \<le> fam_max_packet ipv6_family - fam_header_size ipv6_family"
  note parse = ipv6_parse [OF s n(1), of _ ttl]
  show "\<not> \<not> multicast6 s \<Longrightarrow> fam_parse ipv6_family (ipv6_bytes s d p n ttl @ rest) = Inl S_invalid_argument"
    using parse(1) n(2) by (simp add: ipv6_family_def)
  assume "\<not> multicast6 s" "p \<in> {protocol_udp, protocol_tcp}"
  then show "\<exists>ip. fam_parse ipv6_family (ipv6_bytes s d p n ttl @ rest) = Inr ip \<and>
      fam_source ipv6_family ip = s \<and> fam_destination ipv6_family ip = d \<and> fam_protocol ipv6_family ip = p \<and>
      fam_payload ipv6_family ip = take n rest"
    using parse(2) [of p] n(2) by (auto simp: ipv6_family_def)
qed (simp_all add: ipv6_family_def ipv6_header_eq ipv6_bytes_def)

section \<open>Property\<close>

text \<open>
  C19: a UDP packet built for IPv6 parses back. When the generic \<open>build_udp\<close> returns a length, the
  bytes it wrote, followed by any padding, parse as an IPv6 packet with the addresses given,
  without extension headers, and its payload parses as a datagram with the ports and the payload
  given and with the checksum IPv6 makes mandatory. Two things \<open>build_udp\<close> accepts are refused on
  the way back: a multicast source by the IPv6 parser, a destination port of 0 by the UDP parser.
  The output behind the packet is unchanged; on an error the whole output is.
\<close>

theorem udp6_build_parse_roundtrip:
  assumes "length source = 16" and "length destination = 16"
    and "build_udp_of ipv6_family out out_at source destination sp dp k ttl payload in_at = (r, out')"
  shows "case r of
      Inl e \<Rightarrow> out' = out
    | Inr n \<Rightarrow> drop n out' = drop n out \<and>
        (if multicast6 source then ipv6 (take n out' @ padding) = Inl S_invalid_argument
         else \<exists>ip. ipv6 (take n out' @ padding) = Inr ip \<and> p6_source ip = source \<and> p6_destination ip = destination \<and>
           udp_of ipv6_family ip = (if dp = 0 then Inl S_invalid_argument
             else Inr \<lparr>udp_source_port = sp, udp_destination_port = dp, udp_checksum_present = True,
                       udp_payload = payload\<rparr>))"
proof (cases r)
  case (Inl e)
  then show ?thesis using assms(3) by (auto simp: build_udp_of_def Let_def split: if_splits)
next
  case (Inr n)
  then show ?thesis using v6.udp_roundtrip [OF assms(1,2), of out out_at sp dp k ttl payload in_at n out' padding] assms(3)
    by (auto simp: ipv6_family_def split: if_splits)
qed

theorem udp6_build_parse_roundtrip_witness:
  "\<exists>n out' ip. build_udp_of ipv6_family (replicate 60 7) 0x1000 (link_local_from_mac [2, 0, 0, 0, 0, 1])
       (link_local_from_mac [2, 0, 0, 0, 0, 2]) 4000 53 0 64 [1, 2, 3] 0x9000 = (Inr n, out') \<and>
     ipv6 (take n out' @ [0]) = Inr ip \<and>
     udp_of ipv6_family ip = Inr \<lparr>udp_source_port = 4000, udp_destination_port = 53, udp_checksum_present = True,
                                  udp_payload = [1, 2, 3]\<rparr>"
proof -
  let ?s = "link_local_from_mac [2, 0, 0, 0, 0, 1]" let ?d = "link_local_from_mac [2, 0, 0, 0, 0, 2]"
  let ?b = "build_udp_of ipv6_family (replicate 60 7) 0x1000 ?s ?d 4000 53 0 64 [1, 2, 3] 0x9000"
  have "fst ?b = Inr 51" by (simp add: build_udp_of_def Let_def ipv6_family_def overlaps_def)
  then obtain out' where b: "?b = (Inr 51, out')" by (cases ?b) simp
  have l: "length ?s = 16" "length ?d = 16" and "\<not> multicast6 ?s" by code_simp+
  with udp6_build_parse_roundtrip [OF l b, of "[0]"] show ?thesis using b by auto
qed

end
