(* ===== verification/OK_Icmp_Proofs.thy ===== *)
theory OK_Icmp_Proofs
  imports OK_Icmp OK_Family_Proofs
begin

text \<open>
  ICMP messages and neighbour discovery, built and parsed. What \<open>build_icmp\<close> writes is stated for
  every address family; over IPv6, the neighbour messages this host sends are accepted by the
  parser with the same target and link-layer address.
\<close>

section \<open>What the builder writes\<close>

lemma be32_halves [simp]: "push_bit 16 (ucast (ucast (drop_bit 16 v) :: u16)) OR ucast (ucast v :: u16) = (v :: u32)"
  by (rule bit_word_eqI) (auto simp: bit_simps)

definition icmp_plain :: "u8 \<Rightarrow> u8 \<Rightarrow> u32 \<Rightarrow> bytes \<Rightarrow> bytes" where
  "icmp_plain type code rest body =
     (let a = ucast (drop_bit 16 rest) :: u16; b = ucast rest :: u16 in
      [type, code, 0, 0, ucast (drop_bit 8 a), ucast a, ucast (drop_bit 8 b), ucast b] @ body)"

definition icmp_bytes :: "u32 \<Rightarrow> u8 \<Rightarrow> u8 \<Rightarrow> u32 \<Rightarrow> bytes \<Rightarrow> bytes" where
  "icmp_bytes i type code rest body = put_be16 (icmp_plain type code rest body) 2 (fill (wire_sum (icmp_plain type code rest body) i))"

lemma length_icmp_plain [simp]: "length (icmp_plain type code rest body) = 8 + length body"
  by (simp add: icmp_plain_def Let_def)

lemma length_icmp_bytes [simp]: "length (icmp_bytes i type code rest body) = 8 + length body"
  by (simp add: icmp_bytes_def)

lemma icmp_bytes_sum: "wire_sum (icmp_bytes i type code rest body) i = 0xffff"
  unfolding icmp_bytes_def by (rule sum_filled) (simp_all add: icmp_plain_def Let_def)

lemma icmp_bytes_fields:
  "byte_at (icmp_bytes i type code rest body) 0 = type" "byte_at (icmp_bytes i type code rest body) 1 = code"
  "be32 (icmp_bytes i type code rest body) 4 = rest" "drop 8 (icmp_bytes i type code rest body) = body"
  by (simp_all add: icmp_bytes_def icmp_plain_def Let_def put_be16_def byte_at_def be32_def be16_def)

lemma icmp_written:
  assumes "8 + length body \<le> length xs"
  shows "put_bytes (put_be32 (put_be16 (xs[0 := type, 1 := code]) 2 0) 4 rest) 8 body
    = icmp_plain type code rest body @ drop (8 + length body) xs"
proof -
  have "8 \<le> length xs" using assms by linarith
  then obtain a b c d e f g h ys where x: "xs = a # b # c # d # e # f # g # h # ys" using list8 by blast
  have "length body \<le> length ys" using assms x by simp
  then show ?thesis
    unfolding x by (simp add: put_be32_def put_be16_def put_bytes_eq icmp_plain_def Let_def drop8)
qed

context network_family
begin

lemma build_icmp_writes:
  assumes "length s = address_size" and "length d = address_size"
    and "build_icmp F out out_at s d ttl k type code rest body body_at = (Inr n, out')"
  shows "n = fam_header_size F + 8 + length body \<and> n \<le> length out \<and> length body \<le> 65527 \<and>
    out' = header_bytes s d (fam_icmp_protocol F) (8 + length body) ttl k
      @ icmp_bytes (fam_icmp_initial F s d (8 + length body)) type code rest body @ drop n out"
proof -
  let ?h = "fam_header_size F" let ?m = "8 + length body"
  let ?H = "header_bytes s d (fam_icmp_protocol F) ?m ttl k"
  have n: "n = ?h + 8 + length body" and room: "n \<le> length out" and small: "length body \<le> 65527"
    using assms(3) by (auto simp: build_icmp_def Let_def split: if_splits)
  have H: "length ?H = ?h" using assms(1,2) by (rule length_header)
  have e: "?h + 8 + length body - ?h = ?m" by simp
  have h: "fam_header F out s d (fam_icmp_protocol F) ?m ttl k = ?H @ drop ?h out"
    using assms(1,2) n room by (intro header_written) simp_all
  have a: "(?H @ ys)[?h := v] = ?H @ ys[0 := v]" "(?H @ ys)[?h + i := v] = ?H @ ys[i := v]"
    "put_be16 (?H @ ys) (?h + i) w = ?H @ put_be16 ys i w" "put_be32 (?H @ ys) (?h + i) x = ?H @ put_be32 ys i x"
    "put_bytes (?H @ ys) (?h + i) bs = ?H @ put_bytes ys i bs" for ys v i w x bs
    using H by (simp_all add: list_update_append put_be32_def put_be16_append2 [OF H] put_bytes_append2 [OF H])
  have w: "put_bytes (put_be32 (put_be16 ((?H @ drop ?h out)[?h := type, ?h + 1 := code]) (?h + 2) 0) (?h + 4) rest) (?h + 8) body
      = ?H @ icmp_plain type code rest body @ drop n out"
  proof -
    have "drop ?m (drop ?h out) = drop n out" using n by (simp add: ac_simps)
    moreover have "?m \<le> length (drop ?h out)" using n room by simp
    ultimately show ?thesis unfolding a using icmp_written by simp
  qed
  have t: "take ?m (drop ?h (?H @ icmp_plain type code rest body @ drop n out)) = icmp_plain type code rest body"
    using H by simp
  have f: "put_be16 (?H @ icmp_plain type code rest body @ drop n out) (?h + 2) c
      = ?H @ put_be16 (icmp_plain type code rest body) 2 c @ drop n out" for c
    unfolding a by (simp add: put_be16_append1)
  have "out' = ?H @ icmp_bytes (fam_icmp_initial F s d ?m) type code rest body @ drop n out"
    using assms(3) unfolding build_icmp_def Let_def e h w t f
    by (simp add: icmp_bytes_def fill_def split: if_splits)
  then show ?thesis using n room small by simp
qed

lemma icmp_parse:
  assumes "fam_protocol F ip = fam_icmp_protocol F"
    and "fam_payload F ip = icmp_bytes (fam_icmp_initial F (fam_source F ip) (fam_destination F ip) (8 + length body)) type code rest body"
  shows "icmp_of F ip = Inr \<lparr>ic_type = type, ic_code = code, ic_rest = rest, ic_message = fam_payload F ip, ic_body = body\<rparr>"
  unfolding icmp_of_def Let_def assms(1) using assms(2) by (simp add: icmp_bytes_sum icmp_bytes_fields icmp_bytes_fields(2) [unfolded One_nat_def])

end

section \<open>Neighbour messages\<close>

definition link_option :: "u8 \<Rightarrow> mac option \<Rightarrow> bytes" where
  "link_option opt link = (case link of None \<Rightarrow> [] | Some l \<Rightarrow> [opt, 1] @ l)"

lemma nd_body_eq:
  assumes "length t = 16" and "\<forall>l. link = Some l \<longrightarrow> length l = 6"
  shows "nd_body (Some t) opt link = t @ link_option opt link"
proof -
  have b: "put_bytes (replicate 24 0) 0 t = t @ [0, 0, 0, 0, 0, 0, 0, 0]"
    using assms(1) by (simp add: put_bytes_eq) (simp add: numeral_eq_Suc)
  show ?thesis
  proof (cases link)
    case None
    then show ?thesis using assms(1) by (simp add: nd_body_def b link_option_def)
  next
    case (Some l)
    have l: "length l = 6" using assms(2) Some by simp
    have "(t @ [0, 0, 0, 0, 0, 0, 0, 0])[16 := opt, Suc 16 := 1] = (t @ [opt, 1]) @ [0, 0, 0, 0, 0, 0]"
      using assms(1) by (simp add: list_update_append)
    moreover have "put_bytes ((t @ [opt, 1]) @ [0, 0, 0, 0, 0, 0]) 18 l = (t @ [opt, 1]) @ l"
      using assms(1) l by (subst put_bytes_append2 [where n = 18]) (simp_all add: put_bytes_eq)
    ultimately show ?thesis using assms(1) l Some by (simp add: nd_body_def b link_option_def)
  qed
qed

lemma nd_options_link:
  assumes "\<forall>l. link = Some l \<longrightarrow> length l = 6" and "opt = 1 \<or> opt = 2"
  shows "nd_options (link_option opt link) m = Inr (case link of None \<Rightarrow> m
    | Some l \<Rightarrow> if opt = 1 then m\<lparr>nd_source_link := Some l\<rparr> else m\<lparr>nd_target_link := Some l\<rparr>)"
proof (cases link)
  case None
  then show ?thesis by (simp add: link_option_def nd_options.simps)
next
  case (Some l)
  then have l: "length l = 6" using assms(1) by simp
  then have mac: "map (\<lambda>i. byte_at (opt # 1 # l) (2 + i)) [0..<6] = l"
    using map_byte_at [of "[opt, 1]" 2 l 6 "[]"] by simp
  have "nd_option opt (opt # 1 # l) m = Inr (if opt = 1 then m\<lparr>nd_source_link := Some l\<rparr> else m\<lparr>nd_target_link := Some l\<rparr>)"
    unfolding nd_option_def mac using assms(2) l by auto
  then show ?thesis
    using l Some by (subst nd_options.simps) (simp add: link_option_def byte_at_def nd_options.simps [of "[]"])
qed

text \<open>Where a received message has its target, its flags and its options.\<close>

lemma nd_layout:
  assumes "length t = 16"
  shows "map (\<lambda>i. byte_at (icmp_bytes i0 type code rest (t @ opts)) (8 + i)) [0..<16] = t"
    and "drop 24 (icmp_bytes i0 type code rest (t @ opts)) = opts"
    and "byte_at (icmp_bytes i0 type code rest (t @ opts)) 4 = ucast (drop_bit 8 (ucast (drop_bit 16 rest) :: u16))"
proof -
  let ?b = "icmp_bytes i0 type code rest (t @ opts)"
  have b: "?b = take 8 ?b @ t @ opts" using icmp_bytes_fields(4) [of i0 type code rest "t @ opts"] append_take_drop_id [of 8 ?b] by simp
  show "map (\<lambda>i. byte_at ?b (8 + i)) [0..<16] = t"
    by (subst b) (rule map_byte_at, use assms in simp_all)
  show "drop 24 ?b = opts" by (subst b) (use assms in simp)
  show "byte_at ?b 4 = ucast (drop_bit 8 (ucast (drop_bit 16 rest) :: u16))"
    by (simp add: icmp_bytes_def icmp_plain_def Let_def put_be16_def byte_at_def)
qed

text \<open>A message built by \<open>nd_build\<close>, as the receiver sees it.\<close>

lemma nd_build_received:
  assumes "length source = 16" and "length destination = 16" and "length t = 16"
    and "\<forall>l. link = Some l \<longrightarrow> length l = 6"
    and "nd_build out out_at body_at source destination type rest (Some t) opt link = (Inr n, out')"
  obtains "multicast6 source" and "ipv6 (take n out' @ padding) = Inl S_invalid_argument"
  | ip i where "\<not> multicast6 source" and "ipv6 (take n out' @ padding) = Inr ip" and "p6_source ip = source" and "p6_destination ip = destination"
    and "p6_hop_limit ip = 255"
    and "icmp_of ipv6_family ip = Inr \<lparr>ic_type = type, ic_code = 0, ic_rest = rest,
      ic_message = icmp_bytes i type 0 rest (t @ link_option opt link), ic_body = t @ link_option opt link\<rparr>"
proof -
  let ?body = "t @ link_option opt link" let ?m = "8 + length ?body"
  let ?i = "pseudo_sum6 source destination protocol_icmpv6 (of_nat ?m)"
  let ?c = "icmp_bytes ?i type 0 rest ?body" let ?H = "ipv6_bytes source destination protocol_icmpv6 ?m 255"
  have w: "n = 40 + 8 + length ?body" "n \<le> length out" "length ?body \<le> 65527" "out' = ?H @ ?c @ drop n out"
    using v6.build_icmp_writes [OF assms(1,2) assms(5) [unfolded nd_build_def]] nd_body_eq [OF assms(3,4)]
    by (simp_all add: ipv6_family_def)
  have H: "length ?H = 40" using assms(1,2) by (simp add: ipv6_bytes_def)
  have t: "take n out' @ padding = ?H @ (?c @ padding)" using w H by simp
  note parse = ipv6_parse [OF assms(1,2), of ?m "?c @ padding" protocol_icmpv6 255]
  show thesis
  proof (cases "multicast6 source")
    case True
    then show ?thesis using parse(1) w(3) t by (intro that(1)) simp_all
  next
    case False
    obtain ip where ip: "ipv6 (?H @ (?c @ padding)) = Inr ip" "p6_source ip = source" "p6_destination ip = destination"
      "p6_protocol ip = protocol_icmpv6" "p6_hop_limit ip = 255" "p6_payload ip = take ?m (?c @ padding)"
      using parse(2) False w(3) by auto
    have "icmp_of ipv6_family ip = Inr \<lparr>ic_type = type, ic_code = 0, ic_rest = rest,
        ic_message = fam_payload ipv6_family ip, ic_body = ?body\<rparr>"
      by (rule v6.icmp_parse) (use ip in \<open>simp_all add: ipv6_family_def\<close>)
    moreover have "fam_payload ipv6_family ip = ?c" using ip by (simp add: ipv6_family_def)
    ultimately show ?thesis using that(2) [OF False] ip t by simp
  qed
qed

lemmas nd_types = nd_router_solicitation_def nd_router_advertisement_def nd_neighbor_solicitation_def nd_neighbor_advertisement_def

lemma solicitation_received:
  assumes "length t = 16" and "\<forall>l. link = Some l \<longrightarrow> length l = 6" and "\<not> multicast6 t"
    and "p6_hop_limit ip = 255" and "unspecified6 (p6_source ip) \<longrightarrow> link = None"
  shows "neighbor_discovery ip \<lparr>ic_type = nd_neighbor_solicitation, ic_code = 0, ic_rest = 0,
      ic_message = icmp_bytes i nd_neighbor_solicitation 0 0 (t @ link_option 1 link), ic_body = b\<rparr>
    = (if unspecified6 (p6_source ip) \<and> p6_destination ip \<noteq> solicited_node t then Inl S_invalid_argument
       else Inr (nd_message_new\<lparr>nd_kind_of := ND_neighbor_solicitation, nd_target := t, nd_source_link := link\<rparr>))"
proof -
  let ?m = "\<lparr>ic_type = nd_neighbor_solicitation, ic_code = 0, ic_rest = 0,
      ic_message = icmp_bytes i nd_neighbor_solicitation 0 0 (t @ link_option 1 link), ic_body = b\<rparr>"
  have "nd_fixed ip ?m = Inr (24, nd_message_new\<lparr>nd_target := t, nd_kind_of := ND_neighbor_solicitation\<rparr>)"
    using assms(1,3) by (simp add: nd_fixed_def Let_def nd_layout nd_types)
  then show ?thesis
    using assms(4,5) nd_options_link [OF assms(2)]
    by (cases link) (auto simp: neighbor_discovery_def nd_layout [OF assms(1)] nd_types nd_message_new_def)
qed

definition advertisement_flags :: "bool \<Rightarrow> bool \<Rightarrow> bool \<Rightarrow> u32" where
  "advertisement_flags router solicited override_flag =
     (if router then 0x80000000 else 0) OR (if solicited then 0x40000000 else 0) OR (if override_flag then 0x20000000 else 0)"

lemma advertisement_received:
  assumes "length t = 16" and "\<forall>l. link = Some l \<longrightarrow> length l = 6" and "\<not> multicast6 t"
    and "p6_hop_limit ip = 255" and "\<not> unspecified6 (p6_source ip)" and "\<not> (solicited \<and> multicast6 (p6_destination ip))"
    and "flags = advertisement_flags router solicited override_flag"
  shows "neighbor_discovery ip \<lparr>ic_type = nd_neighbor_advertisement, ic_code = 0, ic_rest = flags,
      ic_message = icmp_bytes i nd_neighbor_advertisement 0 flags (t @ link_option 2 link), ic_body = b\<rparr>
    = Inr (nd_message_new\<lparr>nd_kind_of := ND_neighbor_advertisement, nd_target := t, nd_router := router,
        nd_solicited := solicited, nd_override := override_flag, nd_target_link := link\<rparr>)"
proof -
  let ?m = "\<lparr>ic_type = nd_neighbor_advertisement, ic_code = 0, ic_rest = flags,
      ic_message = icmp_bytes i nd_neighbor_advertisement 0 flags (t @ link_option 2 link), ic_body = b\<rparr>"
  let ?f = "ucast (drop_bit 8 (ucast (drop_bit 16 flags) :: u16)) :: u8"
  have f: "?f AND 0x80 \<noteq> 0 \<longleftrightarrow> router" "?f AND 0x40 \<noteq> 0 \<longleftrightarrow> solicited" "?f AND 0x20 \<noteq> 0 \<longleftrightarrow> override_flag"
    unfolding assms(7) advertisement_flags_def by (cases router; cases solicited; cases override_flag; simp)+
  have "nd_fixed ip ?m = Inr (24, nd_message_new\<lparr>nd_target := t, nd_kind_of := ND_neighbor_advertisement,
      nd_router := router, nd_solicited := solicited, nd_override := override_flag\<rparr>)"
    using assms(1,3,6) f by (simp add: nd_fixed_def Let_def nd_layout nd_types)
  then show ?thesis
    using assms(4,5) nd_options_link [OF assms(2)]
    by (cases link) (auto simp: neighbor_discovery_def nd_layout [OF assms(1)] nd_types nd_message_new_def)
qed

section \<open>Property\<close>

text \<open>
  C20: neighbour discovery talks to itself. A neighbour solicitation or advertisement that this
  host builds, followed by any padding, is parsed by the IPv6, ICMP and neighbour discovery parsers
  as the same kind of message, with the target, the flags and the link-layer address given, and
  nothing else set. Two things the builders accept are refused on the way back: a multicast source
  by the IPv6 parser, and, by the neighbour discovery parser, a solicitation from the unspecified
  address, which probes for a duplicate address, to any destination but the solicited-node group
  of the target.
\<close>

theorem neighbour_messages_roundtrip:
  assumes "length source = 16" and "length destination = 16" and "length t = 16"
    and "\<forall>l. link = Some l \<longrightarrow> length l = 6"
  shows "(build_neighbor_solicitation out out_at body_at source destination t link = (Inr n, out') \<longrightarrow>
      (if multicast6 source then ipv6 (take n out' @ padding) = Inl S_invalid_argument
       else \<exists>ip m. ipv6 (take n out' @ padding) = Inr ip \<and> icmp_of ipv6_family ip = Inr m \<and>
         neighbor_discovery ip m
           = (if unspecified6 source \<and> destination \<noteq> solicited_node t then Inl S_invalid_argument
              else Inr (nd_message_new\<lparr>nd_kind_of := ND_neighbor_solicitation, nd_target := t, nd_source_link := link\<rparr>)))) \<and>
    (build_neighbor_advertisement out out_at body_at source destination t router solicited override_flag link = (Inr n, out') \<longrightarrow>
      (if multicast6 source then ipv6 (take n out' @ padding) = Inl S_invalid_argument
       else \<exists>ip m. ipv6 (take n out' @ padding) = Inr ip \<and> icmp_of ipv6_family ip = Inr m \<and>
         neighbor_discovery ip m
           = Inr (nd_message_new\<lparr>nd_kind_of := ND_neighbor_advertisement, nd_target := t, nd_router := router,
               nd_solicited := solicited, nd_override := override_flag, nd_target_link := link\<rparr>)))"
  (is "(_ \<longrightarrow> ?S) \<and> (_ \<longrightarrow> ?A)")
proof (intro conjI impI)
  assume b: "build_neighbor_solicitation out out_at body_at source destination t link = (Inr n, out')"
  from b have t: "\<not> multicast6 t" "unspecified6 source \<longrightarrow> link = None"
    and build: "nd_build out out_at body_at source destination nd_neighbor_solicitation 0 (Some t) 1 link = (Inr n, out')"
    by (auto simp: build_neighbor_solicitation_def split: if_splits)
  show ?S
  proof (cases rule: nd_build_received [OF assms build, of padding])
    case (2 ip i)
    have "unspecified6 (p6_source ip) \<longrightarrow> link = None" using 2(3) t(2) by simp
    note rcv = solicitation_received [OF assms(3,4) t(1) 2(5) this, where i = i and b = "t @ link_option 1 link"]
    show ?thesis using 2(1,2,6) rcv unfolding 2(3,4) by auto
  qed simp
next
  let ?f = "advertisement_flags router solicited override_flag"
  assume b: "build_neighbor_advertisement out out_at body_at source destination t router solicited override_flag link = (Inr n, out')"
  from b have t: "\<not> multicast6 t" "\<not> unspecified6 source" "\<not> (solicited \<and> multicast6 destination)"
    by (auto simp: build_neighbor_advertisement_def split: if_splits)
  have build: "nd_build out out_at body_at source destination nd_neighbor_advertisement ?f (Some t) 2 link = (Inr n, out')"
    using b unfolding build_neighbor_advertisement_def Let_def advertisement_flags_def [symmetric]
    by (simp only: t if_False simp_thms)
  show ?A
  proof (cases rule: nd_build_received [OF assms build, of padding])
    case (2 ip i)
    have "\<not> unspecified6 (p6_source ip)" "\<not> (solicited \<and> multicast6 (p6_destination ip))" using 2(3,4) t by simp_all
    note rcv = advertisement_received [OF assms(3,4) t(1) 2(5) this refl, where i = i and b = "t @ link_option 2 link"]
    show ?thesis using 2(1,2,6) rcv by auto
  qed simp
qed

theorem neighbour_messages_roundtrip_witness:
  "\<exists>n out' ip m. build_neighbor_solicitation (replicate 90 7) 0x1000 0x9000 (link_local_from_mac [2, 0, 0, 0, 0, 1])
       (solicited_node (link_local_from_mac [2, 0, 0, 0, 0, 2])) (link_local_from_mac [2, 0, 0, 0, 0, 2])
       (Some [2, 0, 0, 0, 0, 1]) = (Inr n, out') \<and>
     ipv6 (take n out' @ [0]) = Inr ip \<and> icmp_of ipv6_family ip = Inr m \<and>
     neighbor_discovery ip m = Inr (nd_message_new\<lparr>nd_kind_of := ND_neighbor_solicitation,
       nd_target := link_local_from_mac [2, 0, 0, 0, 0, 2], nd_source_link := Some [2, 0, 0, 0, 0, 1]\<rparr>)"
proof -
  let ?s = "link_local_from_mac [2, 0, 0, 0, 0, 1]" let ?t = "link_local_from_mac [2, 0, 0, 0, 0, 2]"
  let ?b = "build_neighbor_solicitation (replicate 90 7) 0x1000 0x9000 ?s (solicited_node ?t) ?t (Some [2, 0, 0, 0, 0, 1])"
  have l: "length ?s = 16" "length (solicited_node ?t) = 16" "length ?t = 16" by code_simp+
  have u: "\<not> unspecified6 ?s" "\<not> multicast6 ?t" "\<not> multicast6 ?s" by code_simp+
  have "length (nd_body (Some ?t) 1 (Some [2, 0, 0, 0, 0, 1])) = 24"
    using nd_body_eq [OF l(3), of "Some [2, 0, 0, 0, 0, 1]" 1] l(3) by (simp add: link_option_def)
  then have "fst ?b = Inr 72"
    using u by (simp add: build_neighbor_solicitation_def nd_build_def build_icmp_def Let_def ipv6_family_def overlaps_def)
  then obtain out' where b: "?b = (Inr 72, out')" by (cases ?b) simp
  from neighbour_messages_roundtrip [OF l, where padding = "[0]", THEN conjunct1, THEN mp, OF _ b]
  show ?thesis using b u by auto
qed

end
