(* ===== verification/OK_Route.thy ===== *)
theory OK_Route
  imports OK_Ip
begin

text \<open>
  The routing table of \<^verbatim>\<open>net/route.hpp\<close> and the congestion policy of \<^verbatim>\<open>net/tcp_congestion.hpp\<close>.
  The template parameter \<open>Address\<close> is a record of the width and of the two overloaded predicates
  the table calls; the capacity is the number of slots.
\<close>

section \<open>Routes\<close>

datatype route_origin = R_connected | R_configured | R_router_advertisement

record route =
  rt_prefix :: "u8 list"
  rt_length :: u8
  rt_gateway :: "u8 list option"
  rt_interface :: u16
  rt_metric :: u32
  rt_origin :: route_origin
  rt_expires :: u64

record route_found =
  rl_interface :: u16
  rl_next_hop :: "u8 list"
  rl_gateway :: bool
  rl_length :: u8
  rl_metric :: u32

definition mask_prefix :: "u8 list \<Rightarrow> u8 \<Rightarrow> u8 list" where
  "mask_prefix a len =
     map (\<lambda>i. let bit = i * 8 in
            if bit \<ge> unat len then 0
            else if unat len - bit < 8 then a ! i AND push_bit (8 - (unat len - bit)) 0xff
            else a ! i) [0..<length a]"

record address_kind =
  ak_width :: nat
  ak_multicast :: "u8 list \<Rightarrow> bool"
  ak_unspecified :: "u8 list \<Rightarrow> bool"

definition ipv4_kind :: address_kind where
  "ipv4_kind = \<lparr>ak_width = 32, ak_multicast = multicast4, ak_unspecified = unspecified4\<rparr>"

definition ipv6_kind :: address_kind where
  "ipv6_kind = \<lparr>ak_width = 128, ak_multicast = multicast6, ak_unspecified = unspecified6\<rparr>"

record route_slot =
  rs_used :: bool
  rs_order :: u64
  rs_route :: route

record route_table =
  rtb_slots :: "route_slot list"
  rtb_order :: u64

definition route_default :: "address_kind \<Rightarrow> route" where
  "route_default K = \<lparr>rt_prefix = replicate (ak_width K div 8) 0, rt_length = 0, rt_gateway = None, rt_interface = 0,
     rt_metric = 0, rt_origin = R_configured, rt_expires = -1\<rparr>"

definition slot_default :: "address_kind \<Rightarrow> route_slot" where
  "slot_default K = \<lparr>rs_used = False, rs_order = 0, rs_route = route_default K\<rparr>"

definition route_table_new :: "address_kind \<Rightarrow> nat \<Rightarrow> route_table" where
  "route_table_new K capacity = \<lparr>rtb_slots = replicate capacity (slot_default K), rtb_order = 0\<rparr>"

definition route_size :: "route_table \<Rightarrow> nat" where
  "route_size t = count_if rs_used (rtb_slots t)"

text \<open>The routes \<open>each\<close> visits, in order.\<close>

definition route_each :: "route_table \<Rightarrow> route list" where
  "route_each t = map rs_route (filter rs_used (rtb_slots t))"

definition route_exact :: "route_table \<Rightarrow> u8 list \<Rightarrow> u8 \<Rightarrow> u8 list option \<Rightarrow> u16 \<Rightarrow> nat option" where
  "route_exact t prefix len gateway interface =
     first_index (\<lambda>s. rs_used s \<and> rt_length (rs_route s) = len \<and> rt_prefix (rs_route s) = prefix \<and>
        rt_gateway (rs_route s) = gateway \<and> rt_interface (rs_route s) = interface) (rtb_slots t)"

definition route_add :: "address_kind \<Rightarrow> route_table \<Rightarrow> route \<Rightarrow> status_code \<times> route_table" where
  "route_add K t r =
     (if unat (rt_length r) > ak_width K then (S_invalid_argument, t)
      else if (case rt_gateway r of None \<Rightarrow> False | Some g \<Rightarrow> ak_multicast K g \<or> ak_unspecified K g)
        then (S_invalid_argument, t)
      else let r' = r\<lparr>rt_prefix := mask_prefix (rt_prefix r) (rt_length r)\<rparr> in
        case route_exact t (rt_prefix r') (rt_length r') (rt_gateway r') (rt_interface r') of
          Some i \<Rightarrow> (S_ok, t\<lparr>rtb_slots := (rtb_slots t)[i := (rtb_slots t ! i)\<lparr>rs_route := r'\<rparr>]\<rparr>)
        | None \<Rightarrow>
            (case first_index (\<lambda>s. \<not> rs_used s) (rtb_slots t) of
               Some i \<Rightarrow>
                 let order = rtb_order t + 1 in
                 (S_ok, t\<lparr>rtb_slots := (rtb_slots t)[i := \<lparr>rs_used = True, rs_order = order, rs_route = r'\<rparr>],
                          rtb_order := order\<rparr>)
             | None \<Rightarrow> (S_no_memory, t)))"

definition route_remove :: "address_kind \<Rightarrow> route_table \<Rightarrow> u8 list \<Rightarrow> u8 \<Rightarrow> u8 list option \<Rightarrow> u16
    \<Rightarrow> status_code \<times> route_table" where
  "route_remove K t prefix len gateway interface =
     (case route_exact t (mask_prefix prefix len) len gateway interface of
        None \<Rightarrow> (S_not_found, t)
      | Some i \<Rightarrow> (S_ok, t\<lparr>rtb_slots := (rtb_slots t)[i := slot_default K]\<rparr>))"

definition route_remove_if :: "address_kind \<Rightarrow> (route \<Rightarrow> bool) \<Rightarrow> route_table \<Rightarrow> nat \<times> route_table" where
  "route_remove_if K matches t =
     (count_if (\<lambda>s. rs_used s \<and> matches (rs_route s)) (rtb_slots t),
      t\<lparr>rtb_slots := map (\<lambda>s. if rs_used s \<and> matches (rs_route s) then slot_default K else s) (rtb_slots t)\<rparr>)"

definition route_expire :: "address_kind \<Rightarrow> route_table \<Rightarrow> u64 \<Rightarrow> nat \<times> route_table" where
  "route_expire K t now = route_remove_if K (\<lambda>r. now \<ge> rt_expires r) t"

definition route_next_expiry :: "route_table \<Rightarrow> u64 option" where
  "route_next_expiry t =
     fold (\<lambda>s found. if rs_used s \<and> rt_expires (rs_route s) \<noteq> -1 \<and>
              (case found of None \<Rightarrow> True | Some e \<Rightarrow> rt_expires (rs_route s) < e)
            then Some (rt_expires (rs_route s)) else found) (rtb_slots t) None"

definition route_usable :: "u8 list \<Rightarrow> u64 \<Rightarrow> route_slot \<Rightarrow> bool" where
  "route_usable destination now s \<longleftrightarrow>
     \<not> (\<not> rs_used s \<or> now \<ge> rt_expires (rs_route s) \<or>
        \<not> prefix_match (rt_prefix (rs_route s)) destination (unat (rt_length (rs_route s))))"

definition route_better :: "route_slot \<Rightarrow> route_slot \<Rightarrow> bool" where
  "route_better s b \<longleftrightarrow>
     rt_length (rs_route s) > rt_length (rs_route b) \<or>
     (rt_length (rs_route s) = rt_length (rs_route b) \<and>
        (rt_metric (rs_route s) < rt_metric (rs_route b) \<or>
         (rt_metric (rs_route s) = rt_metric (rs_route b) \<and> rs_order s < rs_order b)))"

definition route_best :: "route_slot list \<Rightarrow> u8 list \<Rightarrow> u64 \<Rightarrow> route_slot option" where
  "route_best slots destination now =
     fold (\<lambda>s best. if \<not> route_usable destination now s then best
            else case best of None \<Rightarrow> Some s | Some b \<Rightarrow> if route_better s b then Some s else best) slots None"

definition route_lookup :: "route_table \<Rightarrow> u8 list \<Rightarrow> u64 \<Rightarrow> route_found result" where
  "route_lookup t destination now =
     (case route_best (rtb_slots t) destination now of
        None \<Rightarrow> Inl S_not_found
      | Some b \<Rightarrow> let r = rs_route b in
          Inr \<lparr>rl_interface = rt_interface r,
               rl_next_hop = (case rt_gateway r of Some g \<Rightarrow> g | None \<Rightarrow> destination),
               rl_gateway = (rt_gateway r \<noteq> None), rl_length = rt_length r, rl_metric = rt_metric r\<rparr>)"

section \<open>Congestion control\<close>

record new_reno =
  cwnd :: u32
  ssthresh :: u32

definition reno_new :: new_reno where
  "reno_new = \<lparr>cwnd = 0, ssthresh = -1\<rparr>"

definition reno_half :: "u32 \<Rightarrow> u32 \<Rightarrow> u32" where
  "reno_half flight mss = (if flight div 2 > 2 * mss then flight div 2 else 2 * mss)"

definition reno_grow :: "new_reno \<Rightarrow> u32 \<Rightarrow> new_reno" where
  "reno_grow p bytes = p\<lparr>cwnd := (if cwnd p > -1 - bytes then -1 else cwnd p + bytes)\<rparr>"

definition reno_start :: "new_reno \<Rightarrow> u32 \<Rightarrow> new_reno" where
  "reno_start p mss =
     (let limit = (if 4380 > 2 * mss then 4380 else 2 * mss)
      in p\<lparr>cwnd := (if 4 * mss < limit then 4 * mss else limit), ssthresh := -1\<rparr>)"

definition reno_acknowledged :: "new_reno \<Rightarrow> u32 \<Rightarrow> u32 \<Rightarrow> new_reno" where
  "reno_acknowledged p bytes mss =
     (if cwnd p < ssthresh p then reno_grow p (if bytes < mss then bytes else mss)
      else let step = ucast ((ucast mss * ucast mss :: u64) div ucast (cwnd p)) :: u32
           in reno_grow p (if step \<noteq> 0 then step else 1))"

definition reno_enter_recovery :: "new_reno \<Rightarrow> u32 \<Rightarrow> u32 \<Rightarrow> new_reno" where
  "reno_enter_recovery p flight mss =
     (let h = reno_half flight mss in reno_grow (p\<lparr>ssthresh := h, cwnd := h\<rparr>) (3 * mss))"

definition reno_duplicate :: "new_reno \<Rightarrow> u32 \<Rightarrow> new_reno" where
  "reno_duplicate p mss = reno_grow p mss"

definition reno_partial :: "new_reno \<Rightarrow> u32 \<Rightarrow> u32 \<Rightarrow> new_reno" where
  "reno_partial p bytes mss =
     reno_grow (p\<lparr>cwnd := (if cwnd p > bytes then cwnd p - bytes else 0)\<rparr>) mss"

definition reno_exit_recovery :: "new_reno \<Rightarrow> u32 \<Rightarrow> u32 \<Rightarrow> new_reno" where
  "reno_exit_recovery p flight mss =
     (let pipe = (if flight > mss then flight else mss) + mss
      in p\<lparr>cwnd := (if ssthresh p < pipe then ssthresh p else pipe)\<rparr>)"

definition reno_timeout :: "new_reno \<Rightarrow> u32 \<Rightarrow> u32 \<Rightarrow> new_reno" where
  "reno_timeout p flight mss = p\<lparr>ssthresh := reno_half flight mss, cwnd := mss\<rparr>"

text \<open>The calls a connection with a fixed segment size makes on its policy.\<close>

datatype reno_event =
    Ev_start
  | Ev_acknowledged u32
  | Ev_enter_recovery u32
  | Ev_duplicate
  | Ev_partial u32
  | Ev_exit_recovery u32
  | Ev_timeout u32

fun reno_exec :: "u32 \<Rightarrow> reno_event \<Rightarrow> new_reno \<Rightarrow> new_reno" where
  "reno_exec mss Ev_start p = reno_start p mss"
| "reno_exec mss (Ev_acknowledged bytes) p = reno_acknowledged p bytes mss"
| "reno_exec mss (Ev_enter_recovery flight) p = reno_enter_recovery p flight mss"
| "reno_exec mss Ev_duplicate p = reno_duplicate p mss"
| "reno_exec mss (Ev_partial bytes) p = reno_partial p bytes mss"
| "reno_exec mss (Ev_exit_recovery flight) p = reno_exit_recovery p flight mss"
| "reno_exec mss (Ev_timeout flight) p = reno_timeout p flight mss"

definition reno_run :: "u32 \<Rightarrow> reno_event list \<Rightarrow> new_reno" where
  "reno_run mss es = fold (reno_exec mss) es (reno_start reno_new mss)"

text \<open>The sum in \<open>exit_recovery()\<close> is not checked; this is when it does not wrap.\<close>

fun pipe_fits :: "u32 \<Rightarrow> reno_event \<Rightarrow> bool" where
  "pipe_fits mss (Ev_exit_recovery flight) = (flight \<le> - 1 - mss)"
| "pipe_fits mss _ = True"

end
