(* ===== verification/OK_Route_Proofs.thy ===== *)
theory OK_Route_Proofs
  imports OK_Route
begin

text \<open>
  The routing table and the congestion policy, proved. An address is the list of its bits, most
  significant first; \<open>prefix_match\<close> compares the first bits and \<open>mask_prefix\<close> clears the others.
  On top of it: what a lookup returns, that every operation keeps the table well formed, and that
  an added route is found. For the policy: the windows stay within their bounds.
\<close>

section \<open>Prefixes as bits\<close>

definition addr_bit :: "u8 list \<Rightarrow> nat \<Rightarrow> bool" where
  "addr_bit a i = bit (a ! (i div 8)) (7 - i mod 8)"

definition addr_bits :: "u8 list \<Rightarrow> bool list" where
  "addr_bits a = map (addr_bit a) [0..<8 * length a]"

lemma take_addr_bits:
  "n \<le> 8 * length a \<Longrightarrow> length a = length b \<Longrightarrow>
   take n (addr_bits a) = take n (addr_bits b) \<longleftrightarrow> (\<forall>i<n. addr_bit a i = addr_bit b i)"
  by (auto simp: addr_bits_def take_map)

lemma byte_eq_bits: "(x :: u8) = y \<longleftrightarrow> (\<forall>j<8. bit x (7 - j) = bit y (7 - j))"
proof
  assume r: "\<forall>j<8. bit x (7 - j) = bit y (7 - j)"
  show "x = y"
  proof (rule bit_word_eqI)
    fix n assume "n < LENGTH(8)"
    then have "7 - n < 8" and "7 - (7 - n) = n" by auto
    then show "bit x n = bit y n" using r [rule_format, of "7 - n"] by simp
  qed
qed simp

lemma masked_eq_bits:
  assumes "k < 8"
  shows "(x :: u8) AND push_bit (8 - k) 0xff = y AND push_bit (8 - k) 0xff \<longleftrightarrow> (\<forall>j<k. bit x (7 - j) = bit y (7 - j))"
proof -
  have "(0xff :: u8) = - 1" by simp
  then have m: "bit (push_bit (8 - k) 0xff :: u8) n \<longleftrightarrow> 8 - k \<le> n \<and> n < 8" for n
    by (simp only: bit_push_bit_iff) (auto simp: bit_push_bit_iff)
  have "8 - k \<le> 7 - j \<and> 7 - j < 8 \<longleftrightarrow> j < k" if "j < 8" for j using that assms by auto
  then show ?thesis
    unfolding byte_eq_bits [of "x AND push_bit (8 - k) 0xff"] bit_and_iff m using assms by (simp cong: conj_cong) (meson less_trans)
qed

lemma below_split:
  fixes n :: nat
  shows "(\<forall>i<n. P (i div 8) (i mod 8)) \<longleftrightarrow>
    (\<forall>i<n div 8. \<forall>j<8. P i j) \<and> (\<forall>j<n mod 8. P (n div 8) j)"
proof (intro iffI conjI allI impI)
  fix i j assume r: "\<forall>i<n. P (i div 8) (i mod 8)" and "i < n div 8" and "j < (8 :: nat)"
  then have "8 * i + j < n" by linarith
  moreover have "(8 * i + j) div 8 = i" and "(8 * i + j) mod 8 = j" using \<open>j < 8\<close> by simp_all
  ultimately show "P i j" using r [rule_format, of "8 * i + j"] by simp
next
  fix j assume r: "\<forall>i<n. P (i div 8) (i mod 8)" and "j < n mod 8"
  moreover have "n = 8 * (n div 8) + n mod 8" and "n mod 8 < 8" by simp_all
  ultimately have "8 * (n div 8) + j < n" and "j < 8" by linarith+
  moreover have "(8 * (n div 8) + j) div 8 = n div 8" and "(8 * (n div 8) + j) mod 8 = j"
    using \<open>j < 8\<close> by simp_all
  ultimately show "P (n div 8) j" using r [rule_format, of "8 * (n div 8) + j"] by simp
next
  fix i assume r: "(\<forall>i<n div 8. \<forall>j<8. P i j) \<and> (\<forall>j<n mod 8. P (n div 8) j)" and "i < n"
  have "i div 8 \<le> n div 8" using \<open>i < n\<close> by (simp add: div_le_mono)
  moreover have "i = 8 * (i div 8) + i mod 8" and "n = 8 * (n div 8) + n mod 8" by simp_all
  ultimately consider "i div 8 < n div 8" | "i div 8 = n div 8" "i mod 8 < n mod 8"
    using \<open>i < n\<close> by linarith
  then show "P (i div 8) (i mod 8)"
    by cases (use r in \<open>simp_all\<close>)
qed

lemma prefix_match_bits:
  assumes "length a = length b" and "n \<le> 8 * length a"
  shows "prefix_match a b n \<longleftrightarrow> take n (addr_bits a) = take n (addr_bits b)"
proof -
  have "prefix_match a b n \<longleftrightarrow> (\<forall>i<n div 8. \<forall>j<8. bit (a ! i) (7 - j) = bit (b ! i) (7 - j))
      \<and> (\<forall>j<n mod 8. bit (a ! (n div 8)) (7 - j) = bit (b ! (n div 8)) (7 - j))"
    unfolding prefix_match_def Let_def byte_eq_bits [symmetric]
    using masked_eq_bits [of "n mod 8"] by (cases "n mod 8 = 0") simp_all
  also have "\<dots> \<longleftrightarrow> (\<forall>i<n. addr_bit a i = addr_bit b i)"
    unfolding addr_bit_def by (rule below_split [symmetric])
  finally show ?thesis using take_addr_bits [OF assms(2,1)] by simp
qed

lemma length_mask_prefix [simp]: "length (mask_prefix a len) = length a"
  by (simp add: mask_prefix_def)

lemma mask_prefix_nth:
  "i < length a \<Longrightarrow> mask_prefix a len ! i = (if i * 8 \<ge> unat len then 0
     else if unat len - i * 8 < 8 then a ! i AND push_bit (8 - (unat len - i * 8)) 0xff else a ! i)"
  by (simp add: mask_prefix_def Let_def)

lemma mask_prefix_bit:
  assumes "i < 8 * length a"
  shows "addr_bit (mask_prefix a len) i \<longleftrightarrow> i < unat len \<and> addr_bit a i"
proof -
  define q r where "q = i div 8" and "r = i mod 8"
  have i: "i = 8 * q + r" and r: "r < 8" by (simp_all add: q_def r_def)
  have q: "q < length a" using assms i by linarith
  have "(0xff :: u8) = - 1" by simp
  then have m: "bit (push_bit k 0xff :: u8) j \<longleftrightarrow> k \<le> j \<and> j < 8" for k j
    by (simp only: bit_push_bit_iff) (auto simp: bit_push_bit_iff)
  have "addr_bit (mask_prefix a len) i = bit (mask_prefix a len ! q) (7 - r)"
    by (simp add: addr_bit_def q_def r_def)
  also have "\<dots> \<longleftrightarrow> i < unat len \<and> bit (a ! q) (7 - r)"
    unfolding mask_prefix_nth [OF q] using i r by (auto simp: bit_and_iff m)
  finally show ?thesis by (simp add: addr_bit_def q_def r_def)
qed

lemma prefix_match_mask:
  assumes "length a = length b" and "unat len \<le> 8 * length a"
  shows "prefix_match (mask_prefix a len) b (unat len) \<longleftrightarrow> take (unat len) (addr_bits a) = take (unat len) (addr_bits b)"
proof -
  have "(\<forall>i<unat len. addr_bit (mask_prefix a len) i = addr_bit b i) \<longleftrightarrow> (\<forall>i<unat len. addr_bit a i = addr_bit b i)"
    using mask_prefix_bit [OF less_le_trans [OF _ assms(2)], of _ len] by simp
  then show ?thesis
    using assms prefix_match_bits [of "mask_prefix a len" b "unat len"] by (simp add: take_addr_bits)
qed

lemma mask_prefix_idem [simp]: "mask_prefix (mask_prefix a len) len = mask_prefix a len"
proof (rule nth_equalityI)
  fix i assume "i < length (mask_prefix (mask_prefix a len) len)"
  then have i: "i < length a" by simp
  show "mask_prefix (mask_prefix a len) len ! i = mask_prefix a len ! i"
    unfolding mask_prefix_nth [OF i] by (simp only: mask_prefix_nth length_mask_prefix i if_cancel and.assoc and.idem split: if_split) simp
qed simp

section \<open>Well-formed tables\<close>

definition route_ok :: "address_kind \<Rightarrow> route \<Rightarrow> bool" where
  "route_ok K r \<longleftrightarrow> length (rt_prefix r) = ak_width K div 8 \<and> unat (rt_length r) \<le> ak_width K \<and>
     mask_prefix (rt_prefix r) (rt_length r) = rt_prefix r \<and>
     (\<forall>g. rt_gateway r = Some g \<longrightarrow> \<not> ak_multicast K g \<and> \<not> ak_unspecified K g)"

definition route_key :: "route \<Rightarrow> u8 list \<times> u8 \<times> u8 list option \<times> u16" where
  "route_key r = (rt_prefix r, rt_length r, rt_gateway r, rt_interface r)"

text \<open>Every route in use is canonical, and no two of them share prefix, gateway and interface.\<close>

definition table_ok :: "address_kind \<Rightarrow> route_table \<Rightarrow> bool" where
  "table_ok K t \<longleftrightarrow> (\<forall>s \<in> set (rtb_slots t). rs_used s \<longrightarrow> route_ok K (rs_route s)) \<and>
     (\<forall>i < length (rtb_slots t). \<forall>j < length (rtb_slots t).
        rs_used (rtb_slots t ! i) \<longrightarrow> rs_used (rtb_slots t ! j) \<longrightarrow>
        route_key (rs_route (rtb_slots t ! i)) = route_key (rs_route (rtb_slots t ! j)) \<longrightarrow> i = j)"

lemma table_ok_new: "table_ok K (route_table_new K n)"
  by (simp add: table_ok_def route_table_new_def slot_default_def)

text \<open>Clearing slots keeps a table well formed.\<close>

lemma table_ok_clear:
  assumes "table_ok K t" and "length xs = length (rtb_slots t)"
    and "\<And>i. i < length xs \<Longrightarrow> rs_used (xs ! i) \<Longrightarrow> xs ! i = rtb_slots t ! i"
  shows "table_ok K (t\<lparr>rtb_slots := xs\<rparr>)"
proof -
  have "rs_used s \<longrightarrow> route_ok K (rs_route s)" if "s \<in> set xs" for s
    using that assms unfolding table_ok_def in_set_conv_nth by (metis nth_mem)
  moreover have "i = j" if "i < length xs" "j < length xs" "rs_used (xs ! i)" "rs_used (xs ! j)"
    "route_key (rs_route (xs ! i)) = route_key (rs_route (xs ! j))" for i j
    using that assms(1) unfolding table_ok_def by (metis assms(2,3))
  ultimately show ?thesis by (simp add: table_ok_def)
qed

lemma slot_default_unused [simp]: "\<not> rs_used (slot_default K)"
  by (simp add: slot_default_def)

lemma table_ok_put:
  assumes "table_ok K t" and "i < length (rtb_slots t)" and "route_ok K (rs_route s)"
    and "\<And>j. j < length (rtb_slots t) \<Longrightarrow> j \<noteq> i \<Longrightarrow> rs_used (rtb_slots t ! j) \<Longrightarrow>
      route_key (rs_route (rtb_slots t ! j)) \<noteq> route_key (rs_route s)"
  shows "table_ok K (t\<lparr>rtb_slots := (rtb_slots t)[i := s]\<rparr>)"
proof -
  have "rs_used x \<longrightarrow> route_ok K (rs_route x)" if "x \<in> set ((rtb_slots t)[i := s])" for x
    using set_update_subset_insert [THEN subsetD, OF that] assms(1,3) by (auto simp: table_ok_def)
  moreover have "j = k" if "j < length (rtb_slots t)" "k < length (rtb_slots t)"
    "rs_used ((rtb_slots t)[i := s] ! j)" "rs_used ((rtb_slots t)[i := s] ! k)"
    "route_key (rs_route ((rtb_slots t)[i := s] ! j)) = route_key (rs_route ((rtb_slots t)[i := s] ! k))" for j k
  proof (cases "j = i \<or> k = i")
    case True
    then show ?thesis using that assms(2) assms(4) [of j] assms(4) [of k] by (auto simp: nth_list_update split: if_splits)
  next
    case False
    then show ?thesis using that assms(1) by (auto simp: table_ok_def)
  qed
  ultimately show ?thesis by (simp add: table_ok_def)
qed

lemma route_exact_key:
  "route_exact t (rt_prefix r) (rt_length r) (rt_gateway r) (rt_interface r)
   = first_index (\<lambda>s. rs_used s \<and> route_key (rs_route s) = route_key r) (rtb_slots t)"
  unfolding route_exact_def route_key_def by (rule arg_cong [where f = "\<lambda>P. first_index P _"]) auto

definition route_masked :: "route \<Rightarrow> route" where
  "route_masked r = r\<lparr>rt_prefix := mask_prefix (rt_prefix r) (rt_length r)\<rparr>"

text \<open>A successful \<open>add\<close>: some slot holds the masked route afterwards, and the others are as they were.\<close>

lemma route_add_ok:
  assumes "table_ok K t" and "length (rt_prefix r) = ak_width K div 8" and "route_add K t r = (S_ok, t')"
  obtains i s n where "i < length (rtb_slots t)" and "t' = t\<lparr>rtb_slots := (rtb_slots t)[i := s], rtb_order := n\<rparr>"
    and "rs_used s" and "rs_route s = route_masked r" and "table_ok K t'"
proof -
  let ?r = "route_masked r"
  let ?find = "first_index (\<lambda>s. rs_used s \<and> route_key (rs_route s) = route_key ?r) (rtb_slots t)"
  have r: "route_ok K ?r"
    using assms(2,3) by (auto simp: route_add_def route_ok_def route_masked_def split: if_splits option.splits)
  have add: "(case ?find of
          Some i \<Rightarrow> (S_ok, t\<lparr>rtb_slots := (rtb_slots t)[i := (rtb_slots t ! i)\<lparr>rs_route := ?r\<rparr>]\<rparr>)
        | None \<Rightarrow>
            (case first_index (\<lambda>s. \<not> rs_used s) (rtb_slots t) of
               Some i \<Rightarrow> (S_ok, t\<lparr>rtb_slots := (rtb_slots t)[i := \<lparr>rs_used = True, rs_order = rtb_order t + 1, rs_route = ?r\<rparr>],
                          rtb_order := rtb_order t + 1\<rparr>)
             | None \<Rightarrow> (S_no_memory, t))) = (S_ok, t')"
    using assms(3) unfolding route_add_def route_masked_def [symmetric] Let_def route_exact_key
    by (simp split: if_split_asm del: first_index_None)
  show thesis
  proof (cases ?find)
    case (Some i)
    note f = first_indexD [OF Some]
    have "table_ok K (t\<lparr>rtb_slots := (rtb_slots t)[i := (rtb_slots t ! i)\<lparr>rs_route := ?r\<rparr>]\<rparr>)"
      by (rule table_ok_put [OF assms(1) f(1)]) (use r f(1,2) assms(1) in \<open>auto simp: table_ok_def\<close>)
    then show thesis using that [where i = i and s = "(rtb_slots t ! i)\<lparr>rs_route := ?r\<rparr>" and n = "rtb_order t"] add Some f(1,2) by simp
  next
    case None
    then obtain i where i: "first_index (\<lambda>s. \<not> rs_used s) (rtb_slots t) = Some i"
      using add by (auto split: option.splits simp del: first_index_None)
    let ?s = "\<lparr>rs_used = True, rs_order = rtb_order t + 1, rs_route = ?r\<rparr>"
    have "table_ok K (t\<lparr>rtb_slots := (rtb_slots t)[i := ?s]\<rparr>)"
      by (rule table_ok_put [OF assms(1) first_indexD(1) [OF i]]) (use r None in \<open>auto dest: nth_mem\<close>)
    then have "table_ok K (t\<lparr>rtb_slots := (rtb_slots t)[i := ?s], rtb_order := rtb_order t + 1\<rparr>)"
      by (simp add: table_ok_def)
    then show thesis
      using that [where i = i and s = ?s and n = "rtb_order t + 1"] add None i first_indexD(1) [OF i] by (simp del: first_index_None)
  qed
qed

section \<open>Operations and lookups\<close>

datatype route_op =
    RO_add route
  | RO_remove "u8 list" u8 "u8 list option" u16
  | RO_remove_if "route \<Rightarrow> bool"
  | RO_expire u64

fun route_exec :: "address_kind \<Rightarrow> route_op \<Rightarrow> route_table \<Rightarrow> route_table" where
  "route_exec K (RO_add r) t = snd (route_add K t r)"
| "route_exec K (RO_remove prefix len gateway interface) t = snd (route_remove K t prefix len gateway interface)"
| "route_exec K (RO_remove_if matches) t = snd (route_remove_if K matches t)"
| "route_exec K (RO_expire now) t = snd (route_expire K t now)"

text \<open>An address array has the size of its type.\<close>

definition op_sized :: "address_kind \<Rightarrow> route_op \<Rightarrow> bool" where
  "op_sized K x = (case x of RO_add r \<Rightarrow> length (rt_prefix r) = ak_width K div 8 | _ \<Rightarrow> True)"

lemma route_add_not_ok: "fst (route_add K t r) \<noteq> S_ok \<Longrightarrow> snd (route_add K t r) = t"
  by (auto simp: route_add_def Let_def split: option.splits)

lemma table_ok_remove_if: "table_ok K t \<Longrightarrow> table_ok K (snd (route_remove_if K matches t))"
  unfolding route_remove_if_def snd_conv by (rule table_ok_clear) (auto split: if_splits)

lemma route_exec_ok:
  assumes "table_ok K t" and "op_sized K x"
  shows "table_ok K (route_exec K x t) \<and> length (rtb_slots (route_exec K x t)) = length (rtb_slots t)"
proof (cases x)
  case (RO_add r)
  show ?thesis
  proof (cases "fst (route_add K t r) = S_ok")
    case True
    then have a: "route_add K t r = (S_ok, snd (route_add K t r))" by (simp add: prod_eq_iff)
    show ?thesis
      by (rule route_add_ok [OF assms(1) _ a]) (use assms(2) RO_add in \<open>auto simp: op_sized_def\<close>)
  next
    case False
    then show ?thesis using assms(1) RO_add by (simp add: route_add_not_ok)
  qed
next
  case (RO_remove prefix len gateway interface)
  have "table_ok K (t\<lparr>rtb_slots := (rtb_slots t)[i := slot_default K]\<rparr>)" for i
    by (rule table_ok_clear [OF assms(1)])
      (simp, metis length_list_update nth_list_update_eq nth_list_update_neq slot_default_unused)
  then show ?thesis using assms(1) RO_remove by (simp add: route_remove_def split: option.splits)
next
  case (RO_remove_if matches)
  then show ?thesis using table_ok_remove_if [OF assms(1)] by (simp add: route_remove_if_def)
next
  case (RO_expire now)
  then show ?thesis using table_ok_remove_if [OF assms(1)] by (simp add: route_expire_def route_remove_if_def)
qed

text \<open>The comparison of \<open>lookup\<close> is a strict weak order.\<close>

lemma route_better_irrefl: "\<not> route_better s s"
  by (simp add: route_better_def)

lemma route_better_trans: "route_better x y \<Longrightarrow> route_better y z \<Longrightarrow> route_better x z"
  unfolding route_better_def by (auto intro: less_trans)

lemma route_better_split:
  assumes "route_better x z" and "\<not> route_better x y"
  shows "route_better y z"
proof (cases "rt_length (rs_route x) = rt_length (rs_route y) \<and> rt_metric (rs_route x) = rt_metric (rs_route y)")
  case True
  then show ?thesis using assms unfolding route_better_def by auto
next
  case False
  then have "route_better y x" using assms(2) unfolding route_better_def by auto
  then show ?thesis using assms(1) by (rule route_better_trans)
qed

definition best_step :: "u8 list \<Rightarrow> u64 \<Rightarrow> route_slot \<Rightarrow> route_slot option \<Rightarrow> route_slot option" where
  "best_step d now s best = (if \<not> route_usable d now s then best
     else case best of None \<Rightarrow> Some s | Some b \<Rightarrow> if route_better s b then Some s else best)"

lemma best_fold:
  "case fold (best_step d now) slots best of
     None \<Rightarrow> best = None \<and> (\<forall>s \<in> set slots. \<not> route_usable d now s)
   | Some b \<Rightarrow> (best = Some b \<or> b \<in> set slots \<and> route_usable d now b) \<and>
       (\<forall>s \<in> set slots. route_usable d now s \<longrightarrow> \<not> route_better s b) \<and> (\<forall>s. best = Some s \<longrightarrow> \<not> route_better s b)"
proof (induction slots arbitrary: best)
  case Nil
  then show ?case by (simp add: route_better_irrefl split: option.split)
next
  case (Cons x slots)
  have "best_step d now x best = Some y \<Longrightarrow> best = Some y \<or> y = x \<and> route_usable d now x" for y
    by (auto simp: best_step_def split: if_splits option.splits)
  moreover have "\<not> route_better y b \<Longrightarrow> best_step d now x best = Some y \<Longrightarrow>
      (route_usable d now x \<longrightarrow> \<not> route_better x b) \<and> (\<forall>s. best = Some s \<longrightarrow> \<not> route_better s b)" for y b
    unfolding best_step_def
    by (auto split: if_splits option.splits dest: route_better_trans route_better_split)
  moreover have "best_step d now x best = None \<Longrightarrow> best = None \<and> \<not> route_usable d now x"
    by (auto simp: best_step_def split: if_splits option.splits)
  ultimately show ?case using Cons.IH [of "best_step d now x best"]
    by (cases "best_step d now x best") (auto split: option.splits)
qed

lemma route_best_spec:
  "case route_best slots d now of
     None \<Rightarrow> \<forall>s \<in> set slots. \<not> route_usable d now s
   | Some b \<Rightarrow> b \<in> set slots \<and> route_usable d now b \<and> (\<forall>s \<in> set slots. route_usable d now s \<longrightarrow> \<not> route_better s b)"
proof -
  have "route_best slots d now = fold (best_step d now) slots None"
    unfolding route_best_def best_step_def by simp
  then show ?thesis using best_fold [where d = d and now = now and slots = slots and best = None] by (simp split: option.splits)
qed

text \<open>
  The specification of a match: the route is in use, has not expired, and the first bits of the
  destination are the first bits of its prefix.
\<close>

definition route_covers :: "u8 list \<Rightarrow> u64 \<Rightarrow> route_slot \<Rightarrow> bool" where
  "route_covers d now s \<longleftrightarrow> rs_used s \<and> now < rt_expires (rs_route s) \<and>
     take (unat (rt_length (rs_route s))) (addr_bits d)
       = take (unat (rt_length (rs_route s))) (addr_bits (rt_prefix (rs_route s)))"

lemma route_usable_covers:
  assumes "table_ok K t" and "s \<in> set (rtb_slots t)" and "8 * (ak_width K div 8) = ak_width K"
    and "length d = ak_width K div 8"
  shows "route_usable d now s \<longleftrightarrow> route_covers d now s"
proof (cases "rs_used s")
  case True
  then have ok: "route_ok K (rs_route s)" using assms(1,2) by (simp add: table_ok_def)
  then have "prefix_match (rt_prefix (rs_route s)) d (unat (rt_length (rs_route s)))
      \<longleftrightarrow> take (unat (rt_length (rs_route s))) (addr_bits (rt_prefix (rs_route s)))
        = take (unat (rt_length (rs_route s))) (addr_bits d)"
    using assms(3,4) by (intro prefix_match_bits) (simp_all add: route_ok_def)
  then show ?thesis using True by (auto simp: route_usable_def route_covers_def not_le)
next
  case False
  then show ?thesis by (simp add: route_usable_def route_covers_def)
qed

definition found_of :: "u8 list \<Rightarrow> route \<Rightarrow> route_found" where
  "found_of d r = \<lparr>rl_interface = rt_interface r, rl_next_hop = (case rt_gateway r of Some g \<Rightarrow> g | None \<Rightarrow> d),
     rl_gateway = (rt_gateway r \<noteq> None), rl_length = rt_length r, rl_metric = rt_metric r\<rparr>"

lemma route_lookup_cases:
  assumes "table_ok K t" and "8 * (ak_width K div 8) = ak_width K" and "length d = ak_width K div 8"
  shows "case route_lookup t d now of
      Inl e \<Rightarrow> e = S_not_found \<and> (\<forall>s \<in> set (rtb_slots t). \<not> route_covers d now s)
    | Inr f \<Rightarrow> \<exists>s \<in> set (rtb_slots t). route_covers d now s \<and> f = found_of d (rs_route s) \<and>
        (\<forall>x \<in> set (rtb_slots t). route_covers d now x \<longrightarrow> \<not> route_better x s)"
  using route_best_spec [of "rtb_slots t" d now] route_usable_covers [OF assms(1) _ assms(2,3)]
  by (auto simp: route_lookup_def found_of_def Let_def split: option.splits)

section \<open>Windows\<close>

lemma unat_u32: "unat (x :: u32) < 4294967296"
  using unsigned_less [of x, where ?'a = nat] by simp

lemma unat_grow: "unat (cwnd (reno_grow p b)) = min 4294967295 (unat (cwnd p) + unat b)"
proof (cases "cwnd p > -1 - b")
  case True
  then have "unat b + unat (cwnd p) \<ge> 4294967296" by (simp add: headroom_exceeded_iff)
  then show ?thesis using True by (simp add: reno_grow_def unat_max)
next
  case False
  then have "unat (cwnd p) + unat b < 4294967296" by (simp add: headroom_exceeded_iff)
  then show ?thesis using False by (simp add: reno_grow_def unat_add_headroom)
qed

lemma grow_ssthresh [simp]: "ssthresh (reno_grow p b) = ssthresh p"
  by (simp add: reno_grow_def)

definition reno_ok :: "u32 \<Rightarrow> new_reno \<Rightarrow> bool" where
  "reno_ok mss p \<longleftrightarrow> 2 * unat mss \<le> unat (ssthresh p)"

lemma unat_small_mult:
  assumes "unat (m :: u32) \<le> 65535"
  shows "unat (2 * m) = 2 * unat m" and "unat (3 * m) = 3 * unat m" and "unat (4 * m) = 4 * unat m"
  using assms by (simp_all add: unat_word_ariths)

lemma half_ge: "unat m \<le> 65535 \<Longrightarrow> 2 * unat m \<le> unat (reno_half f m)"
  using unat_small_mult(1) [of m] by (auto simp: reno_half_def word_less_nat_alt)

text \<open>An acknowledgment never shrinks the window and adds at most one segment.\<close>

lemma acknowledged_bounds:
  assumes "reno_ok mss p" and "0 < unat mss" and "unat mss \<le> 65535"
  shows "unat (cwnd p) \<le> unat (cwnd (reno_acknowledged p bytes mss)) \<and>
    unat (cwnd (reno_acknowledged p bytes mss)) \<le> unat (cwnd p) + unat mss"
proof (cases "cwnd p < ssthresh p")
  case True
  then show ?thesis using unat_u32 [of "cwnd p"]
    by (auto simp: reno_acknowledged_def unat_grow word_less_nat_alt)
next
  case False
  let ?q = "(ucast mss * ucast mss :: u64) div ucast (cwnd p)"
  have m: "unat (ucast mss :: u64) = unat mss" "unat (ucast (cwnd p) :: u64) = unat (cwnd p)"
    using unat_u32 [of mss] unat_u32 [of "cwnd p"] by (simp_all add: unsigned_ucast_eq take_bit_eq_mod)
  have "unat mss * unat mss \<le> 65535 * 65535" by (rule mult_le_mono) (use assms(3) in simp_all)
  then have "unat (ucast mss * ucast mss :: u64) = unat mss * unat mss" by (simp add: unat_word_ariths m)
  then have q: "unat ?q = unat mss * unat mss div unat (cwnd p)" by (simp add: unat_div m)
  also have "\<dots> \<le> unat mss * unat mss div unat mss"
    by (rule div_le_mono2) (use assms False in \<open>simp_all add: reno_ok_def word_less_nat_alt\<close>)
  finally have le: "unat ?q \<le> unat mss" using assms(2) by simp
  then have "unat (ucast ?q :: u32) = unat ?q"
    using assms(3) by (simp add: unsigned_ucast_eq take_bit_eq_mod)
  then show ?thesis using False le assms(2) unat_u32 [of "cwnd p"]
    by (auto simp: reno_acknowledged_def Let_def unat_grow)
qed

lemma reno_start_ok:
  assumes "0 < unat mss" and "unat mss \<le> 65535"
  shows "reno_ok mss (reno_start p mss)" and "unat mss \<le> unat (cwnd (reno_start p mss))"
  using unat_small_mult [OF assms(2)] assms by (auto simp: reno_ok_def reno_start_def Let_def word_less_nat_alt unat_max)

lemma reno_exec_ok:
  assumes "reno_ok mss p" and m: "0 < unat mss" "unat mss \<le> 65535"
  shows "reno_ok mss (reno_exec mss e p)"
  using assms half_ge [OF m(2)] reno_start_ok(1) [OF m]
  by (cases e) (simp_all add: reno_ok_def reno_acknowledged_def reno_enter_recovery_def reno_duplicate_def
      reno_partial_def reno_exit_recovery_def reno_timeout_def Let_def)

lemma reno_exec_window:
  assumes ok: "reno_ok mss p" and m: "0 < unat mss" "unat mss \<le> 65535" and w: "unat mss \<le> unat (cwnd p)"
    and fits: "pipe_fits mss e"
  shows "unat mss \<le> unat (cwnd (reno_exec mss e p))"
proof (cases e)
  case (Ev_acknowledged bytes)
  then show ?thesis using acknowledged_bounds [OF ok m, of bytes] w by simp
next
  case (Ev_enter_recovery flight)
  then show ?thesis using half_ge [OF m(2), of flight] unat_u32 [of mss]
    by (simp add: reno_enter_recovery_def Let_def unat_grow)
next
  case (Ev_exit_recovery flight)
  have "unat mss + unat (if flight > mss then flight else mss) < 4294967296"
    using fits m(2) by (auto simp: headroom_iff Ev_exit_recovery)
  then have "unat ((if flight > mss then flight else mss) + mss) = unat (if flight > mss then flight else mss) + unat mss"
    by (subst unat_add_headroom) simp_all
  then show ?thesis using ok by (simp add: Ev_exit_recovery reno_ok_def reno_exit_recovery_def Let_def)
qed (use w unat_u32 [of mss] reno_start_ok(2) [OF m] in
    \<open>simp_all add: reno_duplicate_def reno_partial_def reno_timeout_def unat_grow\<close>)

lemma reno_run_ok:
  assumes m: "0 < unat mss" "unat mss \<le> 65535"
  shows "reno_ok mss (reno_run mss es) \<and> (list_all (pipe_fits mss) es \<longrightarrow> unat mss \<le> unat (cwnd (reno_run mss es)))"
proof (induction es rule: rev_induct)
  case Nil
  then show ?case using reno_start_ok [OF m] by (simp add: reno_run_def)
next
  case (snoc e es)
  have "reno_run mss (es @ [e]) = reno_exec mss e (reno_run mss es)" by (simp add: reno_run_def)
  then show ?case using snoc reno_exec_ok [OF _ m] reno_exec_window [OF _ m] by simp
qed

section \<open>Properties\<close>

definition example_routes :: route_table where
  "example_routes = foldl (\<lambda>t r. snd (route_add ipv4_kind t r)) (route_table_new ipv4_kind 4)
     [\<lparr>rt_prefix = [0, 0, 0, 0], rt_length = 0, rt_gateway = Some [10, 0, 2, 2], rt_interface = 1, rt_metric = 100,
       rt_origin = R_configured, rt_expires = -1\<rparr>,
      \<lparr>rt_prefix = [10, 0, 2, 15], rt_length = 24, rt_gateway = None, rt_interface = 1, rt_metric = 0,
       rt_origin = R_connected, rt_expires = -1\<rparr>]"

lemma example_routes_ok: "table_ok ipv4_kind example_routes"
proof -
  let ?a = "\<lparr>rt_prefix = [0, 0, 0, 0], rt_length = 0, rt_gateway = Some [10, 0, 2, 2], rt_interface = 1, rt_metric = 100,
       rt_origin = R_configured, rt_expires = -1\<rparr>"
  let ?b = "\<lparr>rt_prefix = [10, 0, 2, 15], rt_length = 24, rt_gateway = None, rt_interface = 1, rt_metric = 0,
       rt_origin = R_connected, rt_expires = -1\<rparr>"
  have "table_ok ipv4_kind (route_exec ipv4_kind (RO_add ?a) (route_table_new ipv4_kind 4))"
    using route_exec_ok [OF table_ok_new, of ipv4_kind "RO_add ?a" 4] by (simp add: op_sized_def ipv4_kind_def)
  from route_exec_ok [OF this, of "RO_add ?b"] show ?thesis
    by (simp add: op_sized_def ipv4_kind_def example_routes_def)
qed

text \<open>
  C9: what a route lookup returns. With a well-formed table, the lookup fails exactly when no
  route in use and unexpired has a prefix whose bits are the first bits of the destination.
  Otherwise it returns such a route, and no other such route has a longer prefix, or the same
  prefix length and a lower metric, or the same length and metric and an earlier insertion.
\<close>

theorem route_lookup_longest_prefix:
  assumes "table_ok K t" and "8 * (ak_width K div 8) = ak_width K" and "length d = ak_width K div 8"
  shows "case route_lookup t d now of
      Inl e \<Rightarrow> e = S_not_found \<and> (\<forall>s \<in> set (rtb_slots t). \<not> route_covers d now s)
    | Inr f \<Rightarrow> \<exists>s \<in> set (rtb_slots t). route_covers d now s \<and> f = found_of d (rs_route s) \<and>
        (\<forall>x \<in> set (rtb_slots t). route_covers d now x \<longrightarrow>
           rt_length (rs_route x) < rt_length (rs_route s) \<or>
           rt_length (rs_route x) = rt_length (rs_route s) \<and>
             (rt_metric (rs_route s) < rt_metric (rs_route x) \<or>
              rt_metric (rs_route s) = rt_metric (rs_route x) \<and> rs_order s \<le> rs_order x))"
proof -
  have "\<not> route_better x s \<longleftrightarrow>
      rt_length (rs_route x) < rt_length (rs_route s) \<or>
      rt_length (rs_route x) = rt_length (rs_route s) \<and>
        (rt_metric (rs_route s) < rt_metric (rs_route x) \<or>
         rt_metric (rs_route s) = rt_metric (rs_route x) \<and> rs_order s \<le> rs_order x)" for x s
    unfolding route_better_def by auto
  then show ?thesis using route_lookup_cases [OF assms, of now] by (simp only:)
qed

theorem route_lookup_longest_prefix_witness:
  "route_lookup example_routes [10, 0, 2, 9] 5
     = Inr \<lparr>rl_interface = 1, rl_next_hop = [10, 0, 2, 9], rl_gateway = False, rl_length = 24, rl_metric = 0\<rparr> \<and>
   (\<exists>s \<in> set (rtb_slots example_routes). route_covers [10, 0, 2, 9] 5 s)"
proof -
  have l: "route_lookup example_routes [10, 0, 2, 9] 5
     = Inr \<lparr>rl_interface = 1, rl_next_hop = [10, 0, 2, 9], rl_gateway = False, rl_length = 24, rl_metric = 0\<rparr>"
    by code_simp
  show ?thesis
    using route_lookup_longest_prefix [OF example_routes_ok, of "[10, 0, 2, 9]" 5] l by (auto simp: ipv4_kind_def)
qed

text \<open>
  C31: every sequence of additions, removals, selective removals and expiries, from an empty
  table, leaves a table of the same capacity in which every route in use has an address of the
  right size, a prefix length within the width, no bit set behind the prefix and a unicast
  gateway, and in which no two routes share prefix, gateway and interface.
\<close>

theorem route_table_well_formed:
  assumes "\<forall>x \<in> set ops. op_sized K x"
  shows "table_ok K (fold (route_exec K) ops (route_table_new K n)) \<and>
    length (rtb_slots (fold (route_exec K) ops (route_table_new K n))) = n"
proof -
  have "table_ok K (fold (route_exec K) ops t) \<and> length (rtb_slots (fold (route_exec K) ops t)) = length (rtb_slots t)"
    if "table_ok K t" for t
    using assms that
  proof (induction ops arbitrary: t)
    case (Cons x ops)
    then show ?case using route_exec_ok [of K t x] by simp
  qed simp
  from this [OF table_ok_new] show ?thesis by (simp add: route_table_new_def)
qed

theorem route_table_well_formed_witness:
  "table_ok ipv4_kind (fold (route_exec ipv4_kind)
     [RO_add (route_default ipv4_kind), RO_expire 7, RO_remove [0, 0, 0, 0] 0 None 0] (route_table_new ipv4_kind 4))"
  using route_table_well_formed [of "[RO_add (route_default ipv4_kind), RO_expire 7, RO_remove [0, 0, 0, 0] 0 None 0]"
      ipv4_kind 4]
  by (simp add: op_sized_def route_default_def ipv4_kind_def)

text \<open>
  C25: an added route is used. After a successful addition, a lookup before the expiry of the
  route, for any destination whose first bits are those of its prefix, succeeds, and returns a
  route with a longer prefix, or with the same prefix length and no higher metric.
\<close>

theorem route_added_is_found:
  assumes "table_ok K t" and "8 * (ak_width K div 8) = ak_width K"
    and "length (rt_prefix r) = ak_width K div 8" and "length d = ak_width K div 8"
    and "route_add K t r = (S_ok, t')" and "now < rt_expires r"
    and "take (unat (rt_length r)) (addr_bits d) = take (unat (rt_length r)) (addr_bits (rt_prefix r))"
  shows "\<exists>f. route_lookup t' d now = Inr f \<and> (rt_length r < rl_length f \<or> rl_length f = rt_length r \<and> rl_metric f \<le> rt_metric r)"
proof -
  obtain i s n where i: "i < length (rtb_slots t)" and t': "t' = t\<lparr>rtb_slots := (rtb_slots t)[i := s], rtb_order := n\<rparr>"
    and s: "rs_used s" "rs_route s = route_masked r" and ok: "table_ok K t'"
    using route_add_ok [OF assms(1,3,5)] by metis
  have mem: "s \<in> set (rtb_slots t')" using i by (simp add: t' set_update_memI)
  have len: "unat (rt_length r) \<le> 8 * length (rt_prefix r)"
    using ok mem s assms(2,3) by (auto simp: table_ok_def route_ok_def route_masked_def)
  have "route_usable d now s"
    using s assms(3,4,6,7) prefix_match_mask [OF _ len, of d]
    by (simp add: route_usable_def route_masked_def not_le)
  then have "route_covers d now s"
    using route_usable_covers [OF ok mem assms(2,4)] by simp
  then obtain b where "b \<in> set (rtb_slots t')" and f: "route_lookup t' d now = Inr (found_of d (rs_route b))"
    and best: "\<not> route_better s b"
    using route_lookup_cases [OF ok assms(2,4), of now] mem by (cases "route_lookup t' d now") auto
  have "rt_length r < rl_length (found_of d (rs_route b)) \<or>
      rl_length (found_of d (rs_route b)) = rt_length r \<and> rl_metric (found_of d (rs_route b)) \<le> rt_metric r"
    using best s(2) by (auto simp: route_better_def found_of_def route_masked_def)
  with f show ?thesis by blast
qed

theorem route_added_is_found_witness:
  "\<exists>f. route_lookup (snd (route_add ipv4_kind example_routes ((route_default ipv4_kind)\<lparr>rt_length := 0, rt_metric := 5\<rparr>)))
     [192, 168, 1, 1] 9 = Inr f"
proof -
  let ?r = "(route_default ipv4_kind)\<lparr>rt_length := 0, rt_metric := 5\<rparr>"
  have "fst (route_add ipv4_kind example_routes ?r) = S_ok" by code_simp
  then have a: "route_add ipv4_kind example_routes ?r = (S_ok, snd (route_add ipv4_kind example_routes ?r))"
    by (simp add: prod_eq_iff)
  have "(9 :: u64) < - 1" by simp
  then have "\<exists>f. route_lookup (snd (route_add ipv4_kind example_routes ?r)) [192, 168, 1, 1] 9 = Inr f \<and>
      (rt_length ?r < rl_length f \<or> rl_length f = rt_length ?r \<and> rl_metric f \<le> rt_metric ?r)"
    by (intro route_added_is_found [OF example_routes_ok _ _ _ a]) (simp_all add: route_default_def ipv4_kind_def)
  then show ?thesis by blast
qed

text \<open>
  C27: the windows of the congestion policy stay within bounds. For a fixed segment size from 1 to
  65535, after any sequence of calls on a started policy, the threshold is at least two segments;
  congestion avoidance, which runs when the window has reached the threshold, never divides by
  zero; and an acknowledgment never shrinks the window and adds at most one segment to it. As long
  as every \<open>exit_recovery\<close> is told of data in flight that, with one more segment, fits in 32 bits,
  the window is also at least one segment; that sum is not checked in the code.
\<close>

theorem reno_window_bounds:
  assumes "0 < mss" and "mss \<le> 65535"
  shows "let p = reno_run mss es in
    2 * unat mss \<le> unat (ssthresh p)
    \<and> (\<not> cwnd p < ssthresh p \<longrightarrow> cwnd p \<noteq> 0)
    \<and> unat (cwnd p) \<le> unat (cwnd (reno_acknowledged p bytes mss))
    \<and> unat (cwnd (reno_acknowledged p bytes mss)) \<le> unat (cwnd p) + unat mss
    \<and> (list_all (pipe_fits mss) es \<longrightarrow> mss \<le> cwnd p)"
proof -
  have m: "0 < unat mss" "unat mss \<le> 65535"
    using assms(1,2) by (simp_all add: word_less_nat_alt word_le_nat_alt del: unat_eq_0)
  note ok = reno_run_ok [OF m, of es]
  have t: "0 < unat (ssthresh (reno_run mss es))" using ok m(1) by (simp only: reno_ok_def) linarith
  have "cwnd (reno_run mss es) \<noteq> 0" if "\<not> cwnd (reno_run mss es) < ssthresh (reno_run mss es)"
    using that t by (auto simp: word_less_nat_alt simp del: unat_eq_0)
  then show ?thesis using ok acknowledged_bounds [OF _ m, of "reno_run mss es" bytes]
    by (auto simp: Let_def reno_ok_def word_le_nat_alt)
qed

theorem reno_window_bounds_witness:
  "(1460 :: u32) \<le> cwnd (reno_run 1460 [Ev_acknowledged 1460, Ev_enter_recovery 9000, Ev_exit_recovery 9000, Ev_timeout 9000])"
  using reno_window_bounds [of 1460 "[Ev_acknowledged 1460, Ev_enter_recovery 9000, Ev_exit_recovery 9000, Ev_timeout 9000]"]
  by (simp add: Let_def)

end
