(* ===== verification/OK_Neighbour.thy ===== *)
theory OK_Neighbour
  imports OK_Ip
begin

text \<open>
  The neighbour cache of \<^verbatim>\<open>net/neighbour.hpp\<close>. Entries and held packets are arrays; a pointer into
  one of them is its index. The template parameters are a record: the default value of \<open>Address\<close>,
  and the size of a packet slot; the two capacities are the lengths of the arrays.
\<close>

section \<open>State\<close>

datatype neighbour_state = N_incomplete | N_reachable | N_stale | N_delay | N_probe | N_permanent

record neighbour_timing =
  nt_reachable_ms :: u64
  nt_retransmit_ms :: u64
  nt_delay_ms :: u64
  nt_multicast_probes :: u8
  nt_unicast_probes :: u8

definition timing_default :: neighbour_timing where
  "timing_default = \<lparr>nt_reachable_ms = 30000, nt_retransmit_ms = 1000, nt_delay_ms = 5000,
     nt_multicast_probes = 3, nt_unicast_probes = 3\<rparr>"

datatype neighbour_update = U_announcement | U_advertisement

record neighbour_advertisement =
  na_solicited :: bool
  na_override :: bool
  na_router :: bool

record solicitation =
  sol_target :: "u8 list"
  sol_unicast :: "mac option"

record neighbour_snapshot =
  sn_address :: "u8 list"
  sn_mac :: mac
  sn_state :: neighbour_state
  sn_router :: bool
  sn_probes :: u8
  sn_deadline :: u64
  sn_pending :: nat

record neighbour_stats =
  ns_resolved :: u64
  ns_failed :: u64
  ns_evicted :: u64
  ns_pending_dropped :: u64
  ns_ignored :: u64

record neighbour_entry =
  ne_used :: bool
  ne_router :: bool
  ne_address :: "u8 list"
  ne_mac :: mac
  ne_state :: neighbour_state
  ne_probes :: u8
  ne_deadline :: u64
  ne_used_at :: u64

record held_packet =
  hp_used :: bool
  hp_address :: "u8 list"
  hp_length :: nat
  hp_order :: u64
  hp_bytes :: bytes

record neighbour_limits =
  nl_address :: "u8 list"
  nl_packet_bytes :: nat

record neighbour_cache =
  nc_timing :: neighbour_timing
  nc_entries :: "neighbour_entry list"
  nc_pending :: "held_packet list"
  nc_order :: u64
  nc_stats :: neighbour_stats

definition entry_default :: "neighbour_limits \<Rightarrow> neighbour_entry" where
  "entry_default L = \<lparr>ne_used = False, ne_router = False, ne_address = nl_address L, ne_mac = replicate 6 0,
     ne_state = N_incomplete, ne_probes = 0, ne_deadline = 0, ne_used_at = 0\<rparr>"

definition packet_default :: "neighbour_limits \<Rightarrow> held_packet" where
  "packet_default L = \<lparr>hp_used = False, hp_address = nl_address L, hp_length = 0, hp_order = 0,
     hp_bytes = replicate (nl_packet_bytes L) 0\<rparr>"

definition neighbour_cache_new :: "neighbour_limits \<Rightarrow> nat \<Rightarrow> nat \<Rightarrow> neighbour_timing \<Rightarrow> neighbour_cache" where
  "neighbour_cache_new L capacity pending timing =
     \<lparr>nc_timing = timing, nc_entries = replicate capacity (entry_default L),
      nc_pending = replicate pending (packet_default L), nc_order = 0,
      nc_stats = \<lparr>ns_resolved = 0, ns_failed = 0, ns_evicted = 0, ns_pending_dropped = 0, ns_ignored = 0\<rparr>\<rparr>"

definition per_neighbour_pending :: "neighbour_cache \<Rightarrow> nat" where
  "per_neighbour_pending c = (if length (nc_pending c) < 3 then length (nc_pending c) else 3)"

section \<open>Helpers\<close>

text \<open>A counter that stays at its largest value.\<close>

definition stat_add :: "u64 \<Rightarrow> u64" where
  "stat_add v = (if v \<noteq> -1 then v + 1 else v)"

definition count_ignored :: "neighbour_cache \<Rightarrow> neighbour_cache" where
  "count_ignored c = c\<lparr>nc_stats := (nc_stats c)\<lparr>ns_ignored := stat_add (ns_ignored (nc_stats c))\<rparr>\<rparr>"

definition count_resolved :: "neighbour_cache \<Rightarrow> neighbour_cache" where
  "count_resolved c = c\<lparr>nc_stats := (nc_stats c)\<lparr>ns_resolved := stat_add (ns_resolved (nc_stats c))\<rparr>\<rparr>"

definition count_failed :: "neighbour_cache \<Rightarrow> neighbour_cache" where
  "count_failed c = c\<lparr>nc_stats := (nc_stats c)\<lparr>ns_failed := stat_add (ns_failed (nc_stats c))\<rparr>\<rparr>"

definition count_evicted :: "neighbour_cache \<Rightarrow> neighbour_cache" where
  "count_evicted c = c\<lparr>nc_stats := (nc_stats c)\<lparr>ns_evicted := stat_add (ns_evicted (nc_stats c))\<rparr>\<rparr>"

definition count_dropped :: "neighbour_cache \<Rightarrow> neighbour_cache" where
  "count_dropped c = c\<lparr>nc_stats := (nc_stats c)\<lparr>ns_pending_dropped := stat_add (ns_pending_dropped (nc_stats c))\<rparr>\<rparr>"

definition neighbour_deadline :: "u64 \<Rightarrow> u64 \<Rightarrow> u64" where
  "neighbour_deadline now delay = (if now > -1 - delay then -1 else now + delay)"

definition nb_lookup :: "neighbour_cache \<Rightarrow> u8 list \<Rightarrow> nat option" where
  "nb_lookup c address = first_index (\<lambda>e. ne_used e \<and> ne_address e = address) (nc_entries c)"

definition nb_held :: "neighbour_cache \<Rightarrow> u8 list \<Rightarrow> nat" where
  "nb_held c address = count_if (\<lambda>p. hp_used p \<and> hp_address p = address) (nc_pending c)"

text \<open>The least element, by a strict comparison of keys, among the indices that qualify.\<close>

definition least_index :: "('a \<Rightarrow> bool) \<Rightarrow> ('a \<Rightarrow> u64) \<Rightarrow> 'a list \<Rightarrow> nat option" where
  "least_index P key xs =
     fold (\<lambda>i found. if P (xs ! i) \<and> (case found of None \<Rightarrow> True | Some j \<Rightarrow> key (xs ! i) < key (xs ! j))
            then Some i else found) [0..<length xs] None"

definition nb_oldest :: "neighbour_cache \<Rightarrow> u8 list option \<Rightarrow> nat option" where
  "nb_oldest c address =
     least_index (\<lambda>p. hp_used p \<and> (case address of None \<Rightarrow> True | Some a \<Rightarrow> hp_address p = a)) hp_order (nc_pending c)"

definition put_entry :: "neighbour_cache \<Rightarrow> nat \<Rightarrow> neighbour_entry \<Rightarrow> neighbour_cache" where
  "put_entry c i e = c\<lparr>nc_entries := (nc_entries c)[i := e]\<rparr>"

definition entry_to :: "neighbour_timing \<Rightarrow> neighbour_entry \<Rightarrow> neighbour_state \<Rightarrow> u64 \<Rightarrow> neighbour_entry" where
  "entry_to T e state now = e\<lparr>ne_state := state, ne_probes := 0,
     ne_deadline := (if state = N_reachable then neighbour_deadline now (nt_reachable_ms T) else -1)\<rparr>"

definition nb_drop :: "neighbour_limits \<Rightarrow> neighbour_cache \<Rightarrow> nat \<Rightarrow> neighbour_cache" where
  "nb_drop L c i =
     (let address = ne_address (nc_entries c ! i);
          hit = (\<lambda>p. hp_used p \<and> hp_address p = address);
          c1 = (count_dropped ^^ count_if hit (nc_pending c)) c;
          c2 = c1\<lparr>nc_pending := map (\<lambda>p. if hit p then p\<lparr>hp_used := False\<rparr> else p) (nc_pending c)\<rparr>
      in put_entry c2 i (entry_default L))"

definition nb_victim :: "neighbour_cache \<Rightarrow> nat option" where
  "nb_victim c =
     least_index (\<lambda>e. ne_state e \<noteq> N_permanent \<and> ne_state e \<noteq> N_incomplete \<and> nb_held c (ne_address e) = 0)
       ne_used_at (nc_entries c)"

definition nb_create :: "neighbour_limits \<Rightarrow> neighbour_cache \<Rightarrow> u8 list \<Rightarrow> u64 \<Rightarrow> nat result \<times> neighbour_cache" where
  "nb_create L c address now =
     (case (case first_index (\<lambda>e. \<not> ne_used e) (nc_entries c) of Some i \<Rightarrow> Some i | None \<Rightarrow> nb_victim c) of
        None \<Rightarrow> (Inl S_no_memory, c)
      | Some i \<Rightarrow>
          let c1 = (if ne_used (nc_entries c ! i) then nb_drop L (count_evicted c) i else c)
          in (Inr i, put_entry c1 i ((nc_entries c1 ! i)\<lparr>ne_used := True, ne_address := address, ne_used_at := now\<rparr>)))"

section \<open>Operations\<close>

definition set_reachable_time :: "neighbour_cache \<Rightarrow> u64 \<Rightarrow> neighbour_cache" where
  "set_reachable_time c ms = (if ms \<noteq> 0 then c\<lparr>nc_timing := (nc_timing c)\<lparr>nt_reachable_ms := ms\<rparr>\<rparr> else c)"

definition set_retransmit_time :: "neighbour_cache \<Rightarrow> u64 \<Rightarrow> neighbour_cache" where
  "set_retransmit_time c ms = (if ms \<noteq> 0 then c\<lparr>nc_timing := (nc_timing c)\<lparr>nt_retransmit_ms := ms\<rparr>\<rparr> else c)"

definition nb_size :: "neighbour_cache \<Rightarrow> nat" where
  "nb_size c = count_if ne_used (nc_entries c)"

definition nb_pending :: "neighbour_cache \<Rightarrow> nat" where
  "nb_pending c = count_if hp_used (nc_pending c)"

definition nb_snapshot :: "neighbour_cache \<Rightarrow> neighbour_entry \<Rightarrow> neighbour_snapshot" where
  "nb_snapshot c e = \<lparr>sn_address = ne_address e, sn_mac = ne_mac e, sn_state = ne_state e, sn_router = ne_router e,
     sn_probes = ne_probes e, sn_deadline = ne_deadline e, sn_pending = nb_held c (ne_address e)\<rparr>"

definition nb_find :: "neighbour_cache \<Rightarrow> u8 list \<Rightarrow> neighbour_snapshot option" where
  "nb_find c address = map_option (\<lambda>i. nb_snapshot c (nc_entries c ! i)) (nb_lookup c address)"

definition nb_each :: "neighbour_cache \<Rightarrow> neighbour_snapshot list" where
  "nb_each c = map (nb_snapshot c) (filter ne_used (nc_entries c))"

definition nb_resolve :: "neighbour_limits \<Rightarrow> neighbour_cache \<Rightarrow> u8 list \<Rightarrow> u64 \<Rightarrow> mac result \<times> neighbour_cache" where
  "nb_resolve L c address now =
     (case nb_lookup c address of
        None \<Rightarrow>
          (case nb_create L c address now of
             (Inl e, c1) \<Rightarrow> (Inl e, c1)
           | (Inr i, c1) \<Rightarrow>
               (Inl S_would_block, put_entry c1 i ((nc_entries c1 ! i)\<lparr>ne_state := N_incomplete, ne_deadline := now\<rparr>)))
      | Some i \<Rightarrow>
          let e = (nc_entries c ! i)\<lparr>ne_used_at := now\<rparr> in
          if ne_state e = N_incomplete then (Inl S_would_block, put_entry c i e)
          else let e' = (if ne_state e = N_stale
                         then e\<lparr>ne_state := N_delay, ne_deadline := neighbour_deadline now (nt_delay_ms (nc_timing c))\<rparr>
                         else e)
               in (Inr (ne_mac e'), put_entry c i e'))"

text \<open>The slot a held packet takes: the oldest of its neighbour at the limit, a free one, the oldest of all.\<close>

definition hold_slot :: "neighbour_cache \<Rightarrow> u8 list \<Rightarrow> nat option" where
  "hold_slot c address =
     (let s1 = (if nb_held c address \<ge> per_neighbour_pending c then nb_oldest c (Some address) else None);
          s2 = (case s1 of Some i \<Rightarrow> Some i | None \<Rightarrow> first_index (\<lambda>p. \<not> hp_used p) (nc_pending c))
      in case s2 of Some i \<Rightarrow> Some i | None \<Rightarrow> nb_oldest c None)"

definition nb_hold :: "neighbour_limits \<Rightarrow> neighbour_cache \<Rightarrow> u8 list \<Rightarrow> bytes \<Rightarrow> status_code \<times> neighbour_cache" where
  "nb_hold L c address packet =
     (if (case nb_lookup c address of None \<Rightarrow> True | Some i \<Rightarrow> ne_state (nc_entries c ! i) \<noteq> N_incomplete)
        then (S_invalid_argument, c)
      else if packet = [] \<or> length packet > nl_packet_bytes L then (S_overflow, c)
      else case hold_slot c address of
        None \<Rightarrow> (S_no_memory, c)
      | Some i \<Rightarrow>
          let p = nc_pending c ! i;
              c1 = (if hp_used p then count_dropped c else c);
              order = nc_order c + 1
          in (S_ok, c1\<lparr>nc_order := order,
                nc_pending := (nc_pending c)[i := p\<lparr>hp_used := True, hp_address := address, hp_length := length packet,
                   hp_order := order, hp_bytes := put_bytes (hp_bytes p) 0 packet\<rparr>]\<rparr>))"

definition nb_announce :: "neighbour_limits \<Rightarrow> neighbour_cache \<Rightarrow> u8 list \<Rightarrow> mac option \<Rightarrow> u64 \<Rightarrow> bool result \<times> neighbour_cache" where
  "nb_announce L c address mac now =
     (case mac of
        None \<Rightarrow> (Inr False, c)
      | Some m \<Rightarrow>
          (case nb_lookup c address of
             None \<Rightarrow>
               (case nb_create L c address now of
                  (Inl e, c1) \<Rightarrow> (Inl e, c1)
                | (Inr i, c1) \<Rightarrow>
                    (Inr True, put_entry c1 i (entry_to (nc_timing c1) ((nc_entries c1 ! i)\<lparr>ne_mac := m\<rparr>) N_stale now)))
           | Some i \<Rightarrow>
               let e = nc_entries c ! i in
               if ne_state e = N_permanent then (Inr True, c)
               else if ne_state e = N_incomplete \<or> ne_mac e \<noteq> m then
                 (Inr True, put_entry (if ne_state e = N_incomplete then count_resolved c else c) i
                              (entry_to (nc_timing c) (e\<lparr>ne_mac := m\<rparr>) N_stale now))
               else (Inr True, c)))"

definition nb_advertise :: "neighbour_cache \<Rightarrow> u8 list \<Rightarrow> mac option \<Rightarrow> neighbour_advertisement \<Rightarrow> u64
    \<Rightarrow> bool result \<times> neighbour_cache" where
  "nb_advertise c address mac flags now =
     (case nb_lookup c address of
        None \<Rightarrow> (Inr False, count_ignored c)
      | Some i \<Rightarrow>
          let e = nc_entries c ! i; T = nc_timing c in
          if ne_state e = N_permanent then (Inr True, c)
          else if ne_state e = N_incomplete then
            (case mac of
               None \<Rightarrow> (Inr False, count_ignored c)
             | Some m \<Rightarrow> (Inr True, put_entry (count_resolved c) i
                 (entry_to T (e\<lparr>ne_mac := m, ne_router := na_router flags\<rparr>)
                    (if na_solicited flags then N_reachable else N_stale) now)))
          else let changed = (case mac of None \<Rightarrow> False | Some m \<Rightarrow> m \<noteq> ne_mac e) in
            if \<not> na_override flags \<and> changed then
              (Inr True, if ne_state e = N_reachable then put_entry c i (entry_to T e N_stale now) else c)
            else let e1 = (if changed then e\<lparr>ne_mac := the mac\<rparr> else e);
                     e2 = (if na_solicited flags then entry_to T e1 N_reachable now
                           else if changed then entry_to T e1 N_stale now else e1)
                 in (Inr True, put_entry c i (e2\<lparr>ne_router := na_router flags\<rparr>)))"

definition nb_update :: "neighbour_limits \<Rightarrow> neighbour_cache \<Rightarrow> u8 list \<Rightarrow> mac option \<Rightarrow> neighbour_update
    \<Rightarrow> neighbour_advertisement \<Rightarrow> u64 \<Rightarrow> bool result \<times> neighbour_cache" where
  "nb_update L c address mac kind flags now =
     (if (case mac of None \<Rightarrow> False | Some m \<Rightarrow> mac_multicast m) then (Inl S_invalid_argument, count_ignored c)
      else if kind = U_announcement then nb_announce L c address mac now
      else nb_advertise c address mac flags now)"

definition nb_confirm :: "neighbour_cache \<Rightarrow> u8 list \<Rightarrow> u64 \<Rightarrow> neighbour_cache" where
  "nb_confirm c address now =
     (case nb_lookup c address of
        None \<Rightarrow> c
      | Some i \<Rightarrow>
          let e = nc_entries c ! i in
          if ne_state e \<noteq> N_incomplete \<and> ne_state e \<noteq> N_permanent
          then put_entry c i (entry_to (nc_timing c) e N_reachable now) else c)"

definition nb_add_permanent :: "neighbour_limits \<Rightarrow> neighbour_cache \<Rightarrow> u8 list \<Rightarrow> mac \<Rightarrow> u64 \<Rightarrow> status_code \<times> neighbour_cache" where
  "nb_add_permanent L c address m now =
     (if mac_multicast m then (S_invalid_argument, c)
      else case (case nb_lookup c address of Some i \<Rightarrow> (Inr i, c) | None \<Rightarrow> nb_create L c address now) of
        (Inl e, c1) \<Rightarrow> (e, c1)
      | (Inr i, c1) \<Rightarrow>
          (S_ok, put_entry c1 i ((nc_entries c1 ! i)\<lparr>ne_mac := m, ne_state := N_permanent, ne_deadline := 0, ne_probes := 0\<rparr>)))"

definition nb_remove :: "neighbour_limits \<Rightarrow> neighbour_cache \<Rightarrow> u8 list \<Rightarrow> status_code \<times> neighbour_cache" where
  "nb_remove L c address =
     (case nb_lookup c address of None \<Rightarrow> (S_not_found, c) | Some i \<Rightarrow> (S_ok, nb_drop L c i))"

text \<open>The probing part of a tick for one entry that is in \<open>probe\<close> or \<open>incomplete\<close>.\<close>

definition tick_probe :: "neighbour_limits \<Rightarrow> u64 \<Rightarrow> nat \<Rightarrow> nat \<Rightarrow> neighbour_entry \<Rightarrow> neighbour_cache \<times> solicitation list
    \<Rightarrow> neighbour_cache \<times> solicitation list" where
  "tick_probe L now room i e s =
     (case s of (c, out) \<Rightarrow>
        let multicast = (ne_state e = N_incomplete);
            c1 = put_entry c i e in
        if ne_probes e \<ge> (if multicast then nt_multicast_probes (nc_timing c) else nt_unicast_probes (nc_timing c))
          then (nb_drop L (count_failed c1) i, out)
        else if length out = room then (c1, out)
        else (put_entry c1 i (e\<lparr>ne_probes := ne_probes e + 1,
                ne_deadline := neighbour_deadline now (nt_retransmit_ms (nc_timing c))\<rparr>),
              out @ [\<lparr>sol_target = ne_address e, sol_unicast = (if multicast then None else Some (ne_mac e))\<rparr>]))"

definition tick_entry :: "neighbour_limits \<Rightarrow> u64 \<Rightarrow> nat \<Rightarrow> nat \<Rightarrow> neighbour_cache \<times> solicitation list
    \<Rightarrow> neighbour_cache \<times> solicitation list" where
  "tick_entry L now room i s =
     (case s of (c, out) \<Rightarrow>
        let e = nc_entries c ! i in
        if \<not> ne_used e \<or> ne_state e = N_permanent \<or> now < ne_deadline e then (c, out)
        else case ne_state e of
          N_reachable \<Rightarrow> (put_entry c i (entry_to (nc_timing c) e N_stale now), out)
        | N_stale \<Rightarrow> (put_entry c i (e\<lparr>ne_deadline := -1\<rparr>), out)
        | N_delay \<Rightarrow> tick_probe L now room i (e\<lparr>ne_state := N_probe, ne_probes := 0\<rparr>) (c, out)
        | N_probe \<Rightarrow> tick_probe L now room i e (c, out)
        | N_incomplete \<Rightarrow> tick_probe L now room i e (c, out)
        | N_permanent \<Rightarrow> (c, out))"

text \<open>A tick returns the solicitations it wrote to the front of the output span of \<open>room\<close> places.\<close>

definition nb_tick :: "neighbour_limits \<Rightarrow> neighbour_cache \<Rightarrow> u64 \<Rightarrow> nat \<Rightarrow> neighbour_cache \<times> solicitation list" where
  "nb_tick L c now room = fold (tick_entry L now room) [0..<length (nc_entries c)] (c, [])"

definition nb_next_deadline :: "neighbour_cache \<Rightarrow> u64 option" where
  "nb_next_deadline c =
     fold (\<lambda>e found. if ne_used e \<and> ne_state e \<noteq> N_permanent \<and> ne_state e \<noteq> N_stale \<and>
              (case found of None \<Rightarrow> True | Some d \<Rightarrow> ne_deadline e < d)
            then Some (ne_deadline e) else found) (nc_entries c) None"

section \<open>Flushing held packets\<close>

definition nb_flushable :: "neighbour_cache \<Rightarrow> held_packet \<Rightarrow> bool" where
  "nb_flushable c p \<longleftrightarrow> hp_used p \<and>
     (case nb_lookup c (hp_address p) of None \<Rightarrow> False | Some i \<Rightarrow> ne_state (nc_entries c ! i) \<noteq> N_incomplete)"

definition nb_next_flush :: "neighbour_cache \<Rightarrow> nat option" where
  "nb_next_flush c = least_index (nb_flushable c) hp_order (nc_pending c)"

definition release_packet :: "neighbour_cache \<Rightarrow> nat \<Rightarrow> neighbour_cache" where
  "release_packet c i = c\<lparr>nc_pending := (nc_pending c)[i := (nc_pending c ! i)\<lparr>hp_used := False\<rparr>]\<rparr>"

definition neighbour_mac :: "neighbour_cache \<Rightarrow> u8 list \<Rightarrow> mac" where
  "neighbour_mac c address = (case nb_lookup c address of Some i \<Rightarrow> ne_mac (nc_entries c ! i) | None \<Rightarrow> [])"

lemma least_index_fold:
  assumes "\<forall>j. found = Some j \<longrightarrow> j < length xs \<and> P (xs ! j)" and "\<forall>i \<in> set js. i < length xs"
    and "fold (\<lambda>i found. if P (xs ! i) \<and> (case found of None \<Rightarrow> True | Some j \<Rightarrow> key (xs ! i) < key (xs ! j))
            then Some i else found) js found = Some k"
  shows "k < length xs \<and> P (xs ! k)"
  using assms by (induction js arbitrary: found) (auto split: if_splits)

lemma least_indexD: "least_index P key xs = Some k \<Longrightarrow> k < length xs \<and> P (xs ! k)"
  unfolding least_index_def by (rule least_index_fold [where found = None and js = "[0..<length xs]"]) auto

text \<open>
  The loop of \<open>flush\<close>: the sink is a function of its own state, and answers whether it took the
  packet. The result counts the packets it took.
\<close>

function nb_flush_loop :: "('s \<Rightarrow> mac \<Rightarrow> u8 list \<Rightarrow> bytes \<Rightarrow> bool \<times> 's) \<Rightarrow> neighbour_cache \<Rightarrow> 's \<Rightarrow> nat
    \<Rightarrow> nat \<times> neighbour_cache \<times> 's" where
  "nb_flush_loop sink c s sent =
     (case nb_next_flush c of
        None \<Rightarrow> (sent, c, s)
      | Some i \<Rightarrow>
          let p = nc_pending c ! i in
          case sink s (neighbour_mac c (hp_address p)) (hp_address p) (take (hp_length p) (hp_bytes p)) of
            (taken, s') \<Rightarrow>
              if \<not> taken then (sent, c, s')
              else nb_flush_loop sink (release_packet c i) s' (sent + 1))"
  by auto
termination
proof (relation "measure (\<lambda>(_, c, _, _). nb_pending c)", simp)
  fix sink c s sent i p q taken and s' :: 's
  assume next_i: "nb_next_flush c = Some i" and p: "p = nc_pending c ! i"
  have i: "i < length (nc_pending c)" and used: "hp_used (nc_pending c ! i)"
    using least_indexD [OF next_i [unfolded nb_next_flush_def]] by (auto simp: nb_flushable_def)
  have "nb_pending (release_packet c i) = nb_pending c - 1"
    unfolding nb_pending_def release_packet_def using i used by (simp add: count_if_update_off)
  moreover have "nb_pending c \<noteq> 0"
    unfolding nb_pending_def count_if_zero_iff using i used by (auto intro: bexI [OF _ nth_mem])
  ultimately show "((sink, release_packet c i, s', sent + 1), sink, c, s, sent) \<in> measure (\<lambda>(_, c, _, _). nb_pending c)"
    by simp
qed

declare nb_flush_loop.simps [simp del]

definition nb_flush :: "('s \<Rightarrow> mac \<Rightarrow> u8 list \<Rightarrow> bytes \<Rightarrow> bool \<times> 's) \<Rightarrow> neighbour_cache \<Rightarrow> 's \<Rightarrow> nat \<times> neighbour_cache \<times> 's" where
  "nb_flush sink c s = nb_flush_loop sink c s 0"

end
