(* ===== verification/OK_Neighbour_Proofs.thy ===== *)
theory OK_Neighbour_Proofs
  imports OK_Neighbour
begin

text \<open>
  The invariant of the neighbour cache: addresses in use are distinct, every held packet belongs to
  an entry in use, and no neighbour holds more packets than its share.
\<close>

section \<open>The invariant\<close>

definition entries_distinct :: "neighbour_entry list \<Rightarrow> bool" where
  "entries_distinct es \<longleftrightarrow> (\<forall>i < length es. \<forall>j < length es.
     ne_used (es ! i) \<longrightarrow> ne_used (es ! j) \<longrightarrow> ne_address (es ! i) = ne_address (es ! j) \<longrightarrow> i = j)"

definition known_address :: "neighbour_entry list \<Rightarrow> u8 list \<Rightarrow> bool" where
  "known_address es a \<longleftrightarrow> (\<exists>e \<in> set es. ne_used e \<and> ne_address e = a)"

definition held_in :: "held_packet list \<Rightarrow> u8 list \<Rightarrow> nat" where
  "held_in ps a = count_if (\<lambda>p. hp_used p \<and> hp_address p = a) ps"

definition packets_ok :: "neighbour_entry list \<Rightarrow> held_packet list \<Rightarrow> bool" where
  "packets_ok es ps \<longleftrightarrow> (\<forall>p \<in> set ps. hp_used p \<longrightarrow> known_address es (hp_address p)) \<and>
     (\<forall>a. held_in ps a \<le> (if length ps < 3 then length ps else 3))"

definition cache_ok :: "neighbour_cache \<Rightarrow> bool" where
  "cache_ok c \<longleftrightarrow> entries_distinct (nc_entries c) \<and> packets_ok (nc_entries c) (nc_pending c)"

lemma cache_ok_new: "cache_ok (neighbour_cache_new L n m timing)"
  by (simp add: cache_ok_def neighbour_cache_new_def entries_distinct_def packets_ok_def entry_default_def
      packet_default_def held_in_def)

text \<open>The counters, the timing and the order of arrival are not part of it.\<close>

lemma cache_ok_cong:
  "nc_entries c' = nc_entries c \<Longrightarrow> nc_pending c' = nc_pending c \<Longrightarrow> cache_ok c' = cache_ok c"
  by (simp add: cache_ok_def)

lemma counter_fields [simp]:
  "nc_entries (count_ignored c) = nc_entries c" "nc_pending (count_ignored c) = nc_pending c"
  "nc_entries (count_resolved c) = nc_entries c" "nc_pending (count_resolved c) = nc_pending c"
  "nc_entries (count_failed c) = nc_entries c" "nc_pending (count_failed c) = nc_pending c"
  "nc_entries (count_evicted c) = nc_entries c" "nc_pending (count_evicted c) = nc_pending c"
  "nc_entries (count_dropped c) = nc_entries c" "nc_pending (count_dropped c) = nc_pending c"
  by (simp_all add: count_ignored_def count_resolved_def count_failed_def count_evicted_def count_dropped_def)

lemma cache_ok_counters [simp]:
  "cache_ok (count_ignored c) = cache_ok c" "cache_ok (count_resolved c) = cache_ok c"
  "cache_ok (count_failed c) = cache_ok c" "cache_ok (count_evicted c) = cache_ok c" "cache_ok (count_dropped c) = cache_ok c"
  by (rule cache_ok_cong; simp)+

lemma put_entry_fields [simp]:
  "nc_entries (put_entry c i e) = (nc_entries c)[i := e]" "nc_pending (put_entry c i e) = nc_pending c"
  by (simp_all add: put_entry_def)

lemma known_addressI: "j < length es \<Longrightarrow> ne_used (es ! j) \<Longrightarrow> ne_address (es ! j) = a \<Longrightarrow> known_address es a"
  unfolding known_address_def by (rule bexI [where x = "es ! j"]) simp_all

lemma known_addressE:
  assumes "known_address es a"
  obtains j where "j < length es" and "ne_used (es ! j)" and "ne_address (es ! j) = a"
  using assms by (auto simp: known_address_def in_set_conv_nth)

lemma known_address_put:
  "i < length es \<Longrightarrow> ne_used (es ! i) \<longrightarrow> ne_used e \<and> ne_address e = ne_address (es ! i) \<Longrightarrow>
   known_address es a \<Longrightarrow> known_address (es[i := e]) a"
proof (erule known_addressE)
  fix j
  assume "i < length es" and "ne_used (es ! i) \<longrightarrow> ne_used e \<and> ne_address e = ne_address (es ! i)"
    and "j < length es" and "ne_used (es ! j)" and "ne_address (es ! j) = a"
  then show "known_address (es[i := e]) a" by (intro known_addressI [of j]) (auto simp: nth_list_update_if)
qed

text \<open>Rewriting an entry in use without touching its address.\<close>

lemma cache_ok_put:
  assumes "cache_ok c" and "ne_used e = ne_used (nc_entries c ! i)" and "ne_address e = ne_address (nc_entries c ! i)"
  shows "cache_ok (put_entry c i e)"
proof (cases "i < length (nc_entries c)")
  case True
  have "entries_distinct ((nc_entries c)[i := e])"
    using assms True by (auto simp: cache_ok_def entries_distinct_def nth_list_update)
  moreover have "packets_ok ((nc_entries c)[i := e]) (nc_pending c)"
    using assms True known_address_put [OF True, of e] by (auto simp: cache_ok_def packets_ok_def)
  ultimately show ?thesis by (simp add: cache_ok_def)
next
  case False
  then have "nc_entries (put_entry c i e) = nc_entries c" by (simp add: list_update_beyond)
  then show ?thesis using assms(1) by (subst cache_ok_cong) simp_all
qed

text \<open>Using a free entry for an address that is not known.\<close>

lemma cache_ok_use:
  assumes "cache_ok c" and "i < length (nc_entries c)" and "\<not> ne_used (nc_entries c ! i)"
    and "\<not> known_address (nc_entries c) (ne_address e)"
  shows "cache_ok (put_entry c i e)"
proof -
  have n: "ne_used (nc_entries c ! j) \<Longrightarrow> ne_address (nc_entries c ! j) \<noteq> ne_address e" if "j < length (nc_entries c)" for j
    using assms(4) that by (auto simp: known_address_def)
  have "entries_distinct ((nc_entries c)[i := e])"
    using assms(1,2) n unfolding cache_ok_def entries_distinct_def
    by (simp add: nth_list_update_if) (metis (no_types))
  moreover have "packets_ok ((nc_entries c)[i := e]) (nc_pending c)"
    using assms known_address_put [OF assms(2), of e] by (auto simp: cache_ok_def packets_ok_def)
  ultimately show ?thesis by (simp add: cache_ok_def)
qed

section \<open>Dropping and creating entries\<close>

lemma dropped_fields [simp]:
  "nc_entries ((count_dropped ^^ n) c) = nc_entries c" "nc_pending ((count_dropped ^^ n) c) = nc_pending c"
  by (induction n) simp_all

definition drop_packets :: "u8 list \<Rightarrow> held_packet list \<Rightarrow> held_packet list" where
  "drop_packets a ps = map (\<lambda>p. if hp_used p \<and> hp_address p = a then p\<lparr>hp_used := False\<rparr> else p) ps"

lemma nb_drop_fields [simp]:
  "nc_entries (nb_drop L c i) = (nc_entries c)[i := entry_default L]"
  "nc_pending (nb_drop L c i) = drop_packets (ne_address (nc_entries c ! i)) (nc_pending c)"
  by (simp_all add: nb_drop_def Let_def drop_packets_def)

lemma held_drop: "held_in (drop_packets a ps) b \<le> held_in ps b"
  unfolding held_in_def drop_packets_def by (induction ps) auto

lemma entry_default_unused [simp]: "\<not> ne_used (entry_default L)"
  by (simp add: entry_default_def)

lemma cache_ok_drop:
  assumes "cache_ok c" and "i < length (nc_entries c)"
  shows "cache_ok (nb_drop L c i)"
proof -
  let ?a = "ne_address (nc_entries c ! i)"
  have "entries_distinct ((nc_entries c)[i := entry_default L])"
    using assms by (auto simp: cache_ok_def entries_distinct_def nth_list_update split: if_splits)
  moreover have "known_address ((nc_entries c)[i := entry_default L]) (hp_address p)"
    if "p \<in> set (drop_packets ?a (nc_pending c))" "hp_used p" for p
  proof -
    have p: "p \<in> set (nc_pending c)" "hp_address p \<noteq> ?a" using that by (auto simp: drop_packets_def split: if_splits)
    then have "known_address (nc_entries c) (hp_address p)" using assms(1) that(2) by (auto simp: cache_ok_def packets_ok_def)
    then obtain j where "j < length (nc_entries c)" "ne_used (nc_entries c ! j)" "ne_address (nc_entries c ! j) = hp_address p"
      by (auto simp: known_address_def in_set_conv_nth)
    moreover from this have "j \<noteq> i" using p(2) by auto
    ultimately show ?thesis by (intro known_addressI [of j]) simp_all
  qed
  moreover have "held_in (drop_packets ?a (nc_pending c)) a
      \<le> (if length (drop_packets ?a (nc_pending c)) < 3 then length (drop_packets ?a (nc_pending c)) else 3)" for a
    using held_drop [of ?a "nc_pending c" a] assms(1) by (auto simp: cache_ok_def packets_ok_def drop_packets_def intro: order_trans)
  ultimately show ?thesis by (auto simp: cache_ok_def packets_ok_def)
qed

lemma nb_lookup_None: "nb_lookup c a = None \<longleftrightarrow> \<not> known_address (nc_entries c) a"
  by (auto simp: nb_lookup_def known_address_def)

lemma nb_lookup_Some:
  assumes "nb_lookup c a = Some i"
  shows "i < length (nc_entries c)" and "ne_used (nc_entries c ! i)" and "ne_address (nc_entries c ! i) = a"
  using first_indexD(1,2) [OF assms [unfolded nb_lookup_def]] by auto

lemma known_address_clear: "known_address (es[i := entry_default L]) a \<Longrightarrow> known_address es a"
proof (erule known_addressE)
  fix j
  assume "j < length (es[i := entry_default L])" and "ne_used (es[i := entry_default L] ! j)"
    and "ne_address (es[i := entry_default L] ! j) = a"
  moreover from this have "j \<noteq> i" by auto
  ultimately show "known_address es a" by (intro known_addressI [of j]) simp_all
qed

lemma nb_create_ok:
  assumes "cache_ok c" and "nb_lookup c a = None" and "nb_create L c a now = (r, c')"
  shows "cache_ok c' \<and> (\<forall>i. r = Inr i \<longrightarrow> i < length (nc_entries c') \<and> ne_used (nc_entries c' ! i) \<and> ne_address (nc_entries c' ! i) = a)
    \<and> length (nc_entries c') = length (nc_entries c)"
proof -
  let ?slot = "case first_index (\<lambda>e. \<not> ne_used e) (nc_entries c) of Some i \<Rightarrow> Some i | None \<Rightarrow> nb_victim c"
  have unknown: "\<not> known_address (nc_entries c) a" using assms(2) by (simp add: nb_lookup_None)
  show ?thesis
  proof (cases ?slot)
    case None
    then show ?thesis using assms(1,3) by (auto simp: nb_create_def)
  next
    case (Some i)
    have i: "i < length (nc_entries c)"
      using Some first_indexD(1) [of _ "nc_entries c" i] least_indexD [of _ _ "nc_entries c" i]
      by (auto simp: nb_victim_def split: option.splits)
    let ?c1 = "if ne_used (nc_entries c ! i) then nb_drop L (count_evicted c) i else c"
    let ?e = "(nc_entries ?c1 ! i)\<lparr>ne_used := True, ne_address := a, ne_used_at := now\<rparr>"
    have r: "r = Inr i" "c' = put_entry ?c1 i ?e" using assms(3) Some by (simp_all add: nb_create_def Let_def)
    have ok: "cache_ok ?c1" using cache_ok_drop [of "count_evicted c" i L] assms(1) i by simp
    have "cache_ok (put_entry ?c1 i ?e)"
    proof (rule cache_ok_use [OF ok])
      show "i < length (nc_entries ?c1)" using i by simp
      show "\<not> ne_used (nc_entries ?c1 ! i)" using i by simp
      show "\<not> known_address (nc_entries ?c1) (ne_address ?e)"
        using unknown known_address_clear [of "nc_entries c" i L a] by auto
    qed
    then show ?thesis using r i by simp
  qed
qed

section \<open>Held packets\<close>

lemma least_fold_None:
  "fold (\<lambda>i found. if P (xs ! i) \<and> (case found of None \<Rightarrow> True | Some j \<Rightarrow> key (xs ! i) < key (xs ! j))
     then Some i else found) js found = None \<Longrightarrow> found = None \<and> (\<forall>j \<in> set js. \<not> P (xs ! j))"
proof (induction js arbitrary: found)
  case (Cons j js)
  from Cons.IH [OF Cons.prems [unfolded fold_Cons comp_def]] show ?case
    by (cases found) (simp_all split: if_splits)
qed simp

lemma least_index_None: "least_index P key xs = None \<Longrightarrow> x \<in> set xs \<Longrightarrow> \<not> P x"
  unfolding least_index_def by (drule least_fold_None) (auto simp: in_set_conv_nth)

lemma hold_slot_in: "hold_slot c a = Some i \<Longrightarrow> i < length (nc_pending c)"
  unfolding hold_slot_def nb_oldest_def Let_def
  by (simp split: if_split_asm option.split_asm del: first_index_None)
    (blast dest: least_indexD first_indexD(1))+

text \<open>A neighbour at its limit gives up one of its own packets.\<close>

lemma hold_slot_own:
  assumes "hold_slot c a = Some i" and "held_in (nc_pending c) a \<ge> per_neighbour_pending c"
  shows "hp_used (nc_pending c ! i) \<and> hp_address (nc_pending c ! i) = a"
proof (cases "nb_oldest c (Some a)")
  case (Some j)
  then have "hold_slot c a = Some j" using assms(2) by (simp add: hold_slot_def held_in_def nb_held_def)
  then show ?thesis using assms(1) least_indexD [OF Some [unfolded nb_oldest_def]] by simp
next
  case None
  then have "held_in (nc_pending c) a = 0"
    using least_index_None [OF None [unfolded nb_oldest_def]] by (simp add: held_in_def count_if_zero_iff)
  then have "length (nc_pending c) = 0" using assms(2) by (simp add: per_neighbour_pending_def split: if_splits)
  then show ?thesis using hold_slot_in [OF assms(1)] by simp
qed

lemma packets_ok_hold:
  assumes "packets_ok es ps" and "i < length ps" and "known_address es a" and "hp_used p" and "hp_address p = a"
    and "held_in ps a \<ge> (if length ps < 3 then length ps else 3) \<longrightarrow> hp_used (ps ! i) \<and> hp_address (ps ! i) = a"
  shows "packets_ok es (ps[i := p])"
proof -
  let ?m = "if length ps < 3 then length ps else 3"
  have "held_in (ps[i := p]) b \<le> ?m" for b
  proof -
    have u: "held_in (ps[i := p]) b + (if hp_used (ps ! i) \<and> hp_address (ps ! i) = b then 1 else 0)
        = held_in ps b + (if hp_used p \<and> hp_address p = b then 1 else 0)"
      unfolding held_in_def by (rule count_if_update [OF assms(2)])
    have "held_in ps b \<le> ?m" using assms(1) by (auto simp: packets_ok_def)
    then show ?thesis using u assms(4-6) by (cases "b = a") (auto split: if_splits)
  qed
  moreover have "hp_used x \<longrightarrow> known_address es (hp_address x)" if "x \<in> set (ps[i := p])" for x
    using set_update_subset_insert [THEN subsetD, OF that] assms(1,3,5) by (auto simp: packets_ok_def)
  ultimately show ?thesis unfolding packets_ok_def length_list_update by blast
qed

lemma nb_hold_ok:
  assumes "cache_ok c"
  shows "cache_ok (snd (nb_hold L c a packet))"
proof (cases "hold_slot c a")
  case None
  then show ?thesis using assms by (simp add: nb_hold_def)
next
  case (Some i)
  have own: "held_in (nc_pending c) a \<ge> (if length (nc_pending c) < 3 then length (nc_pending c) else 3) \<longrightarrow>
      hp_used (nc_pending c ! i) \<and> hp_address (nc_pending c ! i) = a"
    using hold_slot_own [OF Some] by (auto simp: per_neighbour_pending_def)
  have "cache_ok (c1\<lparr>nc_order := n, nc_pending := (nc_pending c)[i := p]\<rparr>)"
    if "nb_lookup c a = Some j" "nc_entries c1 = nc_entries c" "hp_used p" "hp_address p = a" for c1 n p j
    using packets_ok_hold [OF _ hold_slot_in [OF Some] known_addressI [OF nb_lookup_Some [OF that(1)]] that(3,4) own]
      assms that(2) by (simp add: cache_ok_def)
  then show ?thesis
    using assms Some by (cases "nb_lookup c a") (simp_all add: nb_hold_def Let_def)
qed

section \<open>Operations\<close>

lemma entry_to_fields [simp]: "ne_used (entry_to T e s now) = ne_used e" "ne_address (entry_to T e s now) = ne_address e"
  by (simp_all add: entry_to_def)

lemma created_put:
  assumes "cache_ok c" and "nb_lookup c a = None" and "nb_create L c a now = (r, c')"
    and "ne_used e = ne_used (nc_entries c' ! i)" and "ne_address e = ne_address (nc_entries c' ! i)"
  shows "cache_ok (put_entry c' i e)"
  using nb_create_ok [OF assms(1-3)] by (intro cache_ok_put [OF _ assms(4,5)]) blast

lemma nb_resolve_ok: "cache_ok c \<Longrightarrow> cache_ok (snd (nb_resolve L c a now))"
  using nb_create_ok [of c a L now]
  by (cases "nb_lookup c a") (auto simp: nb_resolve_def Let_def split: prod.splits sum.splits intro: cache_ok_put created_put)

lemma nb_announce_ok: "cache_ok c \<Longrightarrow> cache_ok (snd (nb_announce L c a m now))"
  using nb_create_ok [of c a L now]
  by (cases m; cases "nb_lookup c a")
    (auto simp: nb_announce_def Let_def split: prod.splits sum.splits intro: cache_ok_put created_put)

lemma nb_advertise_ok: "cache_ok c \<Longrightarrow> cache_ok (snd (nb_advertise c a m flags now))"
  by (cases "nb_lookup c a"; cases m) (simp_all add: nb_advertise_def Let_def cache_ok_put)

lemma nb_update_ok: "cache_ok c \<Longrightarrow> cache_ok (snd (nb_update L c a m kind flags now))"
  by (simp add: nb_update_def nb_announce_ok nb_advertise_ok)

lemma nb_confirm_ok: "cache_ok c \<Longrightarrow> cache_ok (nb_confirm c a now)"
  by (cases "nb_lookup c a") (simp_all add: nb_confirm_def Let_def cache_ok_put)

lemma nb_add_permanent_ok: "cache_ok c \<Longrightarrow> cache_ok (snd (nb_add_permanent L c a m now))"
  using nb_create_ok [of c a L now]
  by (cases "nb_lookup c a") (auto simp: nb_add_permanent_def split: prod.splits sum.splits intro: cache_ok_put created_put)

lemma nb_remove_ok: "cache_ok c \<Longrightarrow> cache_ok (snd (nb_remove L c a))"
  using nb_lookup_Some(1) [of c a] by (cases "nb_lookup c a") (simp_all add: nb_remove_def cache_ok_drop)

lemma tick_probe_ok:
  assumes "cache_ok c" and "i < length (nc_entries c)"
    and "ne_used e = ne_used (nc_entries c ! i)" and "ne_address e = ne_address (nc_entries c ! i)"
  shows "cache_ok (fst (tick_probe L now room i e (c, out))) \<and>
    length (nc_entries (fst (tick_probe L now room i e (c, out)))) = length (nc_entries c)"
proof -
  have c1: "cache_ok (put_entry c i e)" using assms by (simp add: cache_ok_put)
  then have "cache_ok (nb_drop L (count_failed (put_entry c i e)) i)" using assms(2) by (intro cache_ok_drop) simp_all
  moreover have "cache_ok (put_entry (put_entry c i e) i (e\<lparr>ne_probes := n, ne_deadline := d\<rparr>))" for n d
    using c1 by (rule cache_ok_put) (use assms(2) in simp_all)
  ultimately show ?thesis using c1 by (simp add: tick_probe_def Let_def)
qed

lemma tick_entry_ok:
  assumes "cache_ok (fst s)" and "i < length (nc_entries (fst s))"
  shows "cache_ok (fst (tick_entry L now room i s)) \<and>
    length (nc_entries (fst (tick_entry L now room i s))) = length (nc_entries (fst s))"
proof (cases s)
  case (Pair c out)
  then show ?thesis
    using assms tick_probe_ok [of c i _ L now room out] cache_ok_put [of c _ i]
    by (simp add: tick_entry_def Let_def split: neighbour_state.split)
qed

lemma nb_tick_ok: "cache_ok c \<Longrightarrow> cache_ok (fst (nb_tick L c now room))"
proof -
  have "cache_ok (fst s) \<Longrightarrow> \<forall>i \<in> set js. i < length (nc_entries (fst s)) \<Longrightarrow> cache_ok (fst (fold (tick_entry L now room) js s))"
    for js s
  proof (induction js arbitrary: s)
    case (Cons j js)
    then show ?case using tick_entry_ok [of s j L now room] by simp
  qed simp
  then show "cache_ok c \<Longrightarrow> cache_ok (fst (nb_tick L c now room))" by (simp add: nb_tick_def)
qed

lemma release_packet_ok:
  assumes "cache_ok c" and "i < length (nc_pending c)"
  shows "cache_ok (release_packet c i)"
proof -
  let ?p = "(nc_pending c ! i)\<lparr>hp_used := False\<rparr>"
  have "held_in ((nc_pending c)[i := ?p]) a \<le> held_in (nc_pending c) a" for a
    using count_if_update [OF assms(2), of "\<lambda>p. hp_used p \<and> hp_address p = a" ?p] by (simp add: held_in_def)
  moreover have "hp_used x \<longrightarrow> x \<in> set (nc_pending c)" if "x \<in> set ((nc_pending c)[i := ?p])" for x
    using set_update_subset_insert [THEN subsetD, OF that] by auto
  ultimately have "packets_ok (nc_entries c) ((nc_pending c)[i := ?p])"
    using assms(1) unfolding cache_ok_def packets_ok_def length_list_update by (meson order_trans)
  then show ?thesis using assms(1) by (simp add: cache_ok_def release_packet_def)
qed

lemma nb_flush_ok: "cache_ok c \<Longrightarrow> cache_ok (fst (snd (nb_flush_loop sink c s sent)))"
proof (induction sink c s sent rule: nb_flush_loop.induct)
  case (1 sink c s sent)
  show ?case
  proof (cases "nb_next_flush c")
    case None
    then show ?thesis using 1(2) by (subst nb_flush_loop.simps) simp
  next
    case (Some i)
    let ?p = "nc_pending c ! i"
    obtain taken s' where t: "sink s (neighbour_mac c (hp_address ?p)) (hp_address ?p) (take (hp_length ?p) (hp_bytes ?p)) = (taken, s')"
      by fastforce
    have "cache_ok (release_packet c i)"
      using release_packet_ok [OF 1(2)] least_indexD [OF Some [unfolded nb_next_flush_def]] by blast
    then show ?thesis using 1(1) [OF Some refl t [symmetric]] 1(2) Some t
      by (subst nb_flush_loop.simps) (simp add: Let_def)
  qed
qed

datatype 's neighbour_op =
    NO_reachable_time u64
  | NO_retransmit_time u64
  | NO_resolve "u8 list" u64
  | NO_hold "u8 list" bytes
  | NO_update "u8 list" "mac option" neighbour_update neighbour_advertisement u64
  | NO_confirm "u8 list" u64
  | NO_add_permanent "u8 list" mac u64
  | NO_remove "u8 list"
  | NO_tick u64 nat
  | NO_flush "'s \<Rightarrow> mac \<Rightarrow> u8 list \<Rightarrow> bytes \<Rightarrow> bool \<times> 's" 's

fun nb_exec :: "neighbour_limits \<Rightarrow> 's neighbour_op \<Rightarrow> neighbour_cache \<Rightarrow> neighbour_cache" where
  "nb_exec L (NO_reachable_time ms) c = set_reachable_time c ms"
| "nb_exec L (NO_retransmit_time ms) c = set_retransmit_time c ms"
| "nb_exec L (NO_resolve a now) c = snd (nb_resolve L c a now)"
| "nb_exec L (NO_hold a packet) c = snd (nb_hold L c a packet)"
| "nb_exec L (NO_update a m kind flags now) c = snd (nb_update L c a m kind flags now)"
| "nb_exec L (NO_confirm a now) c = nb_confirm c a now"
| "nb_exec L (NO_add_permanent a m now) c = snd (nb_add_permanent L c a m now)"
| "nb_exec L (NO_remove a) c = snd (nb_remove L c a)"
| "nb_exec L (NO_tick now room) c = fst (nb_tick L c now room)"
| "nb_exec L (NO_flush sink s) c = fst (snd (nb_flush sink c s))"

lemma set_times_ok: "cache_ok (set_reachable_time c ms) = cache_ok c" "cache_ok (set_retransmit_time c ms) = cache_ok c"
  by (simp_all add: set_reachable_time_def set_retransmit_time_def cache_ok_def)

lemma nb_exec_ok: "cache_ok c \<Longrightarrow> cache_ok (nb_exec L x c)"
  by (cases x)
    (simp_all add: set_times_ok nb_resolve_ok nb_hold_ok nb_update_ok nb_confirm_ok
      nb_add_permanent_ok nb_remove_ok nb_tick_ok nb_flush_def nb_flush_ok)

section \<open>Property\<close>

text \<open>
  C16: after any sequence of operations on a new neighbour cache, a flush with any sink included:
  no two entries in use have the same address; every packet held belongs to an entry in use; and
  no address holds more packets than its share, which is three, or the whole pool when that is
  smaller.
\<close>

theorem neighbour_cache_invariant:
  fixes ops :: "'s neighbour_op list"
  assumes "c = fold (nb_exec L) ops (neighbour_cache_new L n m timing)"
  shows "entries_distinct (nc_entries c) \<and>
    (\<forall>p \<in> set (nc_pending c). hp_used p \<longrightarrow> nb_lookup c (hp_address p) \<noteq> None) \<and>
    (\<forall>a. nb_held c a \<le> per_neighbour_pending c)"
proof -
  have "cache_ok c0 \<Longrightarrow> cache_ok (fold (nb_exec L) ops c0)" for c0
    by (induction ops arbitrary: c0) (simp_all add: nb_exec_ok)
  then have "cache_ok c" unfolding assms by (simp add: cache_ok_new)
  then show ?thesis
    by (auto simp: cache_ok_def packets_ok_def nb_lookup_None nb_held_def held_in_def per_neighbour_pending_def)
qed

theorem neighbour_cache_invariant_witness:
  "nb_held (fold (nb_exec \<lparr>nl_address = [0, 0, 0, 0], nl_packet_bytes = 8\<rparr>)
     [NO_resolve [10, 0, 2, 2] 5, NO_hold [10, 0, 2, 2] [1], NO_hold [10, 0, 2, 2] [2], NO_hold [10, 0, 2, 2] [3],
      NO_hold [10, 0, 2, 2] [4], NO_flush (\<lambda>s m a b. (True, s)) ()]
     (neighbour_cache_new \<lparr>nl_address = [0, 0, 0, 0], nl_packet_bytes = 8\<rparr> 2 4 timing_default)) [10, 0, 2, 2]
   \<le> per_neighbour_pending (fold (nb_exec \<lparr>nl_address = [0, 0, 0, 0], nl_packet_bytes = 8\<rparr>)
     [NO_resolve [10, 0, 2, 2] 5, NO_hold [10, 0, 2, 2] [1], NO_hold [10, 0, 2, 2] [2], NO_hold [10, 0, 2, 2] [3],
      NO_hold [10, 0, 2, 2] [4], NO_flush (\<lambda>s m a b. (True, s)) ()]
     (neighbour_cache_new \<lparr>nl_address = [0, 0, 0, 0], nl_packet_bytes = 8\<rparr> 2 4 timing_default))"
  by (rule neighbour_cache_invariant [OF refl, THEN conjunct2, THEN conjunct2, THEN spec])

end
